(* ===== verification/Prelude.thy ===== *)
theory Prelude
  imports Main "HOL-Library.Word"
begin

text \<open>
  Shared vocabulary of the development.

  \<^item> the fixed-width integer types the sources use, as words;
  \<^item> \<open>fault\<close>: the ways in which a run of the C++ code leaves the behaviour its author
    wrote down (a null dereference, a failed \<open>assert\<close>, a \<open>panic\<close>, undefined behaviour,
    an access outside an array, a spin lock that is never released, a page fault), as values of the left
    summand of a result type;
  \<^item> \<open>bindE\<close>, the sequencing of two computations that can fault, with its congruence,
    inversion and split rules;
  \<^item> the collections of facts that carry the proofs of the components, and generic lemmas
    on lists, options and words.
\<close>

unbundle bit_operations_syntax

section \<open>Machine integers\<close>

type_synonym u8 = "8 word"
type_synonym u16 = "16 word"
type_synonym u32 = "32 word"
type_synonym u64 = "64 word"

section \<open>Faults and their propagation\<close>

text \<open>
  \<open>OutOfFuel\<close> is not a behaviour of the code: it is what a loop of the model returns when
  the bound on its iterations is too small. Every theorem about a loop says how much fuel
  is enough.
\<close>

datatype fault =
    NullDeref
  | AssertFailed
  | Panicked
  | UndefinedBehaviour
  | OutOfBounds
  | DivideByZero
  | Deadlock
  | Blocked
  | PageFault
  | ProtectionFault
  | OutOfFuel

type_synonym 'a exec = "fault + 'a"

fun bindE :: "'e + 'a \<Rightarrow> ('a \<Rightarrow> 'e + 'b) \<Rightarrow> 'e + 'b" where
  "bindE (Inl e) f = Inl e"
| "bindE (Inr x) f = f x"

definition guardE :: "bool \<Rightarrow> 'e \<Rightarrow> 'e + 'b \<Rightarrow> 'e + 'b" where
  "guardE b e m = (if b then m else Inl e)"

named_theorems exec_simps \<open>evaluation of faulting computations\<close>
named_theorems exec_elims \<open>inversion of faulting computations\<close>

lemma bindE_cong [fundef_cong]:
  assumes "m = m'" and "\<And>x. m' = Inr x \<Longrightarrow> f x = f' x"
  shows "bindE m f = bindE m' f'"
  using assms by (cases m') auto

lemma bindE_eq_Inr [exec_simps]: "bindE m f = Inr y \<longleftrightarrow> (\<exists>x. m = Inr x \<and> f x = Inr y)"
  by (cases m) auto

lemma bindE_eq_Inl [exec_simps]:
  "bindE m f = Inl e \<longleftrightarrow> m = Inl e \<or> (\<exists>x. m = Inr x \<and> f x = Inl e)"
  by (cases m) auto

lemma bindE_assoc: "bindE (bindE m f) g = bindE m (\<lambda>x. bindE (f x) g)"
  by (cases m) auto

lemma bindE_Inr_right [simp]: "bindE m Inr = m"
  by (cases m) auto

lemma bindE_ok: "m = Inr x \<Longrightarrow> bindE m f = f x"
  by simp

lemma guardE_simps [simp]: "guardE True e m = m" "guardE False e m = Inl e"
  by (simp_all add: guardE_def)

lemma guardE_eq_Inr [exec_simps]: "guardE b e m = Inr y \<longleftrightarrow> b \<and> m = Inr y"
  by (simp add: guardE_def)

lemma guardE_eq_Inl [exec_simps]: "guardE b e m = Inl e' \<longleftrightarrow> (b \<and> m = Inl e') \<or> (\<not> b \<and> e' = e)"
  by (auto simp: guardE_def)

lemma guardE_cong [fundef_cong]:
  assumes "b = b'" and "e = e'" and "b' \<Longrightarrow> m = m'"
  shows "guardE b e m = guardE b' e' m'"
  using assms by (simp add: guardE_def)

section \<open>Lists\<close>

named_theorems list_facts \<open>generic facts on lists the components share\<close>

lemma hd_append_Cons [list_facts]: "hd (xs @ y # ys) = (case xs of [] \<Rightarrow> y | x # _ \<Rightarrow> x)"
  by (cases xs) auto

lemma butlast_Cons_snoc [list_facts]: "butlast (x # xs @ [y]) = x # xs"
  using butlast_snoc [of "x # xs" y] by simp

lemma set_rotated [list_facts]: "set (us @ x # vs) = set (x # vs @ us)"
  by auto

lemma count_list_update [list_facts]:
  assumes "i < length xs"
  shows "count_list (xs[i := y]) x + (if xs ! i = x then 1 else 0) =
    count_list xs x + (if y = x then 1 else 0)"
  using assms
proof (induction xs arbitrary: i)
  case (Cons a xs)
  show ?case using Cons.IH [of "i - 1"] Cons.prems by (cases i) (auto split: if_splits)
qed simp

lemma count_list_pos [list_facts]: "i < length xs \<Longrightarrow> 0 < count_list xs (xs ! i)"
  by (simp add: count_list_0_iff zero_less_iff_neq_zero)

lemma index_less_length [list_facts]: "x \<in> set xs \<Longrightarrow> length (takeWhile (\<lambda>y. y \<noteq> x) xs) < length xs"
  by (induction xs) auto

section \<open>Words\<close>

named_theorems word_facts \<open>facts on machine words the components share\<close>

lemma word_of_nat_less_iff [word_facts]:
  fixes a b :: "'a::len word"
  shows "a < b \<longleftrightarrow> unat a < unat b"
  by (rule word_less_nat_alt)

lemma word_nonzero_iff_bit [word_facts]:
  fixes w :: "'a::len word"
  shows "w \<noteq> 0 \<longleftrightarrow> (\<exists>n. bit w n)"
  by (metis bit_0_eq bot_apply bot_bool_def bit_eqI)

lemma unat_pow2 [word_facts]:
  assumes "k < LENGTH('a::len)"
  shows "unat (2 ^ k :: 'a word) = 2 ^ k"
proof -
  have "unat (of_nat (2 ^ k) :: 'a word) = 2 ^ k"
    using assms by (subst unat_of_nat) (simp add: mod_less)
  then show ?thesis by simp
qed

lemma unat_plus_no_wrap [word_facts]:
  fixes a b :: "'a::len word"
  assumes "unat a + unat b < 2 ^ LENGTH('a)"
  shows "unat (a + b) = unat a + unat b"
  using assms by (simp add: unat_word_ariths)

lemma unat_minus_no_wrap [word_facts]:
  fixes a b :: "'a::len word"
  assumes "unat b \<le> unat a"
  shows "unat (a - b) = unat a - unat b"
  using assms by (simp add: unat_sub_if_size word_le_nat_alt)

lemma unat_ucast_widen [word_facts]:
  fixes w :: "'a::len word"
  assumes "LENGTH('a) \<le> LENGTH('b::len)"
  shows "unat (ucast w :: 'b word) = unat w"
proof -
  have "unat w < 2 ^ LENGTH('a)" by (rule unsigned_less)
  also have "(2::nat) ^ LENGTH('a) \<le> 2 ^ LENGTH('b)"
    using assms by (intro power_increasing) auto
  finally show ?thesis
    by (simp add: unsigned_ucast_eq take_bit_nat_eq_self)
qed

end
