(* ===== verification/Ebl_Util.thy ===== *)
theory Ebl_Util
  imports Prelude
begin

text \<open>
  The arithmetic helpers of \<open>lib/ebl/util.h\<close>, the page helpers of
  \<open>core/include/arch/interface.h\<close>, the order-based alignment of
  \<open>core/include/core/slab.h\<close> and the bit fields of \<open>lib/ebl/bit.h\<close>, on machine words.
  The locale \<open>pow2_alignment\<close> is the contract of an alignment that is a power of two; the
  page size and the default slab order are its two interpretations.
\<close>

section \<open>Types and constants of the architecture\<close>

type_synonym vaddr_t = u64
type_synonym paddr_t = u64

abbreviation nullptr :: "vaddr_t" where
  "nullptr \<equiv> 0"

definition page_size :: "u32" where
  "page_size = 4096"

definition page_size64 :: "u64" where
  "page_size64 = ucast page_size"

lemma page_size64_eq [simp]: "page_size64 = 4096"
  by (simp add: page_size64_def page_size_def)

section \<open>util.h\<close>

definition ebl_max :: "'a::len word \<Rightarrow> 'a word \<Rightarrow> 'a word" where
  "ebl_max a b = (if a < b then b else a)"

definition ebl_min :: "'a::len word \<Rightarrow> 'a word \<Rightarrow> 'a word" where
  "ebl_min a b = (if a < b then a else b)"

definition align_down :: "'a::len word \<Rightarrow> 'a word \<Rightarrow> 'a word" where
  "align_down val align = val AND NOT (align - 1)"

definition align_up :: "'a::len word \<Rightarrow> 'a word \<Rightarrow> 'a word" where
  "align_up val align = (val + align - 1) AND NOT (align - 1)"

definition page_align_down :: "vaddr_t \<Rightarrow> vaddr_t" where
  "page_align_down addr = align_down addr page_size64"

definition page_align_up :: "vaddr_t \<Rightarrow> vaddr_t" where
  "page_align_up addr = align_up addr page_size64"

lemma ebl_max_max: "ebl_max a b = max a b"
  by (auto simp: ebl_max_def max_def)

lemma ebl_min_min: "ebl_min a b = min a b"
  by (auto simp: ebl_min_def min_def)

text \<open>Alignment to a power of two, in terms of division on the natural numbers.\<close>

lemma and_not_mask_minus:
  fixes v :: "'a::len word"
  shows "v AND NOT (mask k) = v - take_bit k v"
proof -
  have "v - take_bit k v = v AND NOT (take_bit k v)"
    by (rule disjunctive_diff) (simp add: bit_take_bit_iff)
  also have "\<dots> = v AND NOT (mask k)"
    by (rule bit_eqI) (auto simp: bit_simps)
  finally show ?thesis by simp
qed

lemma unat_and_not_mask:
  fixes v :: "'a::len word"
  shows "unat (v AND NOT (mask k)) = unat v div 2 ^ k * 2 ^ k"
proof -
  have low: "unat (take_bit k v) = unat v mod 2 ^ k"
    by (simp add: unsigned_take_bit_eq flip: take_bit_eq_mod)
  then have "unat (v - take_bit k v) = unat v - unat v mod 2 ^ k"
    by (simp add: unat_minus_no_wrap)
  then show ?thesis
    by (simp add: and_not_mask_minus minus_mod_eq_div_mult)
qed

locale pow2_alignment =
  fixes align :: "'a::len word" and k :: nat
  assumes align_eq: "align = 2 ^ k" and k_less: "k < LENGTH('a)"
begin

lemma align_minus_1: "align - 1 = mask k"
  by (simp add: align_eq mask_eq_exp_minus_1)

lemma unat_align: "unat align = 2 ^ k"
  using k_less by (simp add: align_eq unat_pow2)

lemma unat_align_down: "unat (align_down v align) = unat v div 2 ^ k * 2 ^ k"
  unfolding align_down_def align_minus_1 by (rule unat_and_not_mask)

lemma align_down_le: "align_down v align \<le> v"
  by (simp add: word_le_nat_alt unat_align_down)

lemma align_down_dvd: "2 ^ k dvd unat (align_down v align)"
  by (simp add: unat_align_down)

lemma align_down_close: "unat v < unat (align_down v align) + 2 ^ k"
proof -
  have "unat v mod 2 ^ k < 2 ^ k" by simp
  then show ?thesis
    using div_mult_mod_eq [of "unat v" "2 ^ k"] unat_align_down [of v] by linarith
qed

lemma align_down_fix: "2 ^ k dvd unat v \<Longrightarrow> align_down v align = v"
  by (rule word_unat_eq_iff [THEN iffD2]) (simp add: unat_align_down)

lemma align_up_as_down: "align_up v align = align_down (v + (align - 1)) align"
  by (simp add: align_up_def align_down_def algebra_simps)

lemma unat_align_up_raw:
  assumes "unat v + (2 ^ k - 1) < 2 ^ LENGTH('a)"
  shows "unat (align_up v align) = (unat v + (2 ^ k - 1)) div 2 ^ k * 2 ^ k"
proof -
  have "unat (align - 1) = 2 ^ k - 1"
    by (subst unat_minus_no_wrap) (simp_all add: unat_align)
  with assms have "unat (v + (align - 1)) = unat v + (2 ^ k - 1)"
    by (subst unat_plus_no_wrap) simp_all
  then show ?thesis
    by (simp only: align_up_as_down unat_align_down)
qed

lemma align_up_dvd: "2 ^ k dvd unat (align_up v align)"
  by (simp add: align_up_as_down align_down_dvd)

lemma align_up_ge:
  assumes "unat v + (2 ^ k - 1) < 2 ^ LENGTH('a)"
  shows "unat v \<le> unat (align_up v align)"
    and "unat (align_up v align) < unat v + 2 ^ k"
proof -
  let ?m = "unat v + (2 ^ k - 1)"
  have "?m = ?m div 2 ^ k * 2 ^ k + ?m mod 2 ^ k" by (simp only: div_mult_mod_eq)
  moreover have "?m mod 2 ^ k \<le> 2 ^ k - 1"
    using mod_less_divisor [of "2 ^ k" ?m] by (simp add: less_eq_Suc_le le_diff_conv2)
  moreover have "(1::nat) \<le> 2 ^ k" by simp
  ultimately show "unat v \<le> unat (align_up v align)"
    and "unat (align_up v align) < unat v + 2 ^ k"
    using unat_align_up_raw [OF assms] by linarith+
qed

lemma align_up_least:
  assumes "unat v + (2 ^ k - 1) < 2 ^ LENGTH('a)" and "unat v \<le> m" and "2 ^ k dvd m"
  shows "unat (align_up v align) \<le> m"
proof (rule ccontr)
  assume gt: "\<not> unat (align_up v align) \<le> m"
  obtain q where q: "unat (align_up v align) = 2 ^ k * q"
    using align_up_dvd [of v] by (rule dvdE)
  obtain r where r: "m = 2 ^ k * r" using assms(3) by (rule dvdE)
  from gt q r have "r < q" by simp
  then have "Suc r \<le> q" by simp
  then have "2 ^ k * Suc r \<le> 2 ^ k * q" by (rule mult_le_mono2)
  then have "m + 2 ^ k \<le> unat (align_up v align)" using q r by simp
  with align_up_ge(2) [OF assms(1)] assms(2) show False by simp
qed

lemma align_up_fix:
  assumes "unat v + (2 ^ k - 1) < 2 ^ LENGTH('a)" and "2 ^ k dvd unat v"
  shows "align_up v align = v"
  using align_up_least [OF assms(1) order_refl assms(2)] align_up_ge(1) [OF assms(1)]
  by (simp add: word_unat_eq_iff)

end

lemma page_size_pow2: "page_size64 = 2 ^ 12"
  by simp

interpretation page: pow2_alignment page_size64 12
  by unfold_locales (simp_all add: page_size_pow2)

section \<open>slab.h: alignment by order\<close>

text \<open>
  \<open>(1 << (unsigned int)order)\<close> is an \<open>int\<close> shift that is combined with the
  \<open>unsigned int\<close> value; for orders of at least 31 the shift overflows \<open>int\<close>. Every
  caller passes a constant order below 31, and the model is that of the 32-bit result.
\<close>

definition kmem_align_up :: "u32 \<Rightarrow> u16 \<Rightarrow> u32" where
  "kmem_align_up value order =
     (value + (push_bit (unat order) 1 - 1)) AND NOT (push_bit (unat order) 1 - 1)"

definition default_order :: "u16" where
  "default_order = 3"

lemma kmem_align_up_eq: "kmem_align_up v n = align_up v (2 ^ unat n)"
  by (simp add: kmem_align_up_def align_up_def push_bit_eq_mult algebra_simps)

interpretation objalign: pow2_alignment "8 :: u32" 3
  by unfold_locales simp_all

section \<open>bit.h: bit fields\<close>

text \<open>
  \<open>BitField<T, Index, Bits>\<close> over an underlying word \<open>T2\<close>. The mask is computed as an
  \<open>unsigned int\<close> and converted to \<open>T2\<close>; the shifts and the bitwise operators act on a
  promoted value whose conversion back to \<open>T2\<close> drops the high bits, which is what the
  operators on words do.
\<close>

definition bf_mask :: "nat \<Rightarrow> 'a::len word" where
  "bf_mask Bits = ucast ((push_bit Bits 1 :: u32) - 1)"

definition bf_assign :: "nat \<Rightarrow> nat \<Rightarrow> 'a::len word \<Rightarrow> 'a word \<Rightarrow> 'a word" where
  "bf_assign Index Bits field value =
     (field AND NOT (push_bit Index (bf_mask Bits)))
       OR push_bit Index (value AND bf_mask Bits)"

definition bf_get :: "nat \<Rightarrow> nat \<Rightarrow> 'a::len word \<Rightarrow> 'a word" where
  "bf_get Index Bits field = drop_bit Index field AND bf_mask Bits"

definition bf_bool :: "nat \<Rightarrow> nat \<Rightarrow> 'a::len word \<Rightarrow> bool" where
  "bf_bool Index Bits field = (field AND push_bit Index (bf_mask Bits) \<noteq> 0)"

lemma bit_bf_mask:
  assumes "b < 32"
  shows "bit (bf_mask b :: 'a::len word) n \<longleftrightarrow> n < b \<and> n < LENGTH('a)"
proof -
  have "(push_bit b 1 :: u32) - 1 = mask b"
    by (simp add: mask_eq_exp_minus_1 push_bit_eq_mult)
  then show ?thesis
    using assms by (auto simp: bf_mask_def bit_simps)
qed

lemma bf_get_assign:
  fixes v x :: "'a::len word"
  assumes "b < 32" and "i + b \<le> LENGTH('a)"
  shows "bf_get i b (bf_assign i b v x) = x AND bf_mask b"
  by (rule bit_eqI)
    (use assms in \<open>auto simp: bf_get_def bf_assign_def bit_bf_mask bit_simps\<close>)

lemma bf_assign_get:
  fixes v :: "'a::len word"
  assumes "b < 32" and "i + b \<le> LENGTH('a)"
  shows "bf_assign i b v (bf_get i b v) = v"
  by (rule bit_eqI)
    (use assms in \<open>auto simp: bf_get_def bf_assign_def bit_bf_mask bit_simps\<close>)

lemma bf_get_assign_other:
  fixes v x :: "'a::len word"
  assumes "b < 32" and "b' < 32" and "i + b \<le> j \<or> j + b' \<le> i"
  shows "bf_get j b' (bf_assign i b v x) = bf_get j b' v"
  by (rule bit_eqI)
    (use assms in \<open>auto simp: bf_get_def bf_assign_def bit_bf_mask bit_simps
      dest: bit_imp_le_length\<close>)

lemma bf_bool_iff_get:
  fixes v :: "'a::len word"
  assumes "b < 32"
  shows "bf_bool i b v \<longleftrightarrow> bf_get i b v \<noteq> 0"
proof -
  have "bf_bool i b v \<longleftrightarrow> (\<exists>n. bit (v AND push_bit i (bf_mask b)) n)"
    by (simp add: bf_bool_def word_nonzero_iff_bit)
  also have "\<dots> \<longleftrightarrow> (\<exists>n. bit (bf_get i b v) n)"
  proof
    assume "\<exists>n. bit (v AND push_bit i (bf_mask b)) n"
    then obtain n where "bit v n" "i \<le> n" "n - i < b" "n < LENGTH('a)"
      using assms by (auto simp: bit_bf_mask bit_simps)
    then have "bit (bf_get i b v) (n - i)"
      using assms by (simp add: bf_get_def bit_bf_mask bit_simps)
    then show "\<exists>n. bit (bf_get i b v) n" ..
  next
    assume "\<exists>n. bit (bf_get i b v) n"
    then obtain n where n: "bit v (i + n)" "n < b"
      using assms by (auto simp: bf_get_def bit_bf_mask bit_simps)
    then have "i + n < LENGTH('a)" by (meson bit_imp_le_length not_le)
    with n have "bit (v AND push_bit i (bf_mask b)) (i + n)"
      using assms by (simp add: bit_bf_mask bit_simps)
    then show "\<exists>n. bit (v AND push_bit i (bf_mask b)) n" ..
  qed
  also have "\<dots> \<longleftrightarrow> bf_get i b v \<noteq> 0"
    by (simp add: word_nonzero_iff_bit)
  finally show ?thesis .
qed

section \<open>Properties\<close>

text \<open>
  C39. \<open>page_align_down\<close> gives the greatest multiple of the page size that is at most the
  address, and \<open>page_align_up\<close> the least that is at least the address, provided the address
  is not in the last page of the 64-bit address space, where the sum wraps around.
\<close>

theorem page_alignment:
  assumes "unat addr + 4095 < 2 ^ 64"
  shows "4096 dvd unat (page_align_down addr) \<and> page_align_down addr \<le> addr \<and>
    unat addr < unat (page_align_down addr) + 4096 \<and>
    4096 dvd unat (page_align_up addr) \<and> addr \<le> page_align_up addr \<and>
    (\<forall>m. 4096 dvd m \<longrightarrow> unat addr \<le> m \<longrightarrow> unat (page_align_up addr) \<le> m)"
proof -
  have r: "unat addr + (2 ^ 12 - 1) < 2 ^ LENGTH(64)" using assms by simp
  show ?thesis
    using page.align_down_dvd [of addr] page.align_down_le [of addr] page.align_down_close [of addr]
      page.align_up_dvd [of addr] page.align_up_ge(1) [OF r] page.align_up_least [OF r]
    by (simp add: page_align_down_def page_align_up_def word_le_nat_alt)
qed

theorem page_alignment_witness:
  "4096 dvd unat (page_align_up 4097) \<and> 4097 \<le> page_align_up 4097 \<and> page_align_up 4097 = 8192"
  using page_alignment [of 4097] by (simp add: page_align_up_def align_up_def)

text \<open>
  The bit fields of \<open>bit.h\<close>: reading a field after assigning it gives the assigned value
  cut to its width, assigning a field its own value changes nothing, and assigning a field
  changes no other field that does not overlap it.
\<close>

theorem bitfield_laws:
  fixes v x :: "'a::len word"
  assumes "b < 32" and "i + b \<le> LENGTH('a)" and "c < 32" and "i + b \<le> j \<or> j + c \<le> i"
  shows "bf_get i b (bf_assign i b v x) = x AND bf_mask b \<and> bf_assign i b v (bf_get i b v) = v \<and>
    bf_get j c (bf_assign i b v x) = bf_get j c v \<and> (bf_bool i b v \<longleftrightarrow> bf_get i b v \<noteq> 0)"
  using bf_get_assign [OF assms(1,2)] bf_assign_get [OF assms(1,2)]
    bf_get_assign_other [OF assms(1,3,4)] bf_bool_iff_get [OF assms(1)] by blast

theorem bitfield_laws_witness:
  "bf_get 4 1 (bf_assign 4 1 (0xA5 :: u8) 1) = 1 \<and> bf_get 0 4 (bf_assign 4 1 (0xA5 :: u8) 1) = 5"
  using bitfield_laws [of 1 4 4 0 "0xA5 :: u8" 1]
  by (simp add: bf_get_def bf_assign_def bf_mask_def)

end
