(* ===== verification/Ebl_String.thy ===== *)
theory Ebl_String
  imports Ebl_Util
begin

text \<open>
  \<open>lib/ebl/string.cc\<close>: the memory and string functions, on a byte memory indexed by 64-bit
  addresses. The counted loops recurse on their count; the loops that look for a terminator
  take fuel, one unit per iteration, and the theorems say how much is enough. Addresses are
  words, so a range that reaches the end of the address space wraps around as in the code;
  the theorems on ranges assume that theirs do not. The closed forms of the copies, the
  relation \<open>cstr\<close> (a zero-terminated string in memory) and the arithmetic of the word-wise
  \<open>strlen\<close> are the lemmas the properties rest on.
\<close>

type_synonym mem = "vaddr_t \<Rightarrow> u8"

section \<open>Memory functions\<close>

text \<open>\<open>memcmp\<close> returns the difference of the first two bytes that differ, as an \<open>int\<close>.\<close>

fun memcmp_loop :: "mem \<Rightarrow> vaddr_t \<Rightarrow> vaddr_t \<Rightarrow> nat \<Rightarrow> int" where
  "memcmp_loop m p1 p2 0 = 0"
| "memcmp_loop m p1 p2 (Suc len) =
     (if m p1 \<noteq> m p2 then uint (m p1) - uint (m p2) else memcmp_loop m (p1 + 1) (p2 + 1) len)"

definition memcmp :: "mem \<Rightarrow> vaddr_t \<Rightarrow> vaddr_t \<Rightarrow> u64 \<Rightarrow> int" where
  "memcmp m buf1 buf2 len = memcmp_loop m buf1 buf2 (unat len)"

text \<open>
  \<open>memcpy\<close> and \<open>memset\<close> are compiled from the first branch of their \<open>#if\<close>: neither \<open>ARCH_TYPE\<close> nor
  \<open>ARCH_x86_32\<close> is defined, so the condition compares 0 with 0. The bodies are the string
  instructions \<open>rep movsb\<close> and \<open>rep stosb\<close> with their operands in \<open>rdi\<close>, \<open>rsi\<close>, \<open>rcx\<close> and \<open>al\<close> (the
  direction flag is clear at a call).
\<close>

record string_regs =
  sr_mem :: mem
  sr_rdi :: u64
  sr_rsi :: u64
  sr_rcx :: u64
  sr_al :: u8

definition movsb :: "string_regs \<Rightarrow> string_regs" where
  "movsb s = s\<lparr>sr_mem := (sr_mem s)(sr_rdi s := sr_mem s (sr_rsi s)), sr_rdi := sr_rdi s + 1, sr_rsi := sr_rsi s + 1\<rparr>"

definition stosb :: "string_regs \<Rightarrow> string_regs" where
  "stosb s = s\<lparr>sr_mem := (sr_mem s)(sr_rdi s := sr_al s), sr_rdi := sr_rdi s + 1\<rparr>"

function rep_prefix :: "(string_regs \<Rightarrow> string_regs) \<Rightarrow> string_regs \<Rightarrow> string_regs" where
  "rep_prefix step s =
     (if sr_rcx s = 0 then s else rep_prefix step ((step s)\<lparr>sr_rcx := sr_rcx s - 1\<rparr>))"
  by pat_completeness auto
termination
  by (relation "measure (\<lambda>(_, s). unat (sr_rcx s))") (auto simp: unat_minus_one unat_gt_0)

declare rep_prefix.simps [simp del]

definition memcpy :: "mem \<Rightarrow> vaddr_t \<Rightarrow> vaddr_t \<Rightarrow> u64 \<Rightarrow> mem \<times> vaddr_t" where
  "memcpy m dest src len =
     (sr_mem (rep_prefix movsb \<lparr>sr_mem = m, sr_rdi = dest, sr_rsi = src, sr_rcx = len, sr_al = 0\<rparr>), dest)"

definition memset :: "mem \<Rightarrow> vaddr_t \<Rightarrow> u32 \<Rightarrow> u64 \<Rightarrow> mem \<times> vaddr_t" where
  "memset m dest c len =
     (sr_mem (rep_prefix stosb \<lparr>sr_mem = m, sr_rdi = dest, sr_rsi = 0, sr_rcx = len, sr_al = ucast c\<rparr>), dest)"

text \<open>The two loops of \<open>memmove\<close>.\<close>

fun copy_up :: "mem \<Rightarrow> vaddr_t \<Rightarrow> vaddr_t \<Rightarrow> nat \<Rightarrow> mem" where
  "copy_up m d s 0 = m"
| "copy_up m d s (Suc len) = copy_up (m(d := m s)) (d + 1) (s + 1) len"

fun copy_down :: "mem \<Rightarrow> vaddr_t \<Rightarrow> vaddr_t \<Rightarrow> nat \<Rightarrow> mem" where
  "copy_down m lastd lasts 0 = m"
| "copy_down m lastd lasts (Suc len) = copy_down (m(lastd := m lasts)) (lastd - 1) (lasts - 1) len"

definition memmove :: "mem \<Rightarrow> vaddr_t \<Rightarrow> vaddr_t \<Rightarrow> u64 \<Rightarrow> mem \<times> vaddr_t" where
  "memmove m dest src len =
     ((if dest < src then copy_up m dest src (unat len)
       else let lasts = src + (len - 1); lastd = dest + (len - 1)
            in copy_down m lastd lasts (unat len)), dest)"

text \<open>The string instructions as loops on bytes: an upward copy, and an upward fill.\<close>

fun fill_up :: "mem \<Rightarrow> vaddr_t \<Rightarrow> u8 \<Rightarrow> nat \<Rightarrow> mem" where
  "fill_up m ptr c 0 = m"
| "fill_up m ptr c (Suc len) = fill_up (m(ptr := c)) (ptr + 1) c len"

lemma rep_movsb:
  "sr_mem (rep_prefix movsb s) = copy_up (sr_mem s) (sr_rdi s) (sr_rsi s) (unat (sr_rcx s))"
proof (induction "unat (sr_rcx s)" arbitrary: s)
  case 0
  then show ?case by (simp add: rep_prefix.simps unat_eq_0)
next
  case (Suc n)
  let ?s = "(movsb s)\<lparr>sr_rcx := sr_rcx s - 1\<rparr>"
  from Suc(2) have nz: "sr_rcx s \<noteq> 0" by auto
  have n: "unat (sr_rcx s - 1) = n" using Suc(2) unat_minus_one [OF nz] by simp
  have "sr_mem (rep_prefix movsb s) = sr_mem (rep_prefix movsb ?s)" using nz by (subst rep_prefix.simps) simp
  then show ?case using Suc(1) [of ?s] n by (simp add: Suc(2) [symmetric] movsb_def)
qed

lemma rep_stosb:
  "sr_mem (rep_prefix stosb s) = fill_up (sr_mem s) (sr_rdi s) (sr_al s) (unat (sr_rcx s))"
proof (induction "unat (sr_rcx s)" arbitrary: s)
  case 0
  then show ?case by (simp add: rep_prefix.simps unat_eq_0)
next
  case (Suc n)
  let ?s = "(stosb s)\<lparr>sr_rcx := sr_rcx s - 1\<rparr>"
  from Suc(2) have nz: "sr_rcx s \<noteq> 0" by auto
  have n: "unat (sr_rcx s - 1) = n" using Suc(2) unat_minus_one [OF nz] by simp
  have "sr_mem (rep_prefix stosb s) = sr_mem (rep_prefix stosb ?s)" using nz by (subst rep_prefix.simps) simp
  then show ?case using Suc(1) [of ?s] n by (simp add: Suc(2) [symmetric] stosb_def)
qed

lemma memcpy_eq: "memcpy m dest src len = (copy_up m dest src (unat len), dest)"
  by (simp add: memcpy_def rep_movsb)

lemma memset_eq: "memset m dest c len = (fill_up m dest (ucast c) (unat len), dest)"
  by (simp add: memset_def rep_stosb)

section \<open>String functions\<close>

text \<open>A little-endian load of \<open>n\<close> bytes; \<open>*longword_ptr\<close> is the one of 8 bytes.\<close>

fun load_le :: "mem \<Rightarrow> vaddr_t \<Rightarrow> nat \<Rightarrow> u64" where
  "load_le m p 0 = 0"
| "load_le m p (Suc n) = ucast (m p) + 256 * load_le m (p + 1) n"

definition himagic :: u64 where
  "himagic = push_bit 16 (push_bit 16 0x80808080) OR 0x80808080"

definition lomagic :: u64 where
  "lomagic = push_bit 16 (push_bit 16 0x01010101) OR 0x01010101"

text \<open>The first loop of \<open>strlen\<close>: \<open>Inl\<close> is its early return, \<open>Inr\<close> the aligned pointer.\<close>

fun strlen_align :: "nat \<Rightarrow> mem \<Rightarrow> vaddr_t \<Rightarrow> vaddr_t \<Rightarrow> (u64 + vaddr_t) exec" where
  "strlen_align 0 m str ptr = Inl OutOfFuel"
| "strlen_align (Suc fuel) m str ptr =
     (if ptr AND 7 \<noteq> 0
      then if m ptr = 0 then Inr (Inl (ptr - str)) else strlen_align fuel m str (ptr + 1)
      else Inr (Inr ptr))"

definition first_zero :: "mem \<Rightarrow> vaddr_t \<Rightarrow> u64 option" where
  "first_zero m cp = find (\<lambda>i. m (cp + i) = 0) [0, 1, 2, 3, 4, 5, 6, 7]"

fun strlen_words :: "nat \<Rightarrow> mem \<Rightarrow> vaddr_t \<Rightarrow> vaddr_t \<Rightarrow> u64 exec" where
  "strlen_words 0 m str longword_ptr = Inl OutOfFuel"
| "strlen_words (Suc fuel) m str longword_ptr =
     (let longword = load_le m longword_ptr 8; longword_ptr = longword_ptr + 8 in
      if (longword - lomagic) AND NOT longword AND himagic \<noteq> 0
      then let cp = longword_ptr - 8 in
           case first_zero m cp of
             Some i \<Rightarrow> Inr (cp - str + i)
           | None \<Rightarrow> strlen_words fuel m str longword_ptr
      else strlen_words fuel m str longword_ptr)"

definition strlen :: "nat \<Rightarrow> mem \<Rightarrow> vaddr_t \<Rightarrow> u64 exec" where
  "strlen fuel m str =
     bindE (strlen_align fuel m str str) (\<lambda>r.
       case r of Inl n \<Rightarrow> Inr n | Inr ptr \<Rightarrow> strlen_words fuel m str ptr)"

definition strcpy :: "nat \<Rightarrow> mem \<Rightarrow> vaddr_t \<Rightarrow> vaddr_t \<Rightarrow> (mem \<times> vaddr_t) exec" where
  "strcpy fuel m dest src = bindE (strlen fuel m src) (\<lambda>n. Inr (memcpy m dest src n))"

definition strcat :: "nat \<Rightarrow> mem \<Rightarrow> vaddr_t \<Rightarrow> vaddr_t \<Rightarrow> (mem \<times> vaddr_t) exec" where
  "strcat fuel m dest src =
     bindE (strlen fuel m dest) (\<lambda>n.
     bindE (strcpy fuel m (dest + n) src) (\<lambda>(m, _). Inr (m, dest)))"

text \<open>The allocation of \<open>strdup\<close> is commented out: \<open>ret\<close> is always null.\<close>

definition strdup :: "mem \<Rightarrow> vaddr_t \<Rightarrow> mem \<times> vaddr_t" where
  "strdup m str = (if str = nullptr then (m, nullptr) else let ret = nullptr in (m, ret))"

fun strcmp :: "nat \<Rightarrow> mem \<Rightarrow> vaddr_t \<Rightarrow> vaddr_t \<Rightarrow> int exec" where
  "strcmp 0 m str1 str2 = Inl OutOfFuel"
| "strcmp (Suc fuel) m str1 str2 =
     (if m str1 \<noteq> 0 \<and> m str1 = m str2 then strcmp fuel m (str1 + 1) (str2 + 1)
      else Inr (uint (m str1) - uint (m str2)))"

fun strncmp_loop :: "mem \<Rightarrow> vaddr_t \<Rightarrow> vaddr_t \<Rightarrow> nat \<Rightarrow> int" where
  "strncmp_loop m s1 s2 0 = 0"
| "strncmp_loop m s1 s2 (Suc n) =
     (let u1 = m s1; u2 = m s2 in
      if u1 \<noteq> u2 then uint u1 - uint u2
      else if u1 = 0 then 0
      else strncmp_loop m (s1 + 1) (s2 + 1) n)"

definition strncmp :: "mem \<Rightarrow> vaddr_t \<Rightarrow> vaddr_t \<Rightarrow> u64 \<Rightarrow> int" where
  "strncmp m s1 s2 n = strncmp_loop m s1 s2 (unat n)"

fun strchr :: "nat \<Rightarrow> mem \<Rightarrow> vaddr_t \<Rightarrow> u8 \<Rightarrow> vaddr_t exec" where
  "strchr 0 m s c = Inl OutOfFuel"
| "strchr (Suc fuel) m s c =
     (if m s \<noteq> c then (if m s = 0 then Inr nullptr else strchr fuel m (s + 1) c) else Inr s)"

fun strstr_loop :: "nat \<Rightarrow> mem \<Rightarrow> vaddr_t \<Rightarrow> vaddr_t \<Rightarrow> u64 \<Rightarrow> vaddr_t exec" where
  "strstr_loop 0 m p s2 len = Inl OutOfFuel"
| "strstr_loop (Suc fuel) m p s2 len =
     bindE (strchr (Suc fuel) m p (m s2)) (\<lambda>p.
       if p = nullptr then Inr nullptr
       else if strncmp m p s2 len = 0 then Inr p
       else strstr_loop fuel m (p + 1) s2 len)"

definition strstr :: "nat \<Rightarrow> mem \<Rightarrow> vaddr_t \<Rightarrow> vaddr_t \<Rightarrow> vaddr_t exec" where
  "strstr fuel m s1 s2 = bindE (strlen fuel m s2) (\<lambda>len. strstr_loop fuel m s1 s2 len)"

section \<open>The copies in closed form\<close>

definition in_range :: "vaddr_t \<Rightarrow> nat \<Rightarrow> vaddr_t \<Rightarrow> bool" where
  "in_range d n a \<longleftrightarrow> unat d \<le> unat a \<and> unat a < unat d + n"

definition copied :: "mem \<Rightarrow> vaddr_t \<Rightarrow> vaddr_t \<Rightarrow> nat \<Rightarrow> mem" where
  "copied m d s n = (\<lambda>a. if in_range d n a then m (a - d + s) else m a)"

lemma unat_Suc_no_wrap:
  fixes d :: u64
  assumes "unat d + 1 < 2 ^ 64"
  shows "unat (d + 1) = unat d + 1"
  using assms by (subst unat_plus_no_wrap) simp_all

lemma unat_offset:
  fixes d :: u64
  assumes "unat d + n < 2 ^ 64"
  shows "unat (d + of_nat n) = unat d + n"
  using assms by (subst unat_plus_no_wrap) (simp_all add: unat_of_nat)

lemma in_range_Suc:
  assumes "unat d + 1 < 2 ^ 64"
  shows "in_range d (Suc n) a \<longleftrightarrow> a = d \<or> in_range (d + 1) n a"
  using unat_Suc_no_wrap [OF assms] by (auto simp: in_range_def word_unat_eq_iff)

lemma in_range_none [simp]: "\<not> in_range d 0 a"
  by (simp add: in_range_def)

lemma in_range_one [simp]: "in_range d (Suc 0) a \<longleftrightarrow> a = d"
  by (auto simp: in_range_def word_unat_eq_iff)

lemma unat_moved:
  assumes "in_range d n a" and "unat s + n \<le> 2 ^ 64"
  shows "unat (a - d + s) = unat a - unat d + unat s"
proof -
  have "unat (a - d) = unat a - unat d" using assms(1) by (intro unat_minus_no_wrap) (simp add: in_range_def)
  then show ?thesis
    using assms by (subst unat_plus_no_wrap) (auto simp: in_range_def)
qed

lemma copy_up_copied:
  assumes "unat d < unat s \<or> unat s + n \<le> unat d" and "unat d + n \<le> 2 ^ 64" and "unat s + n \<le> 2 ^ 64"
  shows "copy_up m d s n = copied m d s n"
  using assms
proof (induction n arbitrary: m d s)
  case 0
  then show ?case by (simp add: copied_def)
next
  case (Suc n)
  show ?case
  proof (cases n)
    case 0
    then show ?thesis by (auto simp: copied_def fun_eq_iff)
  next
    case (Suc k)
    have s1: "unat (s + 1) = unat s + 1" by (rule unat_Suc_no_wrap) (use Suc.prems Suc in auto)
    have d1: "unat (d + 1) = unat d + 1" by (rule unat_Suc_no_wrap) (use Suc.prems Suc in auto)
    have IH: "copy_up (m(d := m s)) (d + 1) (s + 1) n = copied (m(d := m s)) (d + 1) (s + 1) n"
      by (rule Suc.IH) (use Suc.prems s1 d1 in auto)
    have src: "a - d + s \<noteq> d" if a: "in_range (d + 1) n a" for a
    proof
      assume eq: "a - d + s = d"
      have "in_range d (Suc n) a" using a d1 by (auto simp: in_range_def)
      from unat_moved [OF this Suc.prems(3)] have "unat d = unat a - unat d + unat s"
        unfolding eq .
      with a Suc.prems(1) d1 show False by (auto simp: in_range_def)
    qed
    have "in_range d (Suc n) a \<longleftrightarrow> a = d \<or> in_range (d + 1) n a" for a
      by (rule in_range_Suc) (use Suc.prems Suc in auto)
    moreover have "a - (d + 1) + (s + 1) = a - d + s" for a by simp
    ultimately have "copied (m(d := m s)) (d + 1) (s + 1) n a = copied m d s (Suc n) a" for a
      using src [of a] by (simp only: copied_def) auto
    then show ?thesis
      unfolding copy_up.simps(2) IH by (rule ext)
  qed
qed

lemma copy_down_copied:
  assumes "unat s \<le> unat d" and "unat d + n \<le> 2 ^ 64"
  shows "copy_down m (d + (of_nat n - 1)) (s + (of_nat n - 1)) n = copied m d s n"
  using assms
proof (induction n arbitrary: m)
  case 0
  then show ?case by (auto simp: copied_def in_range_def fun_eq_iff)
next
  case (Suc n)
  let ?dn = "d + of_nat n" and ?sn = "s + of_nat n"
  have un: "unat ?dn = unat d + n" "unat ?sn = unat s + n"
    using Suc.prems by (auto intro!: unat_offset)
  let ?m = "m(?dn := m ?sn)"
  have "copy_down ?m (d + (of_nat n - 1)) (s + (of_nat n - 1)) n = copied ?m d s n"
    by (rule Suc.IH) (use Suc.prems in auto)
  moreover have last: "in_range d (Suc n) a \<longleftrightarrow> a = ?dn \<or> in_range d n a" for a
    using un(1) by (auto simp: in_range_def word_unat_eq_iff)
  moreover have "a - d + s \<noteq> ?dn" if "in_range d n a" for a
  proof
    assume eq: "a - d + s = ?dn"
    have "unat (a - d + s) = unat a - unat d + unat s"
      by (rule unat_moved [OF that]) (use Suc.prems in auto)
    then have "unat d + n = unat a - unat d + unat s" unfolding eq un(1) .
    with that Suc.prems(1) show False by (auto simp: in_range_def)
  qed
  ultimately show ?case
    using un by (auto simp: copied_def fun_eq_iff in_range_def algebra_simps)
qed

lemma fill_up_closed:
  assumes "unat d + n \<le> 2 ^ 64"
  shows "fill_up m d c n = (\<lambda>a. if in_range d n a then c else m a)"
  using assms
proof (induction n arbitrary: m d)
  case 0
  then show ?case by simp
next
  case (Suc n)
  show ?case
  proof (cases n)
    case 0
    then show ?thesis by auto
  next
    case (Suc k)
    then have d1: "unat (d + 1) = unat d + 1" using Suc.prems by (intro unat_Suc_no_wrap) simp
    have "fill_up (m(d := c)) (d + 1) c n = (\<lambda>a. if in_range (d + 1) n a then c else (m(d := c)) a)"
      by (rule Suc.IH) (use d1 Suc.prems in simp)
    moreover have "in_range d (Suc n) a \<longleftrightarrow> a = d \<or> in_range (d + 1) n a" for a
      by (rule in_range_Suc) (use Suc.prems Suc in simp)
    ultimately show ?thesis
      unfolding fill_up.simps(2) by (auto simp: fun_eq_iff)
  qed
qed

lemma memmove_copied:
  assumes "unat dest + unat len \<le> 2 ^ 64" and "unat src + unat len \<le> 2 ^ 64"
  shows "memmove m dest src len = (copied m dest src (unat len), dest)"
proof (cases "dest < src")
  case True
  with copy_up_copied [of dest src "unat len" m] assms show ?thesis
    by (simp add: memmove_def word_less_nat_alt)
next
  case False
  with copy_down_copied [of src dest "unat len" m] assms show ?thesis
    by (simp add: memmove_def word_less_nat_alt Let_def)
qed

section \<open>Zero bytes of a word\<close>

text \<open>
  The value of a little-endian sequence of bytes, and the test of \<open>strlen\<close>: subtracting 1
  from every byte sets the top bit of the lowest zero byte, because no borrow reaches it.
\<close>

fun le_value :: "nat list \<Rightarrow> nat" where
  "le_value [] = 0"
| "le_value (b # bs) = b + 256 * le_value bs"

lemma le_value_append: "le_value (xs @ ys) = le_value xs + 256 ^ length xs * le_value ys"
  by (induction xs) (auto simp: algebra_simps)

lemma le_value_bound: "\<forall>b \<in> set xs. b < 256 \<Longrightarrow> le_value xs < 256 ^ length xs"
proof (induction xs)
  case (Cons b bs)
  then have "b < 256" "le_value bs + 1 \<le> 256 ^ length bs" by auto
  then have "256 * (le_value bs + 1) \<le> 256 * 256 ^ length bs" by (intro mult_le_mono2)
  with \<open>b < 256\<close> show ?case by simp
qed simp

lemma le_value_mono: "\<forall>b \<in> set xs. 1 \<le> b \<Longrightarrow> le_value (replicate (length xs) 1) \<le> le_value xs"
  by (induction xs) auto

lemma bit_of_difference:
  fixes w :: u64
  assumes low: "lb \<le> la" "la < 2 ^ n" and n: "n + 8 \<le> 64"
    and w: "uint w mod 2 ^ (n + 8) = (int la - int lb - 2 ^ n) mod 2 ^ (n + 8)"
  shows "bit w (n + 7)"
proof -
  have e: "(2::int) ^ (n + 8) = 256 * 2 ^ n" "(2::int) ^ (n + 7) = 128 * 2 ^ n" by (simp_all add: power_add)
  let ?v = "int la - int lb + 255 * 2 ^ n"
  have la: "int la < 2 ^ n" using low(2) by (metis of_nat_less_iff of_nat_numeral of_nat_power)
  have v: "0 \<le> ?v" "?v < 2 ^ (n + 8)" "128 * 2 ^ n \<le> ?v"
    using low(1) la zero_less_power [of "2 :: int" n] unfolding e by linarith+
  have "(int la - int lb - 2 ^ n) mod 2 ^ (n + 8) = (?v - 2 ^ (n + 8)) mod 2 ^ (n + 8)"
    unfolding e by (simp add: algebra_simps)
  also have "\<dots> = ?v" using v by simp
  finally have u: "take_bit (n + 8) (uint w) = ?v" using w by (simp add: take_bit_eq_mod)
  have "?v div 2 ^ (n + 7) = 1"
    by (rule int_div_pos_eq [where r = "?v - 2 ^ (n + 7)"]) (use v in \<open>auto simp: e\<close>)
  then have "bit ?v (n + 7)" by (simp add: bit_iff_odd)
  then have "bit (take_bit (n + 8) (uint w)) (n + 7)" unfolding u .
  then have "bit (uint w) (n + 7)" by (simp add: bit_take_bit_iff)
  then show ?thesis by (simp add: bit_uint_iff)
qed

lemma uint_eq_int_unat: "uint w = int (unat w)"
  by simp

definition mem_bytes :: "mem \<Rightarrow> vaddr_t \<Rightarrow> nat \<Rightarrow> nat list" where
  "mem_bytes m p n = map (\<lambda>i. unat (m (p + of_nat i))) [0..<n]"

lemma mem_bytes_Suc: "mem_bytes m p (Suc n) = unat (m p) # mem_bytes m (p + 1) n"
  unfolding mem_bytes_def map_upt_Suc by (simp add: algebra_simps)

lemma mem_bytes_length [simp]: "length (mem_bytes m p n) = n"
  by (simp add: mem_bytes_def)

lemma mem_bytes_small: "\<forall>b \<in> set (mem_bytes m p n). b < 256"
  using unsigned_less [where 'b = 8] by (auto simp: mem_bytes_def)

lemma load_le_value:
  "n \<le> 8 \<Longrightarrow> unat (load_le m p n) = le_value (mem_bytes m p n)"
proof (induction n arbitrary: p)
  case 0
  then show ?case by (simp add: mem_bytes_def)
next
  case (Suc n)
  let ?r = "load_le m (p + 1) n"
  have IH: "unat ?r = le_value (mem_bytes m (p + 1) n)" using Suc by simp
  have "(256::nat) ^ Suc n \<le> 256 ^ 8" using Suc.prems by (intro power_increasing) auto
  moreover have "le_value (mem_bytes m p (Suc n)) < 256 ^ Suc n"
    using le_value_bound [OF mem_bytes_small, of m p "Suc n"] by simp
  ultimately have b: "unat (m p) + 256 * unat ?r < 2 ^ 64"
    by (simp add: mem_bytes_Suc IH)
  have u: "unat (ucast (m p) :: u64) = unat (m p)" by (simp add: unat_ucast_widen)
  have "unat (256 * ?r) = 256 * unat ?r"
    using b by (simp add: unat_word_ariths)
  then have "unat (ucast (m p) + 256 * ?r) = unat (m p) + 256 * unat ?r"
    using b u by (subst unat_plus_no_wrap) simp_all
  then show ?case by (simp add: mem_bytes_Suc IH)
qed

lemma lomagic_value: "unat lomagic = le_value (replicate 8 1)"
proof -
  have "replicate 8 (1::nat) = [1, 1, 1, 1, 1, 1, 1, 1]" by (simp add: numeral_eq_Suc)
  then show ?thesis by (simp add: lomagic_def)
qed

lemma himagic_eq: "himagic = 0x8080808080808080"
  by (simp add: himagic_def)

lemma himagic_bits: "i < 8 \<Longrightarrow> bit himagic (8 * i + 7)"
proof -
  assume "i < 8"
  then have "i \<in> {0, 1, 2, 3, 4, 5, 6, 7}" by auto
  then show ?thesis by (auto simp: himagic_eq bit_numeral_rec)
qed

lemma split_at_zero:
  assumes "length bs = 8" and "i < 8" and "bs ! i = 0"
  shows "int (le_value bs) = int (le_value (take i bs)) + 2 ^ (8 * i + 8) * int (le_value (drop (Suc i) bs))"
proof -
  have "bs = take i bs @ 0 # drop (Suc i) bs" using assms id_take_nth_drop [of i bs] by simp
  then have "le_value bs = le_value (take i bs @ 0 # drop (Suc i) bs)" by (rule arg_cong)
  also have "\<dots> = le_value (take i bs) + 256 ^ i * (256 * le_value (drop (Suc i) bs))"
    using assms by (simp add: le_value_append)
  finally have "int (le_value bs) = int (le_value (take i bs)) + 256 ^ i * (256 * int (le_value (drop (Suc i) bs)))"
    by simp
  moreover have "(2::int) ^ (8 * i + 8) = 256 ^ i * 256" by (simp add: power_add power_mult)
  ultimately show ?thesis by simp
qed

lemma zero_byte_detected:
  assumes w: "unat w = le_value bs" and bs: "length bs = 8" "\<forall>b \<in> set bs. b < 256"
    and i: "i < 8" "bs ! i = 0" and pos: "\<forall>j < i. 1 \<le> bs ! j"
  shows "(w - lomagic) AND NOT w AND himagic \<noteq> 0"
proof -
  let ?n = "8 * i" and ?lo = "le_value (take i bs)" and ?R = "int (le_value (drop (Suc i) bs))"
  have uw: "uint w = int ?lo + 2 ^ (?n + 8) * ?R"
    using split_at_zero [OF bs(1) i] unfolding uint_eq_int_unat w .
  have pw: "(2::int) ^ ?n = 256 ^ i" "(2::int) ^ (?n + 8) = 256 ^ i * 256"
    by (simp_all add: power_add power_mult)
  let ?ones = "le_value (replicate i 1)" and ?Q = "int (le_value (replicate (7 - i) 1))"
  have "replicate 8 (1::nat) = replicate i 1 @ 1 # replicate (7 - i) 1"
    using i(1) by (simp flip: replicate_Suc replicate_add)
  then have "unat lomagic = ?ones + 256 ^ i * (1 + 256 * le_value (replicate (7 - i) 1))"
    by (simp add: lomagic_value le_value_append del: replicate.simps)
  then have ul: "uint lomagic = int ?ones + 2 ^ ?n + 2 ^ (?n + 8) * ?Q"
    unfolding uint_eq_int_unat pw by (simp add: algebra_simps)
  have small: "?lo < 2 ^ ?n"
    using le_value_bound [of "take i bs"] bs i(1) by (auto simp: power_mult dest: in_set_takeD)
  have ones: "?ones \<le> ?lo"
  proof -
    have "\<forall>b \<in> set (take i bs). 1 \<le> b" using pos bs(1) i(1) by (auto simp: in_set_conv_nth)
    from le_value_mono [OF this] show ?thesis using bs(1) i(1) by simp
  qed
  have n8: "?n + 8 \<le> 64" using i(1) by simp
  have "uint (w - lomagic) mod 2 ^ (?n + 8) = (uint w - uint lomagic) mod 2 ^ (?n + 8)"
  proof -
    have "(2::int) ^ (?n + 8) dvd 2 ^ 64" using n8 by (rule le_imp_power_dvd)
    then have "(uint w - uint lomagic) mod 2 ^ 64 mod 2 ^ (?n + 8) = (uint w - uint lomagic) mod 2 ^ (?n + 8)"
      by (rule mod_mod_cancel)
    then show ?thesis by (simp add: uint_word_ariths)
  qed
  also have "\<dots> = (int ?lo - int ?ones - 2 ^ ?n + 2 ^ (?n + 8) * (?R - ?Q)) mod 2 ^ (?n + 8)"
    unfolding uw ul by (simp add: algebra_simps)
  also have "\<dots> = (int ?lo - int ?ones - 2 ^ ?n) mod 2 ^ (?n + 8)" by simp
  finally have "bit (w - lomagic) (?n + 7)" using bit_of_difference [OF ones small n8] by blast
  moreover have "\<not> bit w (?n + 7)"
  proof -
    have "uint w div 2 ^ (?n + 7) = 2 * ?R"
    proof (rule int_div_pos_eq [where r = "int ?lo"])
      show "uint w = 2 ^ (?n + 7) * (2 * ?R) + int ?lo" unfolding uw by (simp add: power_add)
      have "int ?lo < 2 ^ ?n" using small by (metis of_nat_less_iff of_nat_numeral of_nat_power)
      also have "\<dots> \<le> (2::int) ^ (?n + 7)" by simp
      finally show "int ?lo < 2 ^ (?n + 7)" .
    qed simp
    then have "\<not> bit (uint w) (?n + 7)" by (simp add: bit_iff_odd)
    then show ?thesis using i(1) by (simp add: bit_uint_iff)
  qed
  ultimately have "bit ((w - lomagic) AND NOT w AND himagic) (?n + 7)"
    using himagic_bits [OF i(1)] i(1) by (simp add: bit_simps)
  then show ?thesis by (metis bit_0_eq bot_apply bot_bool_def)
qed

section \<open>Zero-terminated strings\<close>

definition cstr :: "mem \<Rightarrow> vaddr_t \<Rightarrow> nat \<Rightarrow> bool" where
  "cstr m str n \<longleftrightarrow> (\<forall>i < n. m (str + of_nat i) \<noteq> 0) \<and> m (str + of_nat n) = 0"

lemma cstr_end: "cstr m str n \<Longrightarrow> k \<le> n \<Longrightarrow> m (str + of_nat k) = 0 \<longleftrightarrow> k = n"
  by (auto simp: cstr_def le_less)

lemma first_zero_some:
  assumes "j < 8" and "\<forall>i < j. m (cp + of_nat i) \<noteq> 0" and "m (cp + of_nat j) = 0"
  shows "first_zero m cp = Some (of_nat j)"
proof -
  have "[0, 1, 2, 3, 4, 5, 6, 7 :: u64] = map of_nat [0..<8]" by (simp add: upt_rec)
  then show ?thesis
    using assms unfolding first_zero_def find_Some_iff by (intro exI [of _ j]) auto
qed

lemma first_zero_none:
  assumes "\<forall>i < 8. m (cp + of_nat i) \<noteq> 0"
  shows "first_zero m cp = None"
proof -
  have "[0, 1, 2, 3, 4, 5, 6, 7 :: u64] = map of_nat [0..<8]" by (simp add: upt_rec)
  then show ?thesis
    using assms unfolding first_zero_def find_None_iff by auto
qed

lemma word_test_hits:
  assumes "j < 8" and "\<forall>i < j. m (p + of_nat i) \<noteq> 0" and "m (p + of_nat j) = 0"
  shows "(load_le m p 8 - lomagic) AND NOT (load_le m p 8) AND himagic \<noteq> 0"
proof (rule zero_byte_detected [where bs = "mem_bytes m p 8" and i = j])
  show "unat (load_le m p 8) = le_value (mem_bytes m p 8)" by (rule load_le_value) simp
  show "\<forall>b \<in> set (mem_bytes m p 8). b < 256" by (rule mem_bytes_small)
  show "mem_bytes m p 8 ! j = 0" using assms by (simp add: mem_bytes_def)
  show "\<forall>i < j. 1 \<le> mem_bytes m p 8 ! i"
  proof (intro allI impI)
    fix i assume "i < j"
    then have "unat (m (p + of_nat i)) \<noteq> 0" using assms(2) by (simp add: unat_eq_0)
    then show "1 \<le> mem_bytes m p 8 ! i" using \<open>i < j\<close> assms(1) by (simp add: mem_bytes_def)
  qed
qed (use assms in simp_all)

lemma strlen_words_ok:
  assumes "cstr m str n" and "k \<le> n" and "n < k + 8 * fuel"
  shows "strlen_words fuel m str (str + of_nat k) = Inr (of_nat n)"
  using assms(2,3)
proof (induction fuel arbitrary: k)
  case (Suc fuel)
  let ?p = "str + of_nat k"
  have at: "m (?p + of_nat i) = m (str + of_nat (k + i))" for i by (simp add: algebra_simps)
  show ?case
  proof (cases "n < k + 8")
    case True
    let ?j = "n - k"
    have j: "?j < 8" "\<forall>i < ?j. m (?p + of_nat i) \<noteq> 0" "m (?p + of_nat ?j) = 0"
      using True Suc.prems(1) cstr_end [OF assms(1)] unfolding at by (auto simp del: of_nat_add)
    have "?p - str + of_nat ?j = of_nat n" using Suc.prems(1) by (simp add: of_nat_diff)
    then show ?thesis
      using word_test_hits [OF j] first_zero_some [OF j] by (simp add: Let_def)
  next
    case False
    then have "first_zero m ?p = None"
      using assms(1) by (intro first_zero_none) (auto simp: at cstr_def simp del: of_nat_add)
    moreover have "strlen_words fuel m str (str + of_nat (k + 8)) = Inr (of_nat n)"
      by (rule Suc.IH) (use False Suc.prems in auto)
    ultimately show ?thesis by (simp add: Let_def algebra_simps)
  qed
qed simp

lemma and_seven: "unat (p AND 7 :: u64) = unat p mod 8"
proof -
  have "p AND 7 = take_bit 3 p" by (simp add: take_bit_eq_mask mask_eq_exp_minus_1)
  then have "p AND 7 = p mod 8" by (simp add: take_bit_eq_mod)
  then show ?thesis by (simp add: unat_mod)
qed

lemma strlen_align_ok:
  assumes "cstr m str n" and "k \<le> n" and "(8 - unat (str + of_nat k) mod 8) mod 8 < fuel"
  shows "strlen_align fuel m str (str + of_nat k) = Inr (Inl (of_nat n)) \<or>
    (\<exists>k'. k \<le> k' \<and> k' \<le> n \<and> strlen_align fuel m str (str + of_nat k) = Inr (Inr (str + of_nat k')))"
  using assms(2,3)
proof (induction fuel arbitrary: k)
  case (Suc fuel)
  let ?p = "str + of_nat k"
  have z: "?p AND 7 = 0 \<longleftrightarrow> unat ?p mod 8 = 0" by (simp add: and_seven flip: unat_eq_0)
  show ?case
  proof (cases "?p AND 7 = 0 \<or> m ?p = 0")
    case True
    then show ?thesis using cstr_end [OF assms(1) Suc.prems(1)] Suc.prems(1) by auto
  next
    case False
    then have k: "Suc k \<le> n" using cstr_end [OF assms(1) Suc.prems(1)] Suc.prems(1) by auto
    have "unat (?p + 1) mod 8 = (unat ?p + 1) mod 8"
      by (simp add: unat_word_ariths mod_mod_cancel)
    moreover have "unat ?p mod 8 \<noteq> 0" using False z by auto
    moreover have "unat ?p mod 8 < 8" by simp
    ultimately have "(8 - unat (?p + 1) mod 8) mod 8 < fuel"
      using Suc.prems(2) by (auto simp: mod_Suc split: if_splits)
    moreover have "?p + 1 = str + of_nat (Suc k)" by simp
    ultimately show ?thesis
      using Suc.IH [OF k] False by (auto simp: algebra_simps) (metis Suc_leD)
  qed
qed simp

lemma strlen_ok:
  assumes "cstr m str n" and "8 \<le> fuel" and "n < 8 * fuel"
  shows "strlen fuel m str = Inr (of_nat n)"
proof -
  have "(8 - unat str mod 8) mod 8 < fuel" using assms(2) by (rule less_le_trans [rotated]) simp
  with strlen_align_ok [OF assms(1), of 0 fuel]
  consider "strlen_align fuel m str str = Inr (Inl (of_nat n))"
    | k where "k \<le> n" "strlen_align fuel m str str = Inr (Inr (str + of_nat k))" by auto
  then show ?thesis
  proof cases
    case (2 k)
    with strlen_words_ok [OF assms(1), of k fuel] assms(3) show ?thesis by (simp add: strlen_def)
  qed (simp add: strlen_def)
qed

section \<open>Comparisons and searches\<close>

lemma at_Suc: "p + 1 + of_nat i = (p :: u64) + of_nat (Suc i)"
  by simp

lemma memcmp_zero_iff: "memcmp_loop m a b n = 0 \<longleftrightarrow> (\<forall>i < n. m (a + of_nat i) = m (b + of_nat i))"
proof (induction n arbitrary: a b)
  case (Suc n)
  have "(\<forall>i < Suc n. m (a + of_nat i) = m (b + of_nat i)) \<longleftrightarrow>
      m a = m b \<and> (\<forall>i < n. m (a + 1 + of_nat i) = m (b + 1 + of_nat i))"
    unfolding at_Suc All_less_Suc2 by simp
  then show ?case using Suc.IH by (auto simp: word_uint_eq_iff)
qed simp

lemma memcmp_first_diff:
  assumes "k < n" and "\<forall>i < k. m (a + of_nat i) = m (b + of_nat i)" and "m (a + of_nat k) \<noteq> m (b + of_nat k)"
  shows "memcmp_loop m a b n = uint (m (a + of_nat k)) - uint (m (b + of_nat k))"
  using assms
proof (induction n arbitrary: a b k)
  case (Suc n)
  show ?case
  proof (cases k)
    case (Suc j)
    have "m a = m b" using Suc.prems(2) Suc by force
    moreover have "\<forall>i < j. m (a + 1 + of_nat i) = m (b + 1 + of_nat i)"
      unfolding at_Suc using Suc.prems(2) Suc by blast
    ultimately show ?thesis
      using Suc.IH [of j "a + 1" "b + 1"] Suc.prems Suc unfolding at_Suc by simp
  qed (use Suc.prems in simp)
qed simp

lemma strncmp_zero_iff:
  assumes "\<forall>i < n. m (b + of_nat i) \<noteq> 0"
  shows "strncmp_loop m a b n = 0 \<longleftrightarrow> (\<forall>i < n. m (a + of_nat i) = m (b + of_nat i))"
  using assms
proof (induction n arbitrary: a b)
  case (Suc n)
  have "(\<forall>i < Suc n. m (a + of_nat i) = m (b + of_nat i)) \<longleftrightarrow>
      m a = m b \<and> (\<forall>i < n. m (a + 1 + of_nat i) = m (b + 1 + of_nat i))"
    unfolding at_Suc All_less_Suc2 by simp
  moreover have "\<forall>i < n. m (b + 1 + of_nat i) \<noteq> 0" "m b \<noteq> 0"
    using Suc.prems unfolding at_Suc All_less_Suc2 by auto
  ultimately show ?case using Suc.IH [of "b + 1" "a + 1"] by (auto simp: word_uint_eq_iff Let_def)
qed simp

lemma strcmp_first_diff:
  assumes "\<forall>i < k. m (a + of_nat i) = m (b + of_nat i) \<and> m (a + of_nat i) \<noteq> 0"
    and "m (a + of_nat k) = 0 \<or> m (a + of_nat k) \<noteq> m (b + of_nat k)" and "k < fuel"
  shows "strcmp fuel m a b = Inr (uint (m (a + of_nat k)) - uint (m (b + of_nat k)))"
  using assms
proof (induction fuel arbitrary: a b k)
  case (Suc fuel)
  show ?case
  proof (cases k)
    case (Suc j)
    have "m a = m b" "m a \<noteq> 0" using Suc.prems(1) Suc by force+
    moreover have "strcmp fuel m (a + 1) (b + 1) = Inr (uint (m (a + 1 + of_nat j)) - uint (m (b + 1 + of_nat j)))"
      by (rule Suc.IH; (unfold at_Suc)?) (use Suc.prems Suc in \<open>auto simp del: of_nat_Suc\<close>)
    ultimately show ?thesis using Suc unfolding at_Suc by simp
  qed (use Suc.prems in auto)
qed simp

lemma strchr_hit:
  assumes "\<forall>i < k. m (s + of_nat i) \<noteq> c \<and> m (s + of_nat i) \<noteq> 0" and "m (s + of_nat k) = c" and "k < fuel"
  shows "strchr fuel m s c = Inr (s + of_nat k)"
  using assms
proof (induction fuel arbitrary: s k)
  case (Suc fuel)
  show ?case
  proof (cases k)
    case (Suc j)
    have "m s \<noteq> c" "m s \<noteq> 0" using Suc.prems(1) Suc by force+
    moreover have "\<forall>i < j. m (s + 1 + of_nat i) \<noteq> c \<and> m (s + 1 + of_nat i) \<noteq> 0"
      unfolding at_Suc using Suc.prems(1) Suc by blast
    ultimately show ?thesis
      using Suc.IH [of j "s + 1"] Suc.prems Suc unfolding at_Suc by simp
  qed (use Suc.prems in simp)
qed simp

lemma strchr_miss:
  assumes "\<forall>i < n. m (s + of_nat i) \<noteq> c \<and> m (s + of_nat i) \<noteq> 0" and "m (s + of_nat n) = 0" and "c \<noteq> 0"
    and "n < fuel"
  shows "strchr fuel m s c = Inr nullptr"
  using assms
proof (induction fuel arbitrary: s n)
  case (Suc fuel)
  show ?case
  proof (cases n)
    case (Suc j)
    have "m s \<noteq> c" "m s \<noteq> 0" using Suc.prems(1) Suc by force+
    moreover have "\<forall>i < j. m (s + 1 + of_nat i) \<noteq> c \<and> m (s + 1 + of_nat i) \<noteq> 0"
      unfolding at_Suc using Suc.prems(1) Suc by blast
    ultimately show ?thesis
      using Suc.IH [of j "s + 1"] Suc.prems Suc unfolding at_Suc by simp
  qed (use Suc.prems in simp)
qed simp

text \<open>An occurrence of the needle \<open>s2\<close>, of length \<open>len\<close>, at offset \<open>k\<close> of \<open>s1\<close>.\<close>

definition occurs_at :: "mem \<Rightarrow> vaddr_t \<Rightarrow> vaddr_t \<Rightarrow> nat \<Rightarrow> nat \<Rightarrow> bool" where
  "occurs_at m s1 s2 len k \<longleftrightarrow> (\<forall>i < len. m (s1 + of_nat k + of_nat i) = m (s2 + of_nat i))"

lemma offset_not_null:
  fixes s :: u64
  assumes "s \<noteq> 0" and "unat s + n < 2 ^ 64" and "k \<le> n"
  shows "s + of_nat k \<noteq> 0"
proof -
  have "unat (s + of_nat k) = unat s + k" using assms by (intro unat_offset) simp
  moreover have "0 < unat s" using assms(1) by (simp add: unat_gt_0)
  ultimately show ?thesis by (metis add_is_0 unat_0 less_not_refl)
qed

text \<open>One step of the search: the next position that has the first byte of the needle.\<close>

lemma strchr_next:
  assumes "cstr m s n" and "j \<le> n" and "c \<noteq> 0" and "n - j < fuel"
  shows "(\<exists>k. j \<le> k \<and> k < n \<and> m (s + of_nat k) = c \<and> (\<forall>i. j \<le> i \<longrightarrow> i < k \<longrightarrow> m (s + of_nat i) \<noteq> c) \<and>
      strchr fuel m (s + of_nat j) c = Inr (s + of_nat k)) \<or>
    ((\<forall>i. j \<le> i \<longrightarrow> i < n \<longrightarrow> m (s + of_nat i) \<noteq> c) \<and> strchr fuel m (s + of_nat j) c = Inr nullptr)"
proof (cases "\<exists>k. j \<le> k \<and> k < n \<and> m (s + of_nat k) = c")
  case True
  define k where "k = (LEAST k. j \<le> k \<and> k < n \<and> m (s + of_nat k) = c)"
  have k: "j \<le> k" "k < n" "m (s + of_nat k) = c" using LeastI_ex [OF True] by (auto simp: k_def)
  have before: "m (s + of_nat i) \<noteq> c" if "j \<le> i" "i < k" for i
    using not_less_Least [of i "\<lambda>k. j \<le> k \<and> k < n \<and> m (s + of_nat k) = c"] that k(2) unfolding k_def by auto
  have shift: "s + of_nat j + of_nat i = s + of_nat (j + i)" for i by (simp add: algebra_simps)
  have "strchr fuel m (s + of_nat j) c = Inr (s + of_nat j + of_nat (k - j))"
    by (rule strchr_hit; (unfold shift)?)
      (use k before assms in \<open>auto simp: cstr_def simp del: of_nat_add\<close>)
  then show ?thesis using k before unfolding shift by (auto simp del: of_nat_add)
next
  case False
  have shift: "s + of_nat j + of_nat i = s + of_nat (j + i)" for i by (simp add: algebra_simps)
  have "strchr fuel m (s + of_nat j) c = Inr nullptr"
    by (rule strchr_miss [where n = "n - j"]; (unfold shift)?)
      (use False assms in \<open>auto simp: cstr_def simp del: of_nat_add\<close>)
  with False show ?thesis by blast
qed

lemma strncmp_needle:
  assumes "cstr m s2 len" and "len < 2 ^ 64"
  shows "strncmp m (s1 + of_nat k) s2 (of_nat len) = 0 \<longleftrightarrow> occurs_at m s1 s2 len k"
proof -
  have "unat (of_nat len :: u64) = len" using assms(2) by (simp add: unat_of_nat)
  then show ?thesis
    using strncmp_zero_iff [of len m s2 "s1 + of_nat k"] assms(1)
    by (simp add: strncmp_def occurs_at_def cstr_def)
qed

lemma strstr_loop_first:
  assumes s1: "cstr m s1 n" "s1 \<noteq> nullptr" "unat s1 + n < 2 ^ 64" and s2: "cstr m s2 len" "0 < len" "len < 2 ^ 64"
    and "k < n" and "occurs_at m s1 s2 len k" and "\<forall>i < k. \<not> occurs_at m s1 s2 len i"
    and "j \<le> k" and "n - j < fuel"
  shows "strstr_loop fuel m (s1 + of_nat j) s2 (of_nat len) = Inr (s1 + of_nat k)"
  using assms(10,11)
proof (induction fuel arbitrary: j)
  case (Suc fuel)
  have c: "m s2 \<noteq> 0" using s2(1,2) by (force simp: cstr_def)
  have hit: "m (s1 + of_nat k) = m s2" using assms(8) s2(2) by (force simp: occurs_at_def)
  from strchr_next [OF s1(1) _ c Suc.prems(2)] Suc.prems(1) assms(7) hit
  obtain k0 where k0: "j \<le> k0" "k0 < n" "strchr (Suc fuel) m (s1 + of_nat j) (m s2) = Inr (s1 + of_nat k0)"
    "\<forall>i. j \<le> i \<longrightarrow> i < k0 \<longrightarrow> m (s1 + of_nat i) \<noteq> m s2" by fastforce
  have le: "k0 \<le> k" using k0(4) hit Suc.prems(1) by (meson not_le)
  have nn: "s1 + of_nat k0 \<noteq> 0" by (rule offset_not_null [OF s1(2,3)]) (use k0(2) in simp)
  show ?case
  proof (cases "k0 = k")
    case True
    then show ?thesis using k0(3) nn strncmp_needle [OF s2(1,3), of s1 k] assms(8) by simp
  next
    case False
    with le assms(9) have "\<not> occurs_at m s1 s2 len k0" by simp
    moreover have "strstr_loop fuel m (s1 + of_nat (Suc k0)) s2 (of_nat len) = Inr (s1 + of_nat k)"
      by (rule Suc.IH) (use False le k0 Suc.prems(2) in auto)
    ultimately show ?thesis
      using k0(3) nn strncmp_needle [OF s2(1,3), of s1 k0] by (simp add: algebra_simps)
  qed
qed simp

lemma strstr_loop_none:
  assumes s1: "cstr m s1 n" "s1 \<noteq> nullptr" "unat s1 + n < 2 ^ 64" and s2: "cstr m s2 len" "0 < len" "len < 2 ^ 64"
    and "\<forall>i < n. \<not> occurs_at m s1 s2 len i" and "j \<le> n" and "n - j < fuel"
  shows "strstr_loop fuel m (s1 + of_nat j) s2 (of_nat len) = Inr nullptr"
  using assms(8,9)
proof (induction fuel arbitrary: j)
  case (Suc fuel)
  have c: "m s2 \<noteq> 0" using s2(1,2) by (force simp: cstr_def)
  from strchr_next [OF s1(1) Suc.prems(1) c Suc.prems(2)]
  consider k0 where "j \<le> k0" "k0 < n" "strchr (Suc fuel) m (s1 + of_nat j) (m s2) = Inr (s1 + of_nat k0)"
    | "strchr (Suc fuel) m (s1 + of_nat j) (m s2) = Inr nullptr" by blast
  then show ?case
  proof cases
    case (1 k0)
    have nn: "s1 + of_nat k0 \<noteq> 0" by (rule offset_not_null [OF s1(2,3)]) (use 1 in simp)
    have "strstr_loop fuel m (s1 + of_nat (Suc k0)) s2 (of_nat len) = Inr nullptr"
      by (rule Suc.IH) (use 1 Suc.prems(2) in auto)
    then show ?thesis
      using 1 nn strncmp_needle [OF s2(1,3), of s1 k0] assms(7) by (simp add: algebra_simps)
  qed simp
qed simp

section \<open>Properties\<close>

text \<open>
  C33. \<open>strlen\<close>, which reads eight bytes at a time once the pointer is aligned and tests them
  with one subtraction and two masks, returns the distance to the first zero byte for every
  string at every alignment, and terminates within one word read for every eight bytes.
\<close>

theorem strlen_correct:
  assumes "\<forall>i < n. m (str + of_nat i) \<noteq> 0" and "m (str + of_nat n) = 0" and "8 \<le> fuel" and "n < 8 * fuel"
  shows "strlen fuel m str = Inr (of_nat n)"
  using assms by (intro strlen_ok) (simp_all add: cstr_def)

theorem strlen_correct_witness: "strlen 8 ((\<lambda>_. 0)(3 := 72, 4 := 105)) 3 = Inr 2"
  using strlen_correct [of 2 "(\<lambda>_. 0)(3 := 72, 4 := 105)" 3 8] by (simp add: less_2_cases_iff)

text \<open>
  C34. \<open>memmove\<close> copies correctly whether or not the two ranges overlap: afterwards every byte
  of the destination is the byte the source had before the call, every other byte of memory
  is unchanged, and the destination pointer is returned. \<open>memset\<close>, the instruction \<open>rep stosb\<close>,
  fills its range, and nothing else, with the low byte of its argument. The ranges do not reach
  beyond the end of the address space.
\<close>

theorem memmove_overlap_safe:
  assumes "unat dest + unat len \<le> 2 ^ 64" and "unat src + unat len \<le> 2 ^ 64"
  shows "memmove m dest src len =
      ((\<lambda>a. if unat dest \<le> unat a \<and> unat a < unat dest + unat len then m (a - dest + src) else m a), dest) \<and>
    memset m dest c len =
      ((\<lambda>a. if unat dest \<le> unat a \<and> unat a < unat dest + unat len then ucast c else m a), dest)"
  using memmove_copied [OF assms, of m] fill_up_closed [OF assms(1), of m "ucast c"]
  by (simp add: copied_def in_range_def memset_eq)

theorem memmove_overlap_safe_witness:
  "fst (memmove (\<lambda>a. ucast a) 10 8 4) 12 = 10 \<and> fst (memset (\<lambda>a. ucast a) 10 0x1FF 4) 13 = 255"
  using memmove_overlap_safe [of 10 4 8 "\<lambda>a. ucast a" "0x1FF"] by simp

text \<open>
  The comparison functions: \<open>memcmp\<close> is 0 exactly when the two ranges agree and otherwise
  the difference of the first two bytes that differ; \<open>strcmp\<close> is the difference at the first
  position where the strings differ or the first one ends; \<open>strncmp\<close> against a string with
  at least \<open>n\<close> bytes is 0 exactly when the \<open>n\<close> bytes agree.
\<close>

theorem comparisons_correct:
  assumes "\<forall>i < k. m (a + of_nat i) = m (b + of_nat i) \<and> m (a + of_nat i) \<noteq> 0"
    and "m (a + of_nat k) = 0 \<or> m (a + of_nat k) \<noteq> m (b + of_nat k)" and "k < fuel" and "k < unat len"
    and "\<forall>i < unat len. m (b + of_nat i) \<noteq> 0"
  shows "strcmp fuel m a b = Inr (uint (m (a + of_nat k)) - uint (m (b + of_nat k))) \<and>
    (memcmp m a b len = 0 \<longleftrightarrow> (\<forall>i < unat len. m (a + of_nat i) = m (b + of_nat i))) \<and>
    memcmp m a b len = uint (m (a + of_nat k)) - uint (m (b + of_nat k)) \<and>
    (strncmp m a b len = 0 \<longleftrightarrow> (\<forall>i < unat len. m (a + of_nat i) = m (b + of_nat i)))"
proof -
  have "m (a + of_nat k) \<noteq> m (b + of_nat k)" using assms(2,4,5) by auto
  then show ?thesis
    using strcmp_first_diff [OF assms(1-3)] memcmp_zero_iff [of m a b "unat len"]
      memcmp_first_diff [OF assms(4), of m a b] strncmp_zero_iff [OF assms(5), of a] assms(1)
    by (simp add: memcmp_def strncmp_def)
qed

theorem comparisons_correct_witness:
  "strcmp 1 ((\<lambda>_. 65)(100 := 66)) 100 200 = Inr 1 \<and> memcmp ((\<lambda>_. 65)(100 := 66)) 100 200 2 = 1 \<and>
   strncmp ((\<lambda>_. 65)(100 := 66)) 100 200 2 \<noteq> 0"
  using comparisons_correct [of 0 "(\<lambda>_. 65)(100 := 66)" 100 200 1 2] by (auto simp: less_2_cases_iff)

text \<open>
  C35. \<open>strstr\<close> with a needle that is not empty returns the address of its first occurrence in
  the haystack, and null when there is none; it always terminates. The haystack is a string
  at a non-null address that does not wrap around.
\<close>

theorem strstr_first_occurrence:
  assumes "cstr m s1 n" and "s1 \<noteq> nullptr" and "unat s1 + n < 2 ^ 64"
    and "cstr m s2 len" and "0 < len" and "len < 2 ^ 64" and "8 \<le> fuel" and "len < 8 * fuel" and "n < fuel"
  shows "(\<forall>k < n. occurs_at m s1 s2 len k \<longrightarrow> (\<forall>i < k. \<not> occurs_at m s1 s2 len i) \<longrightarrow>
      strstr fuel m s1 s2 = Inr (s1 + of_nat k)) \<and>
    ((\<forall>k < n. \<not> occurs_at m s1 s2 len k) \<longrightarrow> strstr fuel m s1 s2 = Inr nullptr)"
proof -
  have "strlen fuel m s2 = Inr (of_nat len)" by (rule strlen_ok [OF assms(4,7,8)])
  then show ?thesis
    using strstr_loop_first [OF assms(1-6), of _ 0 fuel] strstr_loop_none [OF assms(1-6), of 0 fuel] assms(9)
    by (simp add: strstr_def)
qed

theorem strstr_first_occurrence_witness:
  "strstr 8 ((\<lambda>_. 0)(16 := 65, 17 := 66, 32 := 66)) 16 32 = Inr 17"
proof -
  let ?m = "((\<lambda>_. 0)(16 := 65, 17 := 66, 32 := 66)) :: mem"
  have s: "cstr ?m 16 2" "cstr ?m 32 1"
    by (auto simp: cstr_def less_2_cases_iff)
  have occ: "occurs_at ?m 16 32 1 1" "\<not> occurs_at ?m 16 32 1 0" by (simp_all add: occurs_at_def)
  have "\<forall>k < 2. occurs_at ?m 16 32 1 k \<longrightarrow> (\<forall>i < k. \<not> occurs_at ?m 16 32 1 i) \<longrightarrow>
      strstr 8 ?m 16 32 = Inr (16 + of_nat k)"
    using strstr_first_occurrence [OF s(1) _ _ s(2), of 8] by simp
  then have "strstr 8 ?m 16 32 = Inr (16 + of_nat 1)" using occ by (metis less_one one_less_numeral_iff semiring_norm(76))
  then show ?thesis by simp
qed

text \<open>
  \<open>strcpy\<close> copies the characters of a string but not its terminator: the byte after the
  copy keeps its old value, so the destination is a zero-terminated string only if that byte
  happened to be 0. \<open>strdup\<close> returns null for every string.
\<close>

theorem strcpy_omits_terminator:
  assumes "cstr m src n" and "8 \<le> fuel" and "n < 8 * fuel" and "unat dest + n < 2 ^ 64" and "unat src + n < 2 ^ 64"
    and "unat dest + n \<le> unat src \<or> unat src + n \<le> unat dest"
  shows "\<exists>m'. strcpy fuel m dest src = Inr (m', dest) \<and> m' = copied m dest src n \<and>
    m' (dest + of_nat n) = m (dest + of_nat n) \<and> snd (strdup m src) = nullptr"
proof -
  have n: "unat (of_nat n :: u64) = n" using assms(4) by (simp add: unat_of_nat)
  have up: "copy_up m dest src n = copied m dest src n"
  proof (cases "n = 0")
    case False
    then show ?thesis by (intro copy_up_copied) (use assms in auto)
  qed (simp add: copied_def)
  have "copied m dest src n (dest + of_nat n) = m (dest + of_nat n)"
    using unat_offset [OF assms(4)] by (simp add: copied_def in_range_def)
  then show ?thesis
    using up strlen_ok [OF assms(1-3)] n by (simp add: strcpy_def memcpy_eq strdup_def Let_def)
qed

theorem strcpy_omits_terminator_witness:
  "\<exists>m'. strcpy 8 ((\<lambda>_. 7)(16 := 65, 17 := 0)) 64 16 = Inr (m', 64) \<and> m' (64 + of_nat 1) = 7"
proof -
  have "cstr (((\<lambda>_. 7)(16 := 65, 17 := 0)) :: mem) 16 1" by (auto simp: cstr_def)
  from strcpy_omits_terminator [OF this, of 8 64] show ?thesis by auto
qed

end
