(* ===== verification/Ebl_Stdio.thy ===== *)
theory Ebl_Stdio
  imports Ebl_String
begin

text \<open>
  \<open>lib/ebl/stdio.cc\<close> and the console of \<open>platform/pc/console.cc\<close>: the number formatter \<open>num\<close>,
  the format interpreter \<open>ssprintf\<close>, the line-buffered streams and the printing functions.

  A format string is the list of its bytes before the terminator, and reading it at its end
  gives 0, as in the code. The variable arguments are the list of the 64-bit slots of the
  x86-64 calling convention: \<open>va_arg\<close> of a narrower type reads the low bits of a slot. A
  character is a byte; the output function \<open>g\<close> acts on \<open>io\<close>, the state of the output: the
  memory and the buffer pointer of \<open>sprintf\<close>, the two stream buffers and what the serial port
  has sent. \<open>LOG_ENABLE\<close> and \<open>LOG_ALL_OUTPUT\<close> are not defined.
\<close>

section \<open>State and constants\<close>

record io =
  io_mem :: mem
  io_buf :: vaddr_t
  io_out :: "u8 list"
  io_log :: "u8 list"
  io_com1 :: "u8 list"

type_synonym putter = "u8 \<Rightarrow> io \<Rightarrow> io exec"

definition SIGNED :: u8 where "SIGNED = 1"
definition ZEROPAD :: u8 where "ZEROPAD = 2"
definition FPLUS :: u8 where "FPLUS = 4"
definition SPLUS :: u8 where "SPLUS = 8"
definition PREFIX :: u8 where "PREFIX = 16"
definition SMALL :: u8 where "SMALL = 32"
definition LEFT :: u8 where "LEFT = 64"

definition flag_on :: "u8 \<Rightarrow> u8 \<Rightarrow> bool" where
  "flag_on flags x \<longleftrightarrow> flags AND x \<noteq> 0"

definition is_digit :: "u8 \<Rightarrow> bool" where
  "is_digit c \<longleftrightarrow> 48 \<le> c \<and> c \<le> 57"

section \<open>Numbers\<close>

text \<open>\<open>parse_num\<close> accumulates in an \<open>int\<close>, whose overflow is undefined.\<close>

fun parse_num_loop :: "u8 list \<Rightarrow> int \<Rightarrow> (u8 list \<times> int) exec" where
  "parse_num_loop [] num = Inr ([], num)"
| "parse_num_loop (c # fmt) num =
     (if is_digit c
      then guardE (num * 10 + uint c \<le> 2147483647) UndefinedBehaviour
             (parse_num_loop fmt (num * 10 + uint c - 48))
      else Inr (c # fmt, num))"

definition parse_num :: "u8 list \<Rightarrow> (u8 list \<times> int) exec" where
  "parse_num fmt = parse_num_loop fmt 0"

text \<open>
  The pair of the output state and the number of characters written. The counter \<open>written\<close> is
  an \<open>int\<close>: \<open>written += n\<close> is undefined when the sum exceeds \<open>INT_MAX\<close>.
\<close>

definition add_written :: "int \<Rightarrow> io \<times> int \<Rightarrow> (io \<times> int) exec" where
  "add_written k st =
     guardE (k + snd st \<le> 2147483647) UndefinedBehaviour (Inr (fst st, k + snd st))"

definition f_put :: "putter \<Rightarrow> u8 \<Rightarrow> io \<times> int \<Rightarrow> (io \<times> int) exec" where
  "f_put g c st = bindE (g c (fst st)) (\<lambda>s. add_written (snd st) (s, 1))"

fun put_all :: "putter \<Rightarrow> u8 list \<Rightarrow> io \<times> int \<Rightarrow> (io \<times> int) exec" where
  "put_all g [] st = Inr st"
| "put_all g (c # cs) st = bindE (f_put g c st) (put_all g cs)"

text \<open>
  \<open>while(w-- > 0)\<close>: the body runs \<open>w\<close> times, and \<open>w\<close> ends below 0; the decrement of the
  smallest \<open>int\<close> is undefined.
\<close>

fun pad_loop :: "putter \<Rightarrow> u8 \<Rightarrow> nat \<Rightarrow> io \<times> int \<Rightarrow> (io \<times> int) exec" where
  "pad_loop g c 0 st = Inr st"
| "pad_loop g c (Suc n) st = bindE (f_put g c st) (pad_loop g c n)"

definition pad :: "putter \<Rightarrow> u8 \<Rightarrow> int \<Rightarrow> io \<times> int \<Rightarrow> ((io \<times> int) \<times> int) exec" where
  "pad g c w st = guardE (-2147483648 < w) UndefinedBehaviour
     (bindE (pad_loop g c (nat w) st) (\<lambda>st. Inr (st, min w 0 - 1)))"

definition digit_char :: "bool \<Rightarrow> u64 \<Rightarrow> u8" where
  "digit_char small d =
     (if d < 10 then 48 + ucast d else if small then 97 + ucast (d - 10) else 65 + ucast (d - 10))"

text \<open>
  The base conversion: the digits in the order in which they are stored, least significant
  first, into an array that still has room for the given number of characters.
\<close>

fun num_digits :: "nat \<Rightarrow> bool \<Rightarrow> u64 \<Rightarrow> u64 \<Rightarrow> u8 list exec" where
  "num_digits 0 small base dividend = (if 0 < dividend then Inl OutOfBounds else Inr [])"
| "num_digits (Suc room) small base dividend =
     (if 0 < dividend
      then guardE (base \<noteq> 0) DivideByZero
             (bindE (num_digits room small base (dividend div base))
                (\<lambda>str. Inr (digit_char small (dividend mod base) # str)))
      else Inr [])"

text \<open>
  \<open>num\<close> counts its characters from 0. The parameters \<open>width\<close> and \<open>percision\<close> are values of
  type \<open>int\<close>; \<open>-num\<close> of the smallest \<open>long long\<close> and \<open>width - w\<close> below \<open>INT_MIN\<close> are undefined.
\<close>

definition num_fmt ::
  "putter \<Rightarrow> u64 \<Rightarrow> u64 \<Rightarrow> u8 \<Rightarrow> int \<Rightarrow> int \<Rightarrow> io \<Rightarrow> (io \<times> int) exec" where
  "num_fmt g n base flags width percision s =
     (let negative = n <s 0;
          p = (if percision = -1 then 0 else percision)
      in
      guardE (\<not> (negative \<and> flag_on flags SIGNED \<and> n = 0x8000000000000000)) UndefinedBehaviour
      (let dividend = (if negative \<and> flag_on flags SIGNED then - n else n) in
      bindE (num_digits 23 (flag_on flags SMALL) base dividend) (\<lambda>str.
      guardE (length str < 23) OutOfBounds
      (let str = (if n = 0 then [48] else str);
           w = (if flag_on flags PREFIX \<and> base = 16 then 2
                else if flag_on flags PREFIX \<and> base = 8 then 1 else 0);
           w = (if (flag_on flags SIGNED \<and> negative) \<or> (flag_on flags SIGNED \<and> flag_on flags FPLUS) \<or>
                   (flag_on flags SIGNED \<and> flag_on flags SPLUS) then w + 1 else w);
           w = int (length str) + w
       in
       guardE (-2147483648 \<le> width - w) UndefinedBehaviour
       (let w = (if width - w > 0 then width - w else 0);
           sign = (if negative \<and> flag_on flags SIGNED then 45 else 0);
           sign = (if \<not> negative \<and> flag_on flags FPLUS then 43 else sign);
           sign = (if \<not> negative \<and> flag_on flags SPLUS then 32 else sign)
       in
       bindE (if \<not> flag_on flags ZEROPAD \<and> \<not> flag_on flags LEFT then pad g 32 w (s, 0) else Inr ((s, 0), w)) (\<lambda>(st, w).
       bindE (if sign \<noteq> 0 then f_put g sign st else Inr st) (\<lambda>st.
       bindE (if flag_on flags PREFIX \<and> base = 16
              then bindE (f_put g 48 st) (f_put g (if flag_on flags SMALL then 120 else 88))
              else if flag_on flags PREFIX \<and> base = 8 then f_put g 48 st
              else Inr st) (\<lambda>st.
       bindE (pad g 48 p st) (\<lambda>(st, _).
       bindE (if flag_on flags ZEROPAD then pad g 48 w st else Inr (st, w)) (\<lambda>(st, w).
       bindE (put_all g (rev str) st) (\<lambda>st.
       bindE (if \<not> flag_on flags ZEROPAD \<and> flag_on flags LEFT then pad g 32 w st else Inr (st, w)) (\<lambda>(st, _).
       Inr st))))))))))))"

section \<open>Format strings\<close>

definition peek :: "u8 list \<Rightarrow> u8" where
  "peek fmt = (case fmt of [] \<Rightarrow> 0 | c # _ \<Rightarrow> c)"

fun va_slot :: "u64 list \<Rightarrow> (u64 \<times> u64 list) exec" where
  "va_slot [] = Inl UndefinedBehaviour"
| "va_slot (a # args) = Inr (a, args)"

definition va_int :: "u64 list \<Rightarrow> (int \<times> u64 list) exec" where
  "va_int args = bindE (va_slot args) (\<lambda>(a, args). Inr (sint (ucast a :: u32), args))"

fun parse_flags :: "u8 list \<Rightarrow> u8 \<Rightarrow> u8 list \<times> u8" where
  "parse_flags [] flags = ([], flags)"
| "parse_flags (c # fmt) flags =
     (if c = 48 then parse_flags fmt (flags OR ZEROPAD)
      else if c = 32 then parse_flags fmt (flags OR SPLUS)
      else if c = 43 then parse_flags fmt (flags OR FPLUS)
      else if c = 35 then parse_flags fmt (flags OR PREFIX)
      else if c = 45 then parse_flags fmt (flags OR LEFT)
      else (c # fmt, flags))"

definition parse_width ::
  "u8 list \<Rightarrow> u8 \<Rightarrow> u64 list \<Rightarrow> (u8 list \<times> int \<times> u8 \<times> u64 list) exec" where
  "parse_width fmt flags args =
     (if peek fmt = 42
      then bindE (va_int args) (\<lambda>(width, args).
             if width < 0
             then guardE (width \<noteq> -2147483648) UndefinedBehaviour
                    (Inr (tl fmt, - width, flags OR LEFT, args))
             else Inr (tl fmt, width, flags, args))
      else if is_digit (peek fmt)
      then bindE (parse_num fmt) (\<lambda>(fmt, width). Inr (fmt, width, flags, args))
      else Inr (fmt, -1, flags, args))"

definition parse_percision :: "u8 list \<Rightarrow> u64 list \<Rightarrow> (u8 list \<times> int \<times> u64 list) exec" where
  "parse_percision fmt args =
     (if peek fmt = 46
      then let fmt = tl fmt in
           bindE (if peek fmt = 42
                  then bindE (va_int args) (\<lambda>(percision, args). Inr (tl fmt, percision, args))
                  else if is_digit (peek fmt)
                  then bindE (parse_num fmt) (\<lambda>(fmt, percision). Inr (fmt, percision, args))
                  else Inr (fmt, -1, args))
             (\<lambda>(fmt, percision, args). Inr (fmt, if percision < 0 then 0 else percision, args))
      else Inr (fmt, -1, args))"

definition parse_length :: "u8 list \<Rightarrow> u8 list \<times> u8" where
  "parse_length fmt =
     (let (fmt, len) = (if peek fmt = 104 \<or> peek fmt = 108 \<or> peek fmt = 76
                           then (tl fmt, peek fmt) else (fmt, 0))
      in (if peek fmt = 108 then tl fmt else fmt, len))"

fun puts_loop :: "nat \<Rightarrow> putter \<Rightarrow> vaddr_t \<Rightarrow> io \<times> int \<Rightarrow> (io \<times> int) exec" where
  "puts_loop 0 g p st = Inl OutOfFuel"
| "puts_loop (Suc fuel) g p st =
     (if io_mem (fst st) p \<noteq> 0
      then bindE (f_put g (io_mem (fst st) p) st) (puts_loop fuel g (p + 1))
      else Inr st)"

definition store32 :: "mem \<Rightarrow> vaddr_t \<Rightarrow> u32 \<Rightarrow> mem" where
  "store32 m p v = m(p := ucast v, p + 1 := ucast (drop_bit 8 v),
     p + 2 := ucast (drop_bit 16 v), p + 3 := ucast (drop_bit 24 v))"

text \<open>
  The switch on the conversion character; \<open>None\<close> is its \<open>return -1\<close>. The width is between -1
  and \<open>INT_MAX\<close>, so that \<open>--width\<close> of \<open>%c\<close> stays in range; the padding of \<open>%s\<close> is a 64-bit
  difference converted to \<open>int\<close>.
\<close>

definition convert_string ::
  "nat \<Rightarrow> putter \<Rightarrow> u8 \<Rightarrow> int \<Rightarrow> u64 list \<Rightarrow> io \<times> int \<Rightarrow> ((io \<times> int) \<times> u64 list) exec" where
  "convert_string fuel g flags width args st =
     bindE (va_slot args) (\<lambda>(str, args).
     bindE (strlen fuel (io_mem (fst st)) str) (\<lambda>n.
     let w = (if 0 < of_int width - n then sint (ucast (of_int width - n) :: u32) else 0) in
     bindE (if \<not> flag_on flags LEFT then pad g 32 w st else Inr (st, w)) (\<lambda>(st, w).
     bindE (puts_loop fuel g str st) (\<lambda>st.
     bindE (pad g 32 w st) (\<lambda>(st, _).
     Inr (st, args))))))"

definition convert_char ::
  "putter \<Rightarrow> u8 \<Rightarrow> int \<Rightarrow> u64 list \<Rightarrow> io \<times> int \<Rightarrow> ((io \<times> int) \<times> u64 list) exec" where
  "convert_char g flags width args st =
     bindE (if \<not> flag_on flags LEFT
            then bindE (pad_loop g 32 (nat (width - 1)) st) (\<lambda>st. Inr (st, min (width - 1) 0))
            else Inr (st, width)) (\<lambda>(st, width).
     bindE (va_slot args) (\<lambda>(a, args).
     bindE (f_put g (ucast a) st) (\<lambda>st.
     bindE (pad_loop g 32 (nat (width - 1)) st) (\<lambda>st.
     Inr (st, args)))))"

definition convert_unsigned ::
  "putter \<Rightarrow> u64 \<Rightarrow> u8 \<Rightarrow> u8 \<Rightarrow> int \<Rightarrow> int \<Rightarrow> u64 list \<Rightarrow> io \<times> int \<Rightarrow> ((io \<times> int) \<times> u64 list) exec" where
  "convert_unsigned g base len flags width percision args st =
     bindE (va_slot args) (\<lambda>(a, args).
     let val = (if len = 108 then a
                else if len = 104 then ucast (ucast a :: u16)
                else ucast (ucast a :: u32))
     in bindE (num_fmt g val base flags width percision (fst st)) (\<lambda>r.
        bindE (add_written (snd st) r) (\<lambda>st. Inr (st, args))))"

definition convert_signed ::
  "putter \<Rightarrow> u8 \<Rightarrow> u8 \<Rightarrow> int \<Rightarrow> int \<Rightarrow> u64 list \<Rightarrow> io \<times> int \<Rightarrow> ((io \<times> int) \<times> u64 list) exec" where
  "convert_signed g len flags width percision args st =
     bindE (va_slot args) (\<lambda>(a, args).
     let val = (if len = 108 then a
                else if len = 104 then scast (ucast a :: u16)
                else a)
     in bindE (num_fmt g val 10 (flags OR SIGNED) width percision (fst st)) (\<lambda>r.
        bindE (add_written (snd st) r) (\<lambda>st. Inr (st, args))))"

definition convert ::
  "nat \<Rightarrow> putter \<Rightarrow> u8 \<Rightarrow> u8 \<Rightarrow> u8 \<Rightarrow> int \<Rightarrow> int \<Rightarrow> u64 list \<Rightarrow> io \<times> int
     \<Rightarrow> ((io \<times> int) \<times> u64 list) option exec" where
  "convert fuel g c len flags width percision args st =
     (if c = 115 then bindE (convert_string fuel g flags width args st) (\<lambda>r. Inr (Some r))
      else if c = 99 then bindE (convert_char g flags width args st) (\<lambda>r. Inr (Some r))
      else if c = 120
      then bindE (convert_unsigned g 16 len (flags OR SMALL) width percision args st) (\<lambda>r. Inr (Some r))
      else if c = 88
      then bindE (convert_unsigned g 16 len flags width percision args st) (\<lambda>r. Inr (Some r))
      else if c = 111
      then bindE (convert_unsigned g 8 len flags width percision args st) (\<lambda>r. Inr (Some r))
      else if c = 117
      then bindE (convert_unsigned g 10 len flags width percision args st) (\<lambda>r. Inr (Some r))
      else if c = 112
      then let (width, flags) = (if width = -1 then (8, flags OR ZEROPAD) else (width, flags)) in
           bindE (va_slot args) (\<lambda>(a, args).
           bindE (num_fmt g a 16 flags width percision (fst st)) (\<lambda>r.
           bindE (add_written (snd st) r) (\<lambda>st. Inr (Some (st, args)))))
      else if c = 105 \<or> c = 100
      then bindE (convert_signed g len flags width percision args st) (\<lambda>r. Inr (Some r))
      else if c = 110
      then bindE (va_slot args) (\<lambda>(foo, args).
           guardE (foo \<noteq> nullptr) NullDeref
           (Inr (Some (((fst st)\<lparr>io_mem := store32 (io_mem (fst st)) foo (of_int (snd st))\<rparr>, snd st), args))))
      else if c = 37 then bindE (f_put g 37 st) (\<lambda>st. Inr (Some (st, args)))
      else Inr None)"

text \<open>One conversion specification, from the character after the percent sign.\<close>

definition format_spec ::
  "nat \<Rightarrow> putter \<Rightarrow> u8 list \<Rightarrow> u64 list \<Rightarrow> io \<times> int \<Rightarrow> (u8 list \<times> u64 list \<times> io \<times> int) option exec" where
  "format_spec fuel g fmt args st =
     (let (fmt, flags) = parse_flags fmt 0 in
      bindE (parse_width fmt flags args) (\<lambda>(fmt, width, flags, args).
      bindE (parse_percision fmt args) (\<lambda>(fmt, percision, args).
      let (fmt, len) = parse_length fmt in
      bindE (convert fuel g (peek fmt) len flags width percision args st) (\<lambda>r.
      case r of
        None \<Rightarrow> Inr None
      | Some (st, args) \<Rightarrow> Inr (Some (tl fmt, args, st))))))"

lemma parse_flags_length: "parse_flags fmt fl = (fmt', fl') \<Longrightarrow> length fmt' \<le> length fmt"
  by (induction fmt fl rule: parse_flags.induct) (auto split: if_splits)

lemma parse_num_length: "parse_num_loop fmt n = Inr (fmt', n') \<Longrightarrow> length fmt' \<le> length fmt"
  by (induction fmt n rule: parse_num_loop.induct) (auto simp: exec_simps split: if_splits)

lemma parse_width_length:
  "parse_width fmt fl args = Inr (fmt', r) \<Longrightarrow> length fmt' \<le> length fmt"
  by (cases r) (auto simp: parse_width_def parse_num_def exec_simps dest: parse_num_length split: if_splits)

lemma parse_percision_length:
  "parse_percision fmt args = Inr (fmt', r) \<Longrightarrow> length fmt' \<le> length fmt"
  by (cases r) (fastforce simp: parse_percision_def parse_num_def exec_simps Let_def
      dest: parse_num_length split: if_splits)

lemma parse_length_length: "parse_length fmt = (fmt', l) \<Longrightarrow> length fmt' \<le> length fmt"
  by (auto simp: parse_length_def split: if_splits)

lemma format_spec_SomeE:
  assumes "format_spec fuel g fmt args st = Inr (Some (fmt', args', st'))"
  obtains f4 len flags w p a3 where "convert fuel g (peek f4) len flags w p a3 st = Inr (Some (st', args'))"
    and "fmt' = tl f4" and "length f4 \<le> length fmt"
proof -
  obtain f1 fl where 1: "parse_flags fmt 0 = (f1, fl)" by fastforce
  from assms 1 obtain f2 w fl2 a2 where 2: "parse_width f1 fl args = Inr (f2, w, fl2, a2)"
    by (auto simp: format_spec_def exec_simps)
  from assms 1 2 obtain f3 p a3 where 3: "parse_percision f2 a2 = Inr (f3, p, a3)"
    by (auto simp: format_spec_def exec_simps)
  obtain f4 l where 4: "parse_length f3 = (f4, l)" by fastforce
  have "length f4 \<le> length fmt"
    using parse_flags_length [OF 1] parse_width_length [OF 2] parse_percision_length [OF 3] parse_length_length [OF 4]
    by simp
  moreover have "convert fuel g (peek f4) l fl2 w p a3 st = Inr (Some (st', args'))" "fmt' = tl f4"
    using assms 1 2 3 4 by (auto simp: format_spec_def exec_simps split: option.splits)
  ultimately show thesis using that by blast
qed

lemma format_spec_shorter:
  assumes "format_spec fuel g fmt args st = Inr (Some (fmt', r))"
  shows "length fmt' \<le> length fmt"
proof -
  obtain args' st' where "r = (args', st')" by (cases r)
  with assms show ?thesis by (auto elim: format_spec_SomeE)
qed

function (sequential) ssprintf_loop ::
  "nat \<Rightarrow> putter \<Rightarrow> u8 list \<Rightarrow> u64 list \<Rightarrow> io \<times> int \<Rightarrow> (io \<times> int) exec" where
  "ssprintf_loop fuel g [] args st = Inr st"
| "ssprintf_loop fuel g (c # fmt) args st =
     (if c = 37
      then bindE (format_spec fuel g fmt args st) (\<lambda>r.
           case r of
             None \<Rightarrow> Inr (fst st, -1)
           | Some (fmt, args, st) \<Rightarrow> ssprintf_loop fuel g fmt args st)
      else bindE (f_put g c st) (\<lambda>st. ssprintf_loop fuel g fmt args st))"
  by pat_completeness auto
termination
  by (relation "measure (\<lambda>(_, _, fmt, _, _). length fmt)")
    (auto dest: format_spec_shorter)

definition ssprintf :: "nat \<Rightarrow> putter \<Rightarrow> vaddr_t \<Rightarrow> u8 list \<Rightarrow> u64 list \<Rightarrow> io \<Rightarrow> (io \<times> int) exec" where
  "ssprintf fuel g buf fmt args s = ssprintf_loop fuel g fmt args (s\<lparr>io_buf := buf\<rparr>, 0)"

section \<open>Output functions and streams\<close>

definition swrite_sbuf :: putter where
  "swrite_sbuf c s = Inr (s\<lparr>io_mem := (io_mem s)(io_buf s := c), io_buf := io_buf s + 1\<rparr>)"

definition vsprintf :: "nat \<Rightarrow> vaddr_t \<Rightarrow> u8 list \<Rightarrow> u64 list \<Rightarrow> io \<Rightarrow> (io \<times> int) exec" where
  "vsprintf fuel buf fmt args s = ssprintf fuel swrite_sbuf buf fmt args s"

text \<open>The serial console: the port is ready to send after a finite wait.\<close>

definition console_emit :: "u8 \<Rightarrow> io \<Rightarrow> io" where
  "console_emit c s = s\<lparr>io_com1 := io_com1 s @ [c]\<rparr>"

definition console_puts :: "u8 list \<Rightarrow> io \<Rightarrow> io" where
  "console_puts cs s = fold console_emit (takeWhile (\<lambda>c. c \<noteq> 0) cs) s"

text \<open>
  A stream buffer is the list of the characters between the start of its 512-byte array and
  the stream pointer; a store behind the array is a fault.
\<close>

definition buffer_store :: "u8 list \<Rightarrow> u8 \<Rightarrow> u8 list exec" where
  "buffer_store b c = guardE (length b < 512) OutOfBounds (Inr (b @ [c]))"

definition fflush_log :: "io \<Rightarrow> io exec" where
  "fflush_log s = bindE (buffer_store (io_log s) 0) (\<lambda>b. Inr ((console_puts b s)\<lparr>io_log := []\<rparr>))"

definition fflush_out :: "io \<Rightarrow> io exec" where
  "fflush_out s = bindE (buffer_store (io_out s) 0) (\<lambda>b.
     Inr ((fold console_emit (takeWhile (\<lambda>c. c \<noteq> 0) (take 512 b)) s)\<lparr>io_out := []\<rparr>))"

definition stream_log :: putter where
  "stream_log c s = bindE (buffer_store (io_log s) c) (\<lambda>b.
     let s = s\<lparr>io_log := b\<rparr> in if c = 10 \<or> 512 < length b then fflush_log s else Inr s)"

definition stream_out :: putter where
  "stream_out c s = bindE (buffer_store (io_out s) c) (\<lambda>b.
     let s = s\<lparr>io_out := b\<rparr> in if c = 10 \<or> 512 < length b then fflush_out s else Inr s)"

definition stream_err :: putter where
  "stream_err c s = Inr (console_emit c s)"

definition kout :: "nat \<Rightarrow> u8 list \<Rightarrow> u64 list \<Rightarrow> io \<Rightarrow> (io \<times> int) exec" where
  "kout fuel format args s = ssprintf fuel stream_out 0 format args s"

definition kerr :: "nat \<Rightarrow> u8 list \<Rightarrow> u64 list \<Rightarrow> io \<Rightarrow> (io \<times> int) exec" where
  "kerr fuel format args s = ssprintf fuel stream_err 0 format args s"

definition klog :: "nat \<Rightarrow> u8 list \<Rightarrow> u64 list \<Rightarrow> io \<Rightarrow> (io \<times> int) exec" where
  "klog fuel format args s = ssprintf fuel stream_log 0 format args s"

definition printf :: "nat \<Rightarrow> u8 list \<Rightarrow> u64 list \<Rightarrow> io \<Rightarrow> (io \<times> int) exec" where
  "printf fuel format args s = ssprintf fuel stream_out 0 format args s"

definition fprintf :: "nat \<Rightarrow> u8 \<Rightarrow> u8 list \<Rightarrow> u64 list \<Rightarrow> io \<Rightarrow> (io \<times> int) exec" where
  "fprintf fuel file format args s =
     (if file = 2 then ssprintf fuel stream_log 0 format args s
      else if file = 1 then ssprintf fuel stream_err 0 format args s
      else ssprintf fuel stream_out 0 format args s)"

section \<open>The digits of a number\<close>

fun nat_digits :: "nat \<Rightarrow> nat \<Rightarrow> nat list" where
  "nat_digits b n = (if n = 0 \<or> b < 2 then [] else n mod b # nat_digits b (n div b))"

declare nat_digits.simps [simp del]

lemma nat_digits_0 [simp]: "nat_digits b 0 = []"
  by (simp add: nat_digits.simps)

fun digits_value :: "nat \<Rightarrow> nat list \<Rightarrow> nat" where
  "digits_value b [] = 0"
| "digits_value b (d # ds) = d + b * digits_value b ds"

definition char_digit :: "u8 \<Rightarrow> nat" where
  "char_digit c = (if c \<le> 57 then unat c - 48 else if 97 \<le> c then unat c - 87 else unat c - 55)"

lemma digits_value_nat_digits: "2 \<le> b \<Longrightarrow> digits_value b (nat_digits b n) = n"
proof (induction b n rule: nat_digits.induct)
  case (1 b n)
  then show ?case by (cases "n = 0") (auto simp: nat_digits.simps [of b n])
qed

lemma nat_digits_bound: "2 \<le> b \<Longrightarrow> d \<in> set (nat_digits b n) \<Longrightarrow> d < b"
proof (induction b n rule: nat_digits.induct)
  case (1 b n)
  then show ?case by (cases "n = 0") (auto simp: nat_digits.simps [of b n])
qed

lemma nat_digits_length: "2 \<le> b \<Longrightarrow> n < b ^ k \<Longrightarrow> length (nat_digits b n) \<le> k"
proof (induction k arbitrary: n)
  case 0
  then show ?case by (simp add: nat_digits.simps)
next
  case (Suc k)
  have "n div b < b ^ k" using Suc.prems by (simp add: less_mult_imp_div_less mult.commute)
  with Suc.IH [of "n div b"] Suc.prems show ?case by (auto simp: nat_digits.simps [of b n])
qed

lemma char_digit_char:
  assumes "k < 16"
  shows "char_digit (digit_char small (of_nat k)) = k"
proof -
  have uc: "ucast (of_nat k :: u64) = (of_nat k :: u8)"
    using assms by (simp add: unsigned_of_nat take_bit_nat_eq_self)
  have off: "unat (c + of_nat j :: u8) = unat c + j" if "unat c + j < 256" for c :: u8 and j
    using that by (subst unat_plus_no_wrap) (simp_all add: unat_of_nat)
  have lt: "(of_nat k :: u64) < 10 \<longleftrightarrow> k < 10" using assms by (simp add: word_less_nat_alt unat_of_nat)
  show ?thesis
  proof (cases "k < 10")
    case True
    then show ?thesis
      using off [of 48 k] lt uc by (simp add: char_digit_def digit_char_def word_le_nat_alt)
  next
    case False
    then obtain j where k: "k = 10 + j" by (metis le_add_diff_inverse not_le)
    then have j: "j < 6" using assms by simp
    have ge: "\<not> (10 + of_nat j :: u64) < 10" using lt False k by simp
    have uj: "ucast (of_nat j :: u64) = (of_nat j :: u8)"
      using j by (simp add: unsigned_of_nat take_bit_nat_eq_self)
    have d: "digit_char small (of_nat k) = (if small then 97 else 65) + of_nat j"
      using ge uj by (simp add: digit_char_def k)
    have u: "unat (digit_char small (of_nat k)) = (if small then 97 else 65) + j"
      unfolding d using off [of 97 j] off [of 65 j] j by (cases small) simp_all
    show ?thesis
      unfolding char_digit_def word_le_nat_alt u using j by (cases small) (simp_all add: k)
  qed
qed

lemma num_digits_eq:
  assumes b: "2 \<le> unat base" and "length (nat_digits (unat base) (unat d)) \<le> room"
  shows "num_digits room small base d =
    Inr (map (\<lambda>k. digit_char small (of_nat k)) (nat_digits (unat base) (unat d)))"
  using assms(2)
proof (induction room arbitrary: d)
  case 0
  then show ?case using b by (auto simp: nat_digits.simps [of "unat base"] word_less_nat_alt split: if_splits)
next
  case (Suc room)
  have nz: "base \<noteq> 0" using b by auto
  show ?case
  proof (cases "d = 0")
    case False
    then have ds: "nat_digits (unat base) (unat d) = unat d mod unat base # nat_digits (unat base) (unat d div unat base)"
      using b by (subst nat_digits.simps) (auto simp: unat_eq_0)
    moreover have "num_digits room small base (d div base) =
        Inr (map (\<lambda>k. digit_char small (of_nat k)) (nat_digits (unat base) (unat (d div base))))"
      by (rule Suc.IH) (use Suc.prems ds in \<open>simp add: unat_div\<close>)
    moreover have "of_nat (unat d mod unat base) = d mod base"
      by (simp flip: unat_mod)
    ultimately show ?thesis using False nz by (simp add: unat_div word_gt_0)
  qed (simp add: nat_digits.simps)
qed

lemma num_digits_ok:
  assumes "base \<in> {8, 10, 16}"
  shows "\<exists>str. num_digits 23 small base d = Inr str \<and> length str < 23 \<and>
    digits_value (unat base) (map char_digit str) = unat d"
proof -
  have b: "8 \<le> unat base" "unat base \<le> 16" using assms by auto
  let ?ds = "nat_digits (unat base) (unat d)"
  have "unat d < 2 ^ LENGTH(64)" by (rule unsigned_less)
  also have "\<dots> < (8::nat) ^ 22" by simp
  also have "\<dots> \<le> unat base ^ 22" using b(1) by (rule power_mono) simp
  finally have len: "length ?ds \<le> 22" using b(1) by (intro nat_digits_length) auto
  have "map char_digit (map (\<lambda>k. digit_char small (of_nat k)) ?ds) = ?ds"
    unfolding map_map by (rule map_idI) (use b nat_digits_bound [of "unat base"] in \<open>auto intro!: char_digit_char dest: less_le_trans\<close>)
  moreover have "num_digits 23 small base d = Inr (map (\<lambda>k. digit_char small (of_nat k)) ?ds)"
    by (rule num_digits_eq) (use b len in auto)
  ultimately show ?thesis
    using len b digits_value_nat_digits [of "unat base" "unat d"] by auto
qed

section \<open>The layout of a formatted number\<close>

lemma put_all_append: "put_all g (xs @ ys) st = bindE (put_all g xs st) (put_all g ys)"
proof (induction xs arbitrary: st)
  case (Cons c cs)
  then show ?case by (cases "f_put g c st") simp_all
qed simp

lemma put_all_bind: "bindE (put_all g xs st) (\<lambda>st. bindE (put_all g ys st) k) = bindE (put_all g (xs @ ys) st) k"
  by (simp add: put_all_append bindE_assoc)

lemma put_all_last: "bindE (put_all g xs st) (\<lambda>st. put_all g ys st) = put_all g (xs @ ys) st"
  by (simp add: put_all_append)

lemma pad_loop_put_all: "pad_loop g c n st = put_all g (replicate n c) st"
  by (induction n arbitrary: st) (simp_all add: cong: bindE_cong)

lemma pad_put_all:
  "-2147483648 < w \<Longrightarrow>
    bindE (pad g c w st) k = bindE (put_all g (replicate (nat w) c) st) (\<lambda>st. k (st, min w 0 - 1))"
  by (simp add: pad_def bindE_assoc pad_loop_put_all)

text \<open>Counting from 0 and adding the sum at the end, as \<open>num\<close> and its caller do.\<close>

lemma put_all_from:
  assumes "0 \<le> j" and "0 \<le> k" and "k + j + int (length cs) \<le> 2147483647"
  shows "bindE (put_all g cs (s, j)) (add_written k) = put_all g cs (s, k + j)"
  using assms
proof (induction cs arbitrary: s j)
  case Nil
  then show ?case by (simp add: add_written_def)
next
  case (Cons c cs)
  show ?case
  proof (cases "g c s")
    case (Inr s')
    with Cons.IH [of "j + 1" s'] Cons.prems show ?thesis
      by (simp add: f_put_def add_written_def add.assoc)
  qed (simp add: f_put_def)
qed

lemma f_put_put_all: "f_put g c st = put_all g [c] st"
  by (cases "f_put g c st") simp_all

lemma f_put_two: "bindE (f_put g a st) (f_put g b) = put_all g [a, b] st"
proof -
  have "f_put g b = put_all g [b]" by (rule ext) (rule f_put_put_all)
  then show ?thesis by simp
qed

text \<open>
  The reference layout: padding, sign, prefix, precision zeros, zero padding, digits, padding
  (\<open>str\<close> has the most significant digit first).
\<close>

definition num_sign :: "bool \<Rightarrow> u8 \<Rightarrow> u8 list" where
  "num_sign negative flags =
     (if negative then (if flag_on flags SIGNED then [45] else [])
      else if flag_on flags SPLUS then [32]
      else if flag_on flags FPLUS then [43] else [])"

definition num_prefix :: "u64 \<Rightarrow> u8 \<Rightarrow> u8 list" where
  "num_prefix base flags =
     (if flag_on flags PREFIX \<and> base = 16 then [48, if flag_on flags SMALL then 120 else 88]
      else if flag_on flags PREFIX \<and> base = 8 then [48] else [])"

definition num_padding :: "bool \<Rightarrow> u64 \<Rightarrow> u8 \<Rightarrow> int \<Rightarrow> u8 list \<Rightarrow> nat" where
  "num_padding negative base flags width str =
     nat (width - (int (length str) + int (length (num_prefix base flags)) +
       (if flag_on flags SIGNED \<and> (negative \<or> flag_on flags FPLUS \<or> flag_on flags SPLUS) then 1 else 0)))"

definition num_layout :: "bool \<Rightarrow> u64 \<Rightarrow> u8 \<Rightarrow> int \<Rightarrow> int \<Rightarrow> u8 list \<Rightarrow> u8 list" where
  "num_layout negative base flags width percision str =
     (let w = num_padding negative base flags width str;
          p = (if percision = -1 then 0 else nat percision)
      in (if \<not> flag_on flags ZEROPAD \<and> \<not> flag_on flags LEFT then replicate w 32 else []) @
         num_sign negative flags @ num_prefix base flags @ replicate p 48 @
         (if flag_on flags ZEROPAD then replicate w 48 else []) @ str @
         (if \<not> flag_on flags ZEROPAD \<and> flag_on flags LEFT then replicate w 32 else []))"

lemma put_if: "(if b then put_all g xs st else Inr st) = put_all g (if b then xs else []) st"
  by simp

lemma pad_none: "(\<lambda>(st, w). k st w) (st, w) = k st w"
  by simp

text \<open>The output statements of \<open>num\<close>; at most one of the three paddings is active.\<close>

lemma emit_number:
  assumes "\<not> (z \<and> zp)" and "\<not> (z \<and> l)" and "\<not> (zp \<and> l)"
    and prefix: "\<And>st. pre st = put_all g xs st" and w: "0 \<le> w" and p: "-2147483648 < p"
  shows "bindE (if z then pad g 32 w st else Inr (st, w)) (\<lambda>(st, w).
     bindE (if sign \<noteq> 0 then f_put g sign st else Inr st) (\<lambda>st.
     bindE (pre st) (\<lambda>st.
     bindE (pad g 48 p st) (\<lambda>(st, _).
     bindE (if zp then pad g 48 w st else Inr (st, w)) (\<lambda>(st, w).
     bindE (put_all g str st) (\<lambda>st.
     bindE (if l then pad g 32 w st else Inr (st, w)) (\<lambda>(st, _).
     Inr st))))))) =
   put_all g ((if z then replicate (nat w) 32 else []) @ (if sign \<noteq> 0 then [sign] else []) @ xs @
     replicate (nat p) 48 @ (if zp then replicate (nat w) 48 else []) @ str @
     (if l then replicate (nat w) 32 else [])) st"
proof -
  have "-2147483648 < w" using w by simp
  note simps = pad_put_all [OF this] pad_put_all [OF p] prefix f_put_put_all put_if put_all_bind put_all_last bindE_Inr_right prod.case
    if_True if_False append.simps append_Nil2 append_assoc bindE.simps(2)
  consider "z" "\<not> zp" "\<not> l" | "\<not> z" "zp" "\<not> l" | "\<not> z" "\<not> zp" "l" | "\<not> z" "\<not> zp" "\<not> l"
    using assms(1-3) by blast
  then show ?thesis
    by cases (simp_all only: simps)
qed

text \<open>The values on which the arithmetic of \<open>num\<close> is defined, as \<open>ssprintf\<close> calls it.\<close>

definition num_in_range :: "u64 \<Rightarrow> u8 \<Rightarrow> int \<Rightarrow> int \<Rightarrow> bool" where
  "num_in_range n flags width percision \<longleftrightarrow>
     \<not> (n = 0x8000000000000000 \<and> flag_on flags SIGNED) \<and> -1 \<le> width \<and> -1 \<le> percision"

lemma num_fmt_put_all:
  fixes n :: u64 and flags :: u8
  defines "d \<equiv> if n <s 0 \<and> flag_on flags SIGNED then - n else n"
  assumes str: "num_digits 23 (flag_on flags SMALL) base d = Inr str" "length str < 23"
    and range: "num_in_range n flags width percision"
  shows "num_fmt g n base flags width percision s =
    put_all g (num_layout (n <s 0) base flags width percision (rev (if n = 0 then [48] else str))) (s, 0)"
proof -
  let ?ds = "if n = 0 then [48] else str"
  have pre: "(if flag_on flags PREFIX \<and> base = 16
      then bindE (f_put g 48 st) (f_put g (if flag_on flags SMALL then 120 else 88))
      else if flag_on flags PREFIX \<and> base = 8 then f_put g 48 st else Inr st) =
      put_all g (num_prefix base flags) st" for st
  proof (cases "flag_on flags PREFIX \<and> base = 16")
    case True
    then show ?thesis by (simp add: num_prefix_def f_put_two del: put_all.simps(2))
  next
    case False
    then show ?thesis by (auto simp: num_prefix_def f_put_put_all simp del: put_all.simps(2))
  qed
  let ?neg = "n <s 0"
  let ?w0 = "if flag_on flags PREFIX \<and> base = 16 then 2 else if flag_on flags PREFIX \<and> base = 8 then 1 else 0 :: int"
  let ?w1 = "if (flag_on flags SIGNED \<and> ?neg) \<or> (flag_on flags SIGNED \<and> flag_on flags FPLUS) \<or>
    (flag_on flags SIGNED \<and> flag_on flags SPLUS) then ?w0 + 1 else ?w0"
  let ?w2 = "int (length ?ds) + ?w1"
  let ?w = "if width - ?w2 > 0 then width - ?w2 else 0"
  let ?s1 = "if ?neg \<and> flag_on flags SIGNED then 45 else 0 :: u8"
  let ?s2 = "if \<not> ?neg \<and> flag_on flags FPLUS then 43 else ?s1"
  let ?sign = "if \<not> ?neg \<and> flag_on flags SPLUS then 32 else ?s2"
  have small: "length ?ds \<le> 22" "?w1 \<le> 3" using str(2) by auto
  have r: "\<not> (?neg \<and> flag_on flags SIGNED \<and> n = 0x8000000000000000)" "-2147483648 \<le> width - ?w2"
    "-2147483648 < (if percision = -1 then 0 else percision)"
    using range small by (auto simp: num_in_range_def)
  have eq: "num_fmt g n base flags width percision s =
    put_all g ((if \<not> flag_on flags ZEROPAD \<and> \<not> flag_on flags LEFT then replicate (nat ?w) 32 else []) @
      (if ?sign \<noteq> 0 then [?sign] else []) @ num_prefix base flags @
      replicate (nat (if percision = -1 then 0 else percision)) 48 @
      (if flag_on flags ZEROPAD then replicate (nat ?w) 48 else []) @ rev ?ds @
      (if \<not> flag_on flags ZEROPAD \<and> flag_on flags LEFT then replicate (nat ?w) 32 else [])) (s, 0)"
    unfolding num_fmt_def Let_def str(1) [unfolded d_def] bindE.simps guardE_def if_P [OF str(2)] if_P [OF r(1)] if_P [OF r(2)]
    by (rule emit_number [OF _ _ _ pre _ r(3)]) auto
  have sign: "(if ?sign \<noteq> 0 then [?sign] else []) = num_sign ?neg flags"
    by (simp add: num_sign_def)
  have w: "nat ?w = num_padding ?neg base flags width (rev ?ds)"
    unfolding num_padding_def num_prefix_def by auto
  have p: "nat (if percision = -1 then 0 else percision) = (if percision = -1 then 0 else nat percision)"
    by simp
  show ?thesis
    unfolding eq sign w p num_layout_def Let_def ..
qed

lemma num_fmt_layout:
  assumes "base \<in> {8, 10, 16}" and "num_in_range n flags width percision"
  shows "\<exists>ds. num_fmt g n base flags width percision s =
      put_all g (num_layout (n <s 0) base flags width percision (rev ds)) (s, 0) \<and>
    digits_value (unat base) (map char_digit ds) =
      unat (if n <s 0 \<and> flag_on flags SIGNED then - n else n) \<and> ds \<noteq> []"
proof -
  let ?div = "if n <s 0 \<and> flag_on flags SIGNED then - n else n"
  obtain str where str: "num_digits 23 (flag_on flags SMALL) base ?div = Inr str" "length str < 23"
    "digits_value (unat base) (map char_digit str) = unat ?div"
    using num_digits_ok [OF assms(1)] by blast
  let ?ds = "if n = 0 then [48] else str"
  have z: "n = 0 \<Longrightarrow> ?div = 0" by simp
  have val: "digits_value (unat base) (map char_digit ?ds) = unat ?div"
    using str(3) z by (auto simp: char_digit_def)
  moreover have "?ds \<noteq> []"
  proof (cases "n = 0")
    case False
    then have "unat ?div \<noteq> 0" by (auto simp: unat_eq_0)
    then show ?thesis using str(3) False by auto
  qed simp
  moreover have "num_fmt g n base flags width percision s =
      put_all g (num_layout (n <s 0) base flags width percision (rev ?ds)) (s, 0)"
    by (rule num_fmt_put_all) (use str assms(2) in simp_all)
  ultimately show ?thesis by blast
qed

section \<open>Characters sent to the console\<close>

lemma put_all_err:
  "snd st + int (length cs) \<le> 2147483647 \<Longrightarrow> put_all stream_err cs st =
    Inr ((fst st)\<lparr>io_com1 := io_com1 (fst st) @ cs\<rparr>, snd st + int (length cs))"
proof (induction cs arbitrary: st)
  case (Cons c cs)
  have "f_put stream_err c st = Inr ((fst st)\<lparr>io_com1 := io_com1 (fst st) @ [c]\<rparr>, snd st + 1)"
    using Cons.prems by (simp add: f_put_def add_written_def stream_err_def console_emit_def)
  with Cons show ?case by simp
qed (cases st, simp)

lemma plain_text_loop:
  "37 \<notin> set fmt \<Longrightarrow> ssprintf_loop fuel g fmt args st = put_all g fmt st"
proof (induction fmt arbitrary: st)
  case (Cons c fmt)
  then show ?case by (cases "f_put g c st") auto
qed simp

section \<open>Lines on a stream\<close>

lemma fold_console_emit: "fold console_emit cs s = s\<lparr>io_com1 := io_com1 s @ cs\<rparr>"
  by (induction cs arbitrary: s) (simp_all add: console_emit_def)

lemma stream_out_fill:
  assumes "10 \<notin> set cs" and "length (io_out s) + length cs \<le> 512"
    and "k + int (length cs) \<le> 2147483647"
  shows "put_all stream_out cs (s, k) = Inr (s\<lparr>io_out := io_out s @ cs\<rparr>, k + int (length cs))"
  using assms
proof (induction cs arbitrary: s k)
  case (Cons c cs)
  have "stream_out c s = Inr (s\<lparr>io_out := io_out s @ [c]\<rparr>)"
    using Cons.prems by (auto simp: stream_out_def buffer_store_def Let_def)
  with Cons.IH [of "s\<lparr>io_out := io_out s @ [c]\<rparr>" "k + 1"] Cons.prems show ?case
    by (simp add: f_put_def add_written_def)
qed simp

lemma stream_out_newline:
  assumes "length (io_out s) \<le> 510" and "0 \<notin> set (io_out s)"
  shows "stream_out 10 s = Inr (s\<lparr>io_out := [], io_com1 := io_com1 s @ io_out s @ [10]\<rparr>)"
proof -
  have "takeWhile (\<lambda>c. c \<noteq> 0) ((io_out s @ [10]) @ [0]) = io_out s @ [10 :: u8]"
    using assms(2) by (subst takeWhile_append2) auto
  then show ?thesis
    using assms(1) by (simp add: stream_out_def fflush_out_def buffer_store_def Let_def fold_console_emit)
qed

lemma stream_out_overflow:
  assumes "511 \<le> length (io_out s)"
  shows "stream_out 10 s = Inl OutOfBounds"
  using assms by (auto simp: stream_out_def fflush_out_def buffer_store_def guardE_def Let_def)

lemma put_all_fault: "put_all g xs st = Inl e \<Longrightarrow> put_all g (xs @ ys) st = Inl e"
  by (simp add: put_all_append)

section \<open>Properties\<close>

text \<open>An output state with nothing written yet.\<close>

definition quiet_io :: io where
  "quiet_io = \<lparr>io_mem = \<lambda>_. 0, io_buf = 0, io_out = [], io_log = [], io_com1 = []\<rparr>"

text \<open>
  C36. Formatting a number in base 8, 10 or 16 (with a width and a precision of at least -1, as
  \<open>ssprintf\<close> passes them) never overruns the digit array: for every 64-bit value and all flags,
  except the smallest \<open>long long\<close> as a signed number, the characters sent to the output function
  are the padding, the sign, the prefix, the precision zeros and the digits in the order of the
  reference layout, counted from 0 in an \<open>int\<close>, and the digits, read back in the same base, give
  the absolute value of the number (the unsigned value when it is not signed). The smallest
  \<open>long long\<close> as a signed number is negated in \<open>long long\<close>: undefined behaviour.
\<close>

theorem num_prints_value:
  assumes "base \<in> {8, 10, 16}" and "-1 \<le> width" and "-1 \<le> percision"
  shows "if n = 0x8000000000000000 \<and> flag_on flags SIGNED
    then num_fmt g n base flags width percision s = Inl UndefinedBehaviour
    else \<exists>ds. num_fmt g n base flags width percision s =
        put_all g (num_layout (n <s 0) base flags width percision (rev ds)) (s, 0) \<and>
      digits_value (unat base) (map char_digit ds) =
        unat (if n <s 0 \<and> flag_on flags SIGNED then - n else n) \<and> ds \<noteq> []"
proof (cases "n = 0x8000000000000000 \<and> flag_on flags SIGNED")
  case True
  moreover have "(0x8000000000000000 :: u64) <s 0" by (simp add: word_sless_alt)
  ultimately have "\<not> \<not> (n <s 0 \<and> flag_on flags SIGNED \<and> n = 0x8000000000000000)" by simp
  with True show ?thesis
    unfolding num_fmt_def Let_def guardE_def by (simp only: if_not_P if_True simp_thms)
next
  case False
  then have "num_in_range n flags width percision" using assms(2,3) by (simp add: num_in_range_def)
  from num_fmt_layout [OF assms(1) this] False show ?thesis by (simp only: if_False)
qed

theorem num_prints_value_witness:
  "(\<exists>ds. num_fmt stream_err 255 16 PREFIX 6 (-1) quiet_io =
      put_all stream_err (num_layout (255 <s (0::u64)) 16 PREFIX 6 (-1) (rev ds)) (quiet_io, 0) \<and>
    digits_value 16 (map char_digit ds) = 255) \<and>
  num_fmt stream_err 0x8000000000000000 10 SIGNED (-1) (-1) quiet_io = Inl UndefinedBehaviour"
  using num_prints_value [where base = 16 and width = 6 and percision = "-1" and n = 255 and flags = PREFIX and g = stream_err and s = quiet_io]
    num_prints_value [where base = 10 and width = "-1" and percision = "-1" and n = "0x8000000000000000" and flags = SIGNED and
      g = stream_err and s = quiet_io]
  by (auto simp: flag_on_def PREFIX_def SIGNED_def)

text \<open>
  Output through the line buffer of \<open>kout\<close>: a line of at most 510 characters and its
  newline reaches the console unchanged and leaves the buffer empty; a line of 511 or more
  characters writes behind the 512-byte buffer (the check of the fill level comes after the
  store, tests for more than 512, and the flush stores a terminator as well).
\<close>

theorem kout_line_limit:
  assumes "io_out s = []" and "10 \<notin> set cs" and "0 \<notin> set cs" and "k + 512 < 2147483647"
  shows "(length cs \<le> 510 \<longrightarrow> put_all stream_out (cs @ [10]) (s, k) =
      Inr (s\<lparr>io_com1 := io_com1 s @ cs @ [10]\<rparr>, k + int (length cs) + 1)) \<and>
    (511 \<le> length cs \<longrightarrow> length cs \<le> 512 \<longrightarrow> put_all stream_out (cs @ [10]) (s, k) = Inl OutOfBounds)"
proof -
  have same: "s\<lparr>io_out := []\<rparr> = s" using assms(1) by simp
  have "put_all stream_out cs (s, k) = Inr (s\<lparr>io_out := cs\<rparr>, k + int (length cs))" if "length cs \<le> 512"
    using stream_out_fill [of cs s k] assms that by simp
  then show ?thesis
    using stream_out_newline [of "s\<lparr>io_out := cs\<rparr>"] stream_out_overflow [of "s\<lparr>io_out := cs\<rparr>"] assms
    by (auto simp: put_all_append f_put_def add_written_def same)
qed

theorem kout_line_limit_witness:
  "put_all stream_out [72, 105, 10] (quiet_io, 0) = Inr (quiet_io\<lparr>io_com1 := [72, 105, 10]\<rparr>, 3)"
  using kout_line_limit [of quiet_io "[72, 105]" 0] by (simp add: quiet_io_def)

end
