(* ===== verification/Ebl_Print.thy ===== *)
theory Ebl_Print
  imports Ebl_Stdio
begin

text \<open>
  What the printing functions of \<open>lib/ebl/stdio.cc\<close> print: a reference semantics
  \<open>format_text\<close>, a function from a format string, its arguments and the strings they point
  to, to the list of characters of the output. It has no output function, no state and no
  counter, and it reads a conversion specification its own way: the flags are the longest run of
  flag characters, a number is the value of the longest run of digits, a length is looked up at
  the head of what is left. It is undefined (\<open>None\<close>) where the arguments run out, a number in the
  format or the negation of an argument overflows, a pointer of \<open>%s\<close> leads to no known string,
  and for \<open>%n\<close> and unknown conversions. That the parsers of \<open>ssprintf\<close> compute the same is proved
  (\<open>spec_text_code\<close>).

  The locale \<open>text_sink\<close> is what the format interpreter needs of an output function: that it
  leaves the strings of the arguments alone for as many characters as it is used for. It is
  interpreted for the console (\<open>stream_err\<close>), for the two line buffers and for the buffer of
  \<open>sprintf\<close>; the interpreter then sends exactly the characters of \<open>format_text\<close>.
\<close>

section \<open>The text of a conversion\<close>

type_synonym strings = "vaddr_t \<Rightarrow> u8 list option"

definition num_text :: "u64 \<Rightarrow> u64 \<Rightarrow> u8 \<Rightarrow> int \<Rightarrow> int \<Rightarrow> u8 list" where
  "num_text n base flags width percision =
     num_layout (n <s 0) base flags width percision
       (if n = 0 then [48]
        else rev (map (\<lambda>k. digit_char (flag_on flags SMALL) (of_nat k))
               (nat_digits (unat base) (unat (if n <s 0 \<and> flag_on flags SIGNED then - n else n)))))"

definition field_text :: "u8 \<Rightarrow> int \<Rightarrow> u8 list \<Rightarrow> u8 list" where
  "field_text flags width cs =
     (let blanks = replicate (nat (width - int (length cs))) 32
      in if flag_on flags LEFT then cs @ blanks else blanks @ cs)"

definition unsigned_arg :: "u8 \<Rightarrow> u64 \<Rightarrow> u64" where
  "unsigned_arg len a =
     (if len = 108 then a else if len = 104 then ucast (ucast a :: u16) else ucast (ucast a :: u32))"

definition signed_arg :: "u8 \<Rightarrow> u64 \<Rightarrow> u64" where
  "signed_arg len a = (if len = 104 then scast (ucast a :: u16) else a)"

text \<open>The text of one argument.\<close>

definition arg_text :: "strings \<Rightarrow> u8 \<Rightarrow> u8 \<Rightarrow> u8 \<Rightarrow> int \<Rightarrow> int \<Rightarrow> u64 \<Rightarrow> u8 list option" where
  "arg_text strs c len flags width percision a =
     (if c = 115 then map_option (field_text flags width) (strs a)
      else if c = 99 then Some (field_text flags width [ucast a])
      else if c = 120 then Some (num_text (unsigned_arg len a) 16 (flags OR SMALL) width percision)
      else if c = 88 then Some (num_text (unsigned_arg len a) 16 flags width percision)
      else if c = 111 then Some (num_text (unsigned_arg len a) 8 flags width percision)
      else if c = 117 then Some (num_text (unsigned_arg len a) 10 flags width percision)
      else if c = 112
      then Some (if width = -1 then num_text a 16 (flags OR ZEROPAD) 8 percision
                 else num_text a 16 flags width percision)
      else if (c = 105 \<or> c = 100) \<and> signed_arg len a \<noteq> 0x8000000000000000
      then Some (num_text (signed_arg len a) 10 (flags OR SIGNED) width percision)
      else None)"

definition conv_text ::
  "strings \<Rightarrow> u8 \<Rightarrow> u8 \<Rightarrow> u8 \<Rightarrow> int \<Rightarrow> int \<Rightarrow> u64 list \<Rightarrow> (u8 list \<times> u64 list) option" where
  "conv_text strs c len flags width percision args =
     (if c = 37 then Some ([37], args)
      else case args of
        [] \<Rightarrow> None
      | a # args \<Rightarrow> map_option (\<lambda>cs. (cs, args)) (arg_text strs c len flags width percision a))"

text \<open>The parts of a conversion specification.\<close>

definition is_flag :: "u8 \<Rightarrow> bool" where
  "is_flag c \<longleftrightarrow> c \<in> {48, 32, 43, 35, 45}"

definition spec_flags :: "u8 list \<Rightarrow> u8" where
  "spec_flags cs =
     (if 48 \<in> set cs then ZEROPAD else 0) OR (if 32 \<in> set cs then SPLUS else 0) OR
     (if 43 \<in> set cs then FPLUS else 0) OR (if 35 \<in> set cs then PREFIX else 0) OR
     (if 45 \<in> set cs then LEFT else 0)"

definition decimal_number :: "u8 list \<Rightarrow> int" where
  "decimal_number ds = foldl (\<lambda>n c. 10 * n + int (char_digit c)) 0 ds"

text \<open>The largest number that \<open>num * 10 + c - '0'\<close> reaches without overflow is \<open>INT_MAX - 48\<close>.\<close>

definition spec_number :: "u8 list \<Rightarrow> (u8 list \<times> int) option" where
  "spec_number fmt =
     (let n = decimal_number (takeWhile is_digit fmt)
      in if n \<le> 2147483599 then Some (dropWhile is_digit fmt, n) else None)"

definition int_arg :: "u64 \<Rightarrow> int" where
  "int_arg a = sint (ucast a :: u32)"

definition spec_width :: "u8 list \<Rightarrow> u8 \<Rightarrow> u64 list \<Rightarrow> (u8 list \<times> int \<times> u8 \<times> u64 list) option" where
  "spec_width fmt flags args =
     (if take 1 fmt = [42]
      then case args of
             [] \<Rightarrow> None
           | a # args \<Rightarrow>
             if int_arg a = -2147483648 then None
             else Some (drop 1 fmt, \<bar>int_arg a\<bar>, if int_arg a < 0 then flags OR LEFT else flags, args)
      else if takeWhile is_digit fmt = [] then Some (fmt, -1, flags, args)
      else map_option (\<lambda>(fmt, n). (fmt, n, flags, args)) (spec_number fmt))"

definition spec_percision :: "u8 list \<Rightarrow> u64 list \<Rightarrow> (u8 list \<times> int \<times> u64 list) option" where
  "spec_percision fmt args =
     (if take 2 fmt = [46, 42]
      then case args of [] \<Rightarrow> None | a # args \<Rightarrow> Some (drop 2 fmt, max 0 (int_arg a), args)
      else if take 1 fmt = [46]
      then map_option (\<lambda>(fmt, n). (fmt, n, args)) (spec_number (drop 1 fmt))
      else Some (fmt, -1, args))"

definition spec_length :: "u8 list \<Rightarrow> u8 list \<times> u8" where
  "spec_length fmt =
     (case fmt of
        [] \<Rightarrow> ([], 0)
      | c # rest \<Rightarrow>
        if c \<in> {104, 108, 76} then (if take 1 rest = [108] then drop 1 rest else rest, c) else (fmt, 0))"

definition spec_text :: "strings \<Rightarrow> u8 list \<Rightarrow> u64 list \<Rightarrow> (u8 list \<times> u8 list \<times> u64 list) option" where
  "spec_text strs fmt args =
     (case spec_width (dropWhile is_flag fmt) (spec_flags (takeWhile is_flag fmt)) args of
        None \<Rightarrow> None
      | Some (fmt, width, flags, args) \<Rightarrow>
        (case spec_percision fmt args of
           None \<Rightarrow> None
         | Some (fmt, percision, args) \<Rightarrow>
           (let (fmt, len) = spec_length fmt in
            map_option (\<lambda>(cs, args). (cs, drop 1 fmt, args))
              (conv_text strs (case fmt of [] \<Rightarrow> 0 | c # _ \<Rightarrow> c) len flags width percision args))))"

text \<open>The parsers of \<open>ssprintf\<close> find these parts.\<close>

lemma spec_flags_Cons:
  "is_flag c \<Longrightarrow> spec_flags (c # cs) =
    (if c = 48 then ZEROPAD else if c = 32 then SPLUS else if c = 43 then FPLUS
     else if c = 35 then PREFIX else LEFT) OR spec_flags cs"
  by (auto simp: is_flag_def spec_flags_def or.assoc or.left_commute or.commute)

lemma parse_flags_spec:
  "parse_flags fmt flags = (dropWhile is_flag fmt, flags OR spec_flags (takeWhile is_flag fmt))"
proof (induction fmt flags rule: parse_flags.induct)
  case (1 flags)
  then show ?case by (simp add: spec_flags_def)
next
  case (2 c fmt flags)
  show ?case
  proof (cases "is_flag c")
    case True
    with 2 show ?thesis by (auto simp: spec_flags_Cons is_flag_def or.assoc)
  next
    case False
    then show ?thesis by (auto simp: is_flag_def spec_flags_def)
  qed
qed

lemma digit_value: "is_digit c \<Longrightarrow> uint c = 48 + int (char_digit c)"
proof -
  assume "is_digit c"
  then have "48 \<le> unat c" "c \<le> 57" by (simp_all add: is_digit_def word_le_nat_alt)
  moreover have "uint c = int (unat c)" by simp
  ultimately show ?thesis by (simp add: char_digit_def del: of_nat_unat)
qed

lemma number_grows: "0 \<le> k \<Longrightarrow> k \<le> foldl (\<lambda>n c. 10 * n + int (char_digit c)) k ds"
proof (induction ds arbitrary: k)
  case (Cons d ds)
  show ?case using Cons.IH [of "10 * k + int (char_digit d)"] Cons.prems by simp
qed simp

lemma parse_num_spec:
  assumes "0 \<le> k" and "k \<le> 2147483599"
  shows "parse_num_loop fmt k =
    (let n = foldl (\<lambda>n c. 10 * n + int (char_digit c)) k (takeWhile is_digit fmt)
     in if n \<le> 2147483599 then Inr (dropWhile is_digit fmt, n) else Inl UndefinedBehaviour)"
  using assms
proof (induction fmt arbitrary: k)
  case (Cons c fmt)
  show ?case
  proof (cases "is_digit c")
    case True
    let ?k = "10 * k + int (char_digit c)"
    have k: "k * 10 + uint c \<le> 2147483647 \<longleftrightarrow> ?k \<le> 2147483599" "k * 10 + uint c - 48 = ?k"
      using digit_value [OF True] by auto
    have step: "parse_num_loop (c # fmt) k =
        (if ?k \<le> 2147483599 then parse_num_loop fmt ?k else Inl UndefinedBehaviour)"
      unfolding parse_num_loop.simps if_P [OF True] guardE_def k ..
    show ?thesis
    proof (cases "?k \<le> 2147483599")
      case le: True
      with Cons.IH [of ?k] Cons.prems(1) True step show ?thesis by (simp only: takeWhile.simps dropWhile.simps if_True foldl_Cons)
    next
      case False
      then have "\<not> foldl (\<lambda>n c. 10 * n + int (char_digit c)) ?k (takeWhile is_digit fmt) \<le> 2147483599"
        using number_grows [of ?k "takeWhile is_digit fmt"] Cons.prems(1) by linarith
      with True step False show ?thesis by (simp add: Let_def)
    qed
  qed (use Cons.prems in simp)
qed simp

definition the_result :: "'a exec \<Rightarrow> 'a option" where
  "the_result r = (case r of Inl _ \<Rightarrow> None | Inr x \<Rightarrow> Some x)"

lemma the_result_simps [simp]: "the_result (Inl e) = None" "the_result (Inr x) = Some x"
  by (simp_all add: the_result_def)

lemma parse_number: "the_result (parse_num fmt) = spec_number fmt"
  using parse_num_spec [of 0 fmt] by (simp add: parse_num_def spec_number_def decimal_number_def Let_def)

lemma the_result_bind: "the_result (bindE m f) = Option.bind (the_result m) (\<lambda>x. the_result (f x))"
  by (cases m) simp_all

lemma parse_width_spec: "the_result (parse_width fmt flags args) = spec_width fmt flags args"
proof -
  have "the_result (bindE (parse_num fmt) (\<lambda>(fmt, w). Inr (fmt, w, flags, args))) =
      map_option (\<lambda>(fmt, n). (fmt, n, flags, args)) (spec_number fmt)"
    by (cases "spec_number fmt") (auto simp: the_result_bind parse_number)
  moreover have "the_result (parse_width fmt flags args) = spec_width fmt flags args" if "take 1 fmt = [42]"
    using that
    by (cases fmt; cases args) (auto simp: parse_width_def spec_width_def peek_def va_int_def int_arg_def guardE_def)
  ultimately show ?thesis
    by (cases fmt) (auto simp: parse_width_def spec_width_def peek_def is_digit_def [of 0])
qed

lemma spec_number_none: "\<not> is_digit (peek fmt) \<Longrightarrow> spec_number fmt = Some (fmt, 0)"
  by (cases fmt) (simp_all add: spec_number_def decimal_number_def peek_def Let_def)

lemma parse_num_nonneg: "parse_num fmt = Inr (fmt', n) \<Longrightarrow> 0 \<le> n"
  using parse_num_spec [of 0 fmt] number_grows [of 0] by (auto simp: parse_num_def Let_def split: if_splits)

lemma parse_percision_spec: "the_result (parse_percision fmt args) = spec_percision fmt args"
proof -
  have num: "the_result (bindE (bindE (parse_num r) (\<lambda>(fmt, p). Inr (fmt, p, args)))
      (\<lambda>(fmt, p, args). Inr (fmt, if p < 0 then 0 else p, args))) =
      map_option (\<lambda>(fmt, n). (fmt, n, args)) (spec_number r)" for r
    by (cases "parse_num r") (auto simp: parse_number [symmetric] dest: parse_num_nonneg)
  show ?thesis
  proof (cases "peek fmt = 46")
    case True
    then obtain r where fmt: "fmt = 46 # r" by (cases fmt) (auto simp: peek_def)
    show ?thesis
    proof (cases "peek r = 42")
      case True
      then obtain q where "r = 42 # q" by (cases r) (auto simp: peek_def)
      then show ?thesis
        by (cases args) (auto simp: fmt parse_percision_def spec_percision_def peek_def va_int_def int_arg_def)
    next
      case False
      moreover from False have "take 1 r \<noteq> [42]" by (cases r) (auto simp: peek_def)
      ultimately show ?thesis
        using num [of r] spec_number_none [of r]
        by (cases "is_digit (peek r)") (auto simp: fmt parse_percision_def spec_percision_def peek_def [of "46 # r"])
    qed
  next
    case False
    then have "take 1 fmt \<noteq> [46]" "take 2 fmt \<noteq> [46, 42]" by (cases fmt; simp add: peek_def)+
    with False show ?thesis by (simp add: parse_percision_def spec_percision_def)
  qed
qed

lemma parse_length_spec: "parse_length fmt = spec_length fmt"
proof (cases fmt)
  case (Cons c rest)
  then show ?thesis
    by (cases rest) (auto simp: parse_length_def spec_length_def peek_def)
qed (simp add: parse_length_def spec_length_def peek_def)

lemma spec_text_code:
  "spec_text strs fmt args =
     (let (fmt, flags) = parse_flags fmt 0 in
      case parse_width fmt flags args of
        Inl _ \<Rightarrow> None
      | Inr (fmt, width, flags, args) \<Rightarrow>
        (case parse_percision fmt args of
           Inl _ \<Rightarrow> None
         | Inr (fmt, percision, args) \<Rightarrow>
           (let (fmt, len) = parse_length fmt in
            map_option (\<lambda>(cs, args). (cs, tl fmt, args))
              (conv_text strs (peek fmt) len flags width percision args))))"
  unfolding spec_text_def parse_width_spec [symmetric] parse_percision_spec [symmetric] parse_length_spec [symmetric]
  by (simp add: parse_flags_spec the_result_def peek_def drop_Suc split: sum.split prod.split)

lemma spec_textE:
  assumes "spec_text strs fmt args = Some (cs, fmt', args')"
  obtains f1 fl f2 w fl2 a2 f3 p a3 f4 len where
    "parse_flags fmt 0 = (f1, fl)" and "parse_width f1 fl args = Inr (f2, w, fl2, a2)"
    and "parse_percision f2 a2 = Inr (f3, p, a3)" and "parse_length f3 = (f4, len)"
    and "conv_text strs (peek f4) len fl2 w p a3 = Some (cs, args')" and "fmt' = tl f4"
proof -
  obtain f1 fl where 1: "parse_flags fmt 0 = (f1, fl)" by fastforce
  with assms obtain f2 w fl2 a2 where 2: "parse_width f1 fl args = Inr (f2, w, fl2, a2)"
    by (auto simp: spec_text_code split: sum.splits)
  with assms 1 obtain f3 p a3 where 3: "parse_percision f2 a2 = Inr (f3, p, a3)"
    by (auto simp: spec_text_code split: sum.splits)
  obtain f4 len where 4: "parse_length f3 = (f4, len)" by fastforce
  have "conv_text strs (peek f4) len fl2 w p a3 = Some (cs, args')" "fmt' = tl f4"
    using assms 1 2 3 4 by (auto simp: spec_text_code)
  with 1 2 3 4 show thesis by (rule that)
qed

lemma spec_text_shorter:
  assumes "spec_text strs fmt args = Some (cs, fmt', args')"
  shows "length fmt' \<le> length fmt"
proof -
  from assms obtain f1 fl f2 w fl2 a2 f3 p a3 f4 len where
    "parse_flags fmt 0 = (f1, fl)" "parse_width f1 fl args = Inr (f2, w, fl2, a2)"
    "parse_percision f2 a2 = Inr (f3, p, a3)" "parse_length f3 = (f4, len)" "fmt' = tl f4"
    by (rule spec_textE)
  from parse_flags_length [OF this(1)] parse_width_length [OF this(2)] parse_percision_length [OF this(3)]
    parse_length_length [OF this(4)] this(5)
  show ?thesis by simp
qed

text \<open>The text of a format string.\<close>

function (sequential) format_text :: "strings \<Rightarrow> u8 list \<Rightarrow> u64 list \<Rightarrow> u8 list option" where
  "format_text strs [] args = Some []"
| "format_text strs (c # fmt) args =
     (if c = 37
      then case spec_text strs fmt args of
             None \<Rightarrow> None
           | Some (cs, fmt, args) \<Rightarrow> map_option ((@) cs) (format_text strs fmt args)
      else map_option ((#) c) (format_text strs fmt args))"
  by pat_completeness auto
termination
  by (relation "measure (\<lambda>(_, fmt, _). length fmt)") (auto dest: spec_text_shorter)

lemma format_text_plain: "37 \<notin> set fmt \<Longrightarrow> format_text strs fmt args = Some fmt"
  by (induction fmt) auto

section \<open>The formatter prints the text of a number\<close>

lemma num_fmt_text:
  assumes "base \<in> {8, 10, 16}" and "num_in_range n flags width percision"
  shows "num_fmt g n base flags width percision s = put_all g (num_text n base flags width percision) (s, 0)"
proof -
  let ?d = "if n <s 0 \<and> flag_on flags SIGNED then - n else n"
  let ?ds = "nat_digits (unat base) (unat ?d)"
  let ?str = "map (\<lambda>k. digit_char (flag_on flags SMALL) (of_nat k)) ?ds"
  have b: "8 \<le> unat base" using assms(1) by auto
  have "unat ?d < 2 ^ LENGTH(64)" by (rule unsigned_less)
  also have "\<dots> < (8::nat) ^ 22" by simp
  also have "\<dots> \<le> unat base ^ 22" using b by (rule power_mono) simp
  finally have len: "length ?ds \<le> 22" using b by (intro nat_digits_length) auto
  have str: "num_digits 23 (flag_on flags SMALL) base ?d = Inr ?str"
    by (rule num_digits_eq) (use b len in auto)
  have "num_fmt g n base flags width percision s =
      put_all g (num_layout (n <s 0) base flags width percision (rev (if n = 0 then [48] else ?str))) (s, 0)"
    by (rule num_fmt_put_all [OF str]) (use len assms(2) in simp_all)
  also have "rev (if n = 0 then [48] else ?str) = (if n = 0 then [48] else rev ?str)"
    by simp
  finally show ?thesis unfolding num_text_def .
qed

text \<open>The caller of \<open>num\<close> continues its own count.\<close>

lemma num_fmt_counted:
  assumes "base \<in> {8, 10, 16}" and "num_in_range n flags width percision"
    and "0 \<le> snd st" and "snd st + int (length (num_text n base flags width percision)) \<le> 2147483647"
  shows "bindE (num_fmt g n base flags width percision (fst st)) (\<lambda>r. bindE (add_written (snd st) r) k) =
    bindE (put_all g (num_text n base flags width percision) st) k"
proof -
  have "bindE (put_all g (num_text n base flags width percision) (fst st, 0)) (add_written (snd st)) =
      put_all g (num_text n base flags width percision) st"
    using put_all_from [of 0 "snd st" "num_text n base flags width percision" g "fst st"] assms(3,4) by simp
  then show ?thesis by (simp add: num_fmt_text [OF assms(1,2)] flip: bindE_assoc)
qed

section \<open>Bounds of the parsed width\<close>

lemma parse_num_bounds:
  "parse_num_loop fmt n = Inr (fmt', n') \<Longrightarrow> 0 \<le> n \<Longrightarrow> n < 2147483648 \<Longrightarrow> 0 \<le> n' \<and> n' < 2147483648"
proof (induction fmt n rule: parse_num_loop.induct)
  case (2 c fmt n)
  then show ?case
    by (auto simp: exec_simps is_digit_def word_le_def split: if_splits)
qed auto

lemma parse_width_bounds:
  assumes "parse_width fmt fl args = Inr (fmt', w, fl', args')"
  shows "-1 \<le> w \<and> w < 2147483648"
proof -
  have s: "- 2147483648 \<le> sint x \<and> sint x < 2147483648" for x :: u32
    using sint_greater_eq [of x] sint_less [of x] by simp
  from assms show ?thesis
    using s parse_num_bounds [of fmt 0]
    by (auto simp: parse_width_def va_int_def parse_num_def exec_simps split: if_splits)
      (force simp: minus_less_iff le_less)+
qed

lemma parse_percision_bounds:
  assumes "parse_percision fmt args = Inr (fmt', p, args')"
  shows "-1 \<le> p"
  using assms by (auto simp: parse_percision_def Let_def exec_simps split: if_splits)

lemma flag_or: "flag_on (x OR y) z \<longleftrightarrow> flag_on x z \<or> flag_on y z"
  by (auto simp: flag_on_def and.commute [of _ z] bit.conj_disj_distrib or_eq_0_iff)

lemma parsed_unsigned:
  assumes "parse_flags fmt 0 = (f1, fl)" and "parse_width f1 fl args = Inr (f2, w, fl2, a2)"
  shows "\<not> flag_on fl2 SIGNED"
proof -
  have c: "\<not> flag_on (if b then x else 0) SIGNED" if "\<not> flag_on x SIGNED" for b x
    using that by (simp add: flag_on_def)
  have one: "\<not> flag_on x SIGNED" if "x \<in> {ZEROPAD, SPLUS, FPLUS, PREFIX, LEFT, SMALL}" for x
    using that by (auto simp: flag_on_def SIGNED_def ZEROPAD_def SPLUS_def FPLUS_def PREFIX_def LEFT_def SMALL_def)
  have "\<not> flag_on fl SIGNED"
    using assms(1) c one by (auto simp: parse_flags_spec spec_flags_def flag_or)
  moreover have "fl2 = fl \<or> fl2 = fl OR LEFT"
    using assms(2) by (auto simp: parse_width_def exec_simps split: if_splits)
  ultimately show ?thesis using one [of LEFT] by (auto simp: flag_or)
qed

section \<open>Output functions that leave the arguments alone\<close>

definition stored :: "mem \<Rightarrow> vaddr_t \<Rightarrow> u8 list \<Rightarrow> bool" where
  "stored m p cs \<longleftrightarrow> (\<forall>i < length cs. m (p + of_nat i) = cs ! i) \<and> m (p + of_nat (length cs)) = 0 \<and> 0 \<notin> set cs"

lemma stored_cstr: "stored m p cs \<Longrightarrow> cstr m p (length cs)"
  by (auto simp: stored_def cstr_def in_set_conv_nth)

lemma stored_Nil: "stored m p [] \<longleftrightarrow> m p = 0"
  by (simp add: stored_def)

lemma stored_Cons: "stored m p (c # cs) \<longleftrightarrow> m p = c \<and> c \<noteq> 0 \<and> stored m (p + 1) cs"
proof -
  have "(\<forall>i < length (c # cs). m (p + of_nat i) = (c # cs) ! i) \<longleftrightarrow>
      m p = c \<and> (\<forall>i < length cs. m (p + 1 + of_nat i) = cs ! i)"
    by (auto simp: All_less_Suc2 algebra_simps)
  then show ?thesis by (auto simp: stored_def algebra_simps)
qed

text \<open>The padding of \<open>%s\<close>: an unsigned 64-bit difference, truncated to an \<open>int\<close>.\<close>

lemma string_padding:
  fixes width :: int
  assumes "-1 \<le> width" and "width < 2147483648" and "n < 2147483648"
  shows "(if 0 < (of_int width - of_nat n :: u64) then sint (ucast (of_int width - of_nat n :: u64) :: u32) else 0) =
    width - int n"
proof -
  let ?d = "width - int n"
  have d: "- (2 ^ 31) \<le> ?d" "?d < 2 ^ 31" using assms by auto
  have w: "(of_int width - of_nat n :: u64) = of_int ?d" by simp
  have "(ucast (of_int ?d :: u64) :: u32) = of_int ?d"
    by (rule bit_word_eqI) (simp add: bit_simps del: of_int_diff)
  then have "sint (ucast (of_int ?d :: u64) :: u32) = ?d"
    using d by (simp add: signed_of_int signed_take_bit_int_eq_self del: of_int_diff)
  moreover have "?d = 0" if "(of_int ?d :: u64) = 0"
  proof -
    from that have "sint (of_int ?d :: u64) = 0" by simp
    moreover have "sint (of_int ?d :: u64) = ?d"
      using d by (simp add: signed_of_int signed_take_bit_int_eq_self del: of_int_diff)
    ultimately show ?thesis by simp
  qed
  ultimately show ?thesis unfolding w by (auto simp: word_gt_0)
qed

locale text_sink =
  fixes g :: putter and ok :: "nat \<Rightarrow> io \<Rightarrow> bool" and strs :: strings and fuel :: nat
  assumes fuel_word: "ok k s \<Longrightarrow> 8 \<le> fuel"
    and strings: "ok k s \<Longrightarrow> strs p = Some cs \<Longrightarrow>
      stored (io_mem s) p cs \<and> length cs < fuel \<and> length cs < 2147483646"
    and put: "ok (Suc k) s \<Longrightarrow> g c s = Inr s' \<Longrightarrow> ok k s'"
begin

lemma put_all_ok: "put_all g cs st = Inr st' \<Longrightarrow> ok (length cs + k) (fst st) \<Longrightarrow> ok k (fst st')"
  by (induction cs arbitrary: st) (auto simp: exec_simps f_put_def add_written_def dest: put)

lemma puts_loop_text:
  assumes "ok (length cs + k) (fst st)" and "length cs < n"
    and "\<And>k s. ok k s \<Longrightarrow> stored (io_mem s) p cs"
  shows "puts_loop n g p st = put_all g cs st"
  using assms
proof (induction cs arbitrary: n p st)
  case Nil
  then show ?case by (cases n) (auto simp: stored_def)
next
  case (Cons c cs)
  then obtain n' where n: "n = Suc n'" by (cases n) auto
  have c: "io_mem (fst st) p = c" "c \<noteq> 0" using Cons.prems(1,3) by (auto simp: stored_Cons)
  have "puts_loop n' g (p + 1) st' = put_all g cs st'" if "f_put g c st = Inr st'" for st'
  proof (rule Cons.IH)
    show "ok (length cs + k) (fst st')" using that Cons.prems(1) by (auto simp: f_put_def add_written_def exec_simps dest: put)
  qed (use Cons.prems n in \<open>auto simp: stored_Cons\<close>)
  then show ?case unfolding n by (simp add: c cong: bindE_cong)
qed

lemma convert_string_text:
  assumes ok: "ok (length (field_text flags width cs) + k) (fst st)" and cs: "strs a = Some cs"
    and w: "-1 \<le> width" "width < 2147483648"
  shows "convert_string fuel g flags width (a # args) st =
    bindE (put_all g (field_text flags width cs) st) (\<lambda>st. Inr (st, args))"
proof -
  have len: "length cs < fuel" "length cs < 2147483646" "length cs < 2147483648" using strings [OF ok cs] by auto
  have n: "strlen fuel (io_mem (fst st)) a = Inr (of_nat (length cs))"
    by (rule strlen_ok) (use strings [OF ok cs] fuel_word [OF ok] in \<open>auto intro: stored_cstr\<close>)
  have puts: "puts_loop fuel g a st' = put_all g cs st'" if "ok (length cs + k) (fst st')" for st' k
    by (rule puts_loop_text [OF that len(1)]) (use strings [OF _ cs] in blast)
  let ?w = "width - int (length cs)" and ?blanks = "replicate (nat (width - int (length cs))) (32::u8)"
  have low: "-2147483648 < ?w" "-2147483648 < min ?w 0 - 1" using w(1) len(2) by auto
  have none: "pad g 32 (min ?w 0 - 1) st' = Inr (st', min (min ?w 0 - 1) 0 - 1)" for st'
    using low(2) by (simp add: pad_def)
  note pads = pad_put_all [OF low(1)]
  have "convert_string fuel g flags width (a # args) st =
     bindE (if \<not> flag_on flags LEFT then pad g 32 ?w st else Inr (st, ?w)) (\<lambda>(st, w).
     bindE (puts_loop fuel g a st) (\<lambda>st. bindE (pad g 32 w st) (\<lambda>(st, _). Inr (st, args))))"
    by (simp add: convert_string_def n Let_def string_padding [OF w len(3)] del: of_int_diff)
  also have "\<dots> = bindE (put_all g (field_text flags width cs) st) (\<lambda>st. Inr (st, args))"
  proof (cases "flag_on flags LEFT")
    case True
    then have "ok (length cs + (length ?blanks + k)) (fst st)" using ok by (simp add: field_text_def add_ac)
    from puts [OF this] True show ?thesis
      by (simp add: field_text_def pads put_all_append bindE_assoc)
  next
    case False
    then have "ok (length ?blanks + (length cs + k)) (fst st)"
      using ok by (simp add: field_text_def Let_def add_ac)
    from puts [OF put_all_ok [OF _ this]] False none show ?thesis
      by (simp add: field_text_def pads put_all_append bindE_assoc cong: bindE_cong)
  qed
  finally show ?thesis .
qed

lemma convert_char_text:
  "convert_char g flags width (a # args) st =
    bindE (put_all g (field_text flags width [ucast a]) st) (\<lambda>st. Inr (st, args))"
proof -
  have none: "nat (min (width - 1) 0 - 1) = 0" by simp
  have left: "put_all g (c # cs) = (\<lambda>st. bindE (put_all g [c] st) (put_all g cs))" for c cs
    using put_all_append [of g "[c]" cs] by fastforce
  show ?thesis
    by (cases "flag_on flags LEFT")
      (simp_all add: convert_char_def field_text_def pad_loop_put_all f_put_put_all put_all_append bindE_assoc none
        left [of _ "replicate _ _"] del: put_all.simps(2))
qed

lemma convert_unsigned_text:
  assumes "cs = num_text (unsigned_arg len a) base flags width percision" and "base \<in> {8, 10, 16}"
    and "-1 \<le> width" and "-1 \<le> percision" and "\<not> flag_on flags SIGNED"
    and "0 \<le> snd st" and "snd st + int (length cs) \<le> 2147483647"
  shows "convert_unsigned g base len flags width percision (a # args) st =
    bindE (put_all g cs st) (\<lambda>st. Inr (st, args))"
proof -
  have "num_in_range (unsigned_arg len a) flags width percision" using assms(3-5) by (simp add: num_in_range_def)
  from num_fmt_counted [OF assms(2) this assms(6), of g] assms(1,7)
  show ?thesis by (simp only: convert_unsigned_def va_slot.simps bindE.simps prod.case Let_def unsigned_arg_def [symmetric]) simp
qed

lemma convert_signed_text:
  assumes "cs = num_text (signed_arg len a) 10 (flags OR SIGNED) width percision"
    and "signed_arg len a \<noteq> 0x8000000000000000" and "-1 \<le> width" and "-1 \<le> percision"
    and "0 \<le> snd st" and "snd st + int (length cs) \<le> 2147483647"
  shows "convert_signed g len flags width percision (a # args) st =
    bindE (put_all g cs st) (\<lambda>st. Inr (st, args))"
proof -
  have range: "num_in_range (signed_arg len a) (flags OR SIGNED) width percision"
    using assms(2-4) by (simp add: num_in_range_def)
  have arg: "(if len = 108 then a else if len = 104 then scast (ucast a :: u16) else a) = signed_arg len a"
    by (simp add: signed_arg_def)
  from num_fmt_counted [OF _ range assms(5), of 10 g] assms(1,6)
  show ?thesis by (simp only: convert_signed_def va_slot.simps bindE.simps prod.case Let_def arg) simp
qed

lemma convert_pointer_text:
  assumes "cs = num_text a 16 flags width percision" and "-1 \<le> width" and "-1 \<le> percision"
    and "\<not> flag_on flags SIGNED" and "0 \<le> snd st" and "snd st + int (length cs) \<le> 2147483647"
  shows "bindE (num_fmt g a 16 flags width percision (fst st)) (\<lambda>r.
      bindE (add_written (snd st) r) k) = bindE (put_all g cs st) k"
  unfolding assms(1) by (rule num_fmt_counted) (use assms in \<open>simp_all add: num_in_range_def\<close>)

lemma convert_text:
  assumes "conv_text strs c len flags width percision args = Some (cs, args')"
    and "ok (length cs + k) (fst st)" and "-1 \<le> width" "width < 2147483648"
    and range: "-1 \<le> percision" "\<not> flag_on flags SIGNED"
    and count: "0 \<le> snd st" "snd st + int (length cs) \<le> 2147483647"
  shows "convert fuel g c len flags width percision args st =
    bindE (put_all g cs st) (\<lambda>st. Inr (Some (st, args')))"
proof (cases "c = 37")
  case True
  with assms(1) show ?thesis by (auto simp: conv_text_def convert_def f_put_put_all simp del: put_all.simps(2))
next
  case False
  with assms(1) obtain a where args: "args = a # args'" and cs: "arg_text strs c len flags width percision a = Some cs"
    by (auto simp: conv_text_def split: list.splits)
  show ?thesis
  proof (cases "c = 115")
    case True
    with cs obtain str where "strs a = Some str" "cs = field_text flags width str"
      by (auto simp: arg_text_def)
    with convert_string_text [of flags width str k st a args'] assms(2-4) True args show ?thesis
      by (simp add: convert_def bindE_assoc)
  next
    case False
    have unsigned: "\<not> flag_on (flags OR SMALL) SIGNED" "\<not> flag_on (flags OR ZEROPAD) SIGNED"
      using range(2) by (simp_all add: flag_or, simp_all add: flag_on_def SMALL_def ZEROPAD_def SIGNED_def)
    note num = convert_unsigned_text [OF refl _ _ range(1) _ count(1)]
      convert_signed_text [OF refl _ _ range(1) count(1)]
    from cs count(2) show ?thesis
      unfolding args convert_def arg_text_def if_not_P [OF False] if_not_P [OF \<open>c \<noteq> 37\<close>]
      by (auto simp: convert_char_text bindE_assoc num range unsigned convert_pointer_text [OF refl] assms(3) count(1)
          split: if_splits)
  qed
qed

lemma spec_text_run:
  assumes "spec_text strs fmt args = Some (cs, fmt', args')" and "ok (length cs + k) (fst st)"
    and "0 \<le> snd st" "snd st + int (length cs) \<le> 2147483647"
  shows "format_spec fuel g fmt args st =
    bindE (put_all g cs st) (\<lambda>st. Inr (Some (fmt', args', st)))"
proof -
  from assms(1) obtain f1 fl f2 w fl2 a2 f3 p a3 f4 len where
    p: "parse_flags fmt 0 = (f1, fl)" "parse_width f1 fl args = Inr (f2, w, fl2, a2)"
    "parse_percision f2 a2 = Inr (f3, p, a3)" "parse_length f3 = (f4, len)" "fmt' = tl f4"
    "conv_text strs (peek f4) len fl2 w p a3 = Some (cs, args')"
    by (rule spec_textE)
  from convert_text [OF p(6) assms(2) _ _ _ _ assms(3,4)] parse_width_bounds [OF p(2)] parse_percision_bounds [OF p(3)]
    parsed_unsigned [OF p(1,2)] p(1-5) show ?thesis
    by (simp add: format_spec_def bindE_assoc)
qed

lemma put_all_count: "put_all g cs st = Inr st' \<Longrightarrow> snd st' = snd st + int (length cs)"
  by (induction cs arbitrary: st) (auto simp: exec_simps f_put_def add_written_def)

lemma ssprintf_loop_text:
  "format_text strs fmt args = Some cs \<Longrightarrow> ok (length cs) (fst st) \<Longrightarrow>
    0 \<le> snd st \<Longrightarrow> snd st + int (length cs) \<le> 2147483647 \<Longrightarrow>
    ssprintf_loop fuel g fmt args st = put_all g cs st"
proof (induction fmt arbitrary: args cs st rule: length_induct)
  case (1 fmt)
  show ?case
  proof (cases fmt)
    case Nil
    with 1 show ?thesis by simp
  next
    case (Cons c rest)
    show ?thesis
    proof (cases "c = 37")
      case True
      from 1(2) Cons True obtain x fmt' args' y where x: "spec_text strs rest args = Some (x, fmt', args')"
        "format_text strs fmt' args' = Some y" "cs = x @ y"
        by (auto split: option.splits)
      have "ssprintf_loop fuel g fmt' args' st' = put_all g y st'" if "put_all g x st = Inr st'" for st'
        by (rule 1(1) [rule_format])
          (use spec_text_shorter [OF x(1)] put_all_ok [OF that, of "length y"] put_all_count [OF that] 1(3-5) x(2,3) Cons
            in simp_all)
      with spec_text_run [OF x(1), of "length y" st] 1(3-5) x(3) Cons True show ?thesis
        by (simp add: put_all_append bindE_assoc cong: bindE_cong)
    next
      case False
      from 1(2) Cons False obtain y where y: "format_text strs rest args = Some y" "cs = c # y"
        by auto
      have "ssprintf_loop fuel g rest args st' = put_all g y st'" if "f_put g c st = Inr st'" for st'
        using 1(1) that 1(3-5) y Cons put by (auto simp: f_put_def add_written_def exec_simps)
      with False y Cons show ?thesis by (simp cong: bindE_cong)
    qed
  qed
qed

lemma ssprintf_text:
  assumes "format_text strs fmt args = Some cs" and "ok (length cs) (s\<lparr>io_buf := buf\<rparr>)"
    and "length cs < 2 ^ 31"
  shows "ssprintf fuel g buf fmt args s = put_all g cs (s\<lparr>io_buf := buf\<rparr>, 0)"
  unfolding ssprintf_def using assms by (intro ssprintf_loop_text) simp_all

end
section \<open>The console and the line buffers\<close>

text \<open>The strings are in memory, and the fuel is enough to read them.\<close>

definition readable :: "strings \<Rightarrow> nat \<Rightarrow> mem \<Rightarrow> bool" where
  "readable strs fuel m \<longleftrightarrow> 8 \<le> fuel \<and>
     (\<forall>p cs. strs p = Some cs \<longrightarrow> stored m p cs \<and> length cs < fuel \<and> length cs < 2147483646)"

lemma mem_console [simp]: "io_mem (console_emit c s) = io_mem s" "io_mem (fold console_emit cs s) = io_mem s"
  by (simp_all add: console_emit_def fold_console_emit)

lemma mem_stream_err: "stream_err c s = Inr s' \<Longrightarrow> io_mem s' = io_mem s"
  by (auto simp: stream_err_def)

lemma mem_stream_out: "stream_out c s = Inr s' \<Longrightarrow> io_mem s' = io_mem s"
  by (auto simp: stream_out_def fflush_out_def exec_simps Let_def split: if_splits)


interpretation err_text: text_sink stream_err "\<lambda>k s. readable strs fuel (io_mem s)" strs fuel for strs fuel
  by unfold_locales (auto simp: readable_def mem_stream_err)

interpretation out_text: text_sink stream_out "\<lambda>k s. readable strs fuel (io_mem s)" strs fuel for strs fuel
  by unfold_locales (auto simp: readable_def mem_stream_out)


text \<open>
  What a line buffer does to a text: the lines that are complete leave, the rest stays. The text
  fits when no line has more than 510 characters before its newline and the rest no more than 512.
\<close>

fun line_split :: "u8 list \<Rightarrow> u8 list \<Rightarrow> u8 list \<times> u8 list" where
  "line_split b [] = ([], b)"
| "line_split b (c # cs) =
     (if c = 10 then let (sent, rest) = line_split [] cs in (b @ [c] @ sent, rest) else line_split (b @ [c]) cs)"

fun lines_fit :: "nat \<Rightarrow> u8 list \<Rightarrow> bool" where
  "lines_fit n [] \<longleftrightarrow> True"
| "lines_fit n (c # cs) \<longleftrightarrow>
     c \<noteq> 0 \<and> (if c = 10 then n \<le> 510 \<and> lines_fit 0 cs else n < 512 \<and> lines_fit (Suc n) cs)"



locale line_stream =
  fixes g :: putter and buf :: "io \<Rightarrow> u8 list" and set_buf :: "u8 list \<Rightarrow> io \<Rightarrow> io"
  assumes fill: "c \<noteq> 10 \<Longrightarrow> length (buf s) < 512 \<Longrightarrow> g c s = Inr (set_buf (buf s @ [c]) s)"
    and newline: "length (buf s) \<le> 510 \<Longrightarrow> 0 \<notin> set (buf s) \<Longrightarrow>
      g 10 s = Inr (set_buf [] (s\<lparr>io_com1 := io_com1 s @ buf s @ [10]\<rparr>))"
    and buffer: "buf (set_buf b s) = b" "set_buf b (set_buf b' s) = set_buf b s" "set_buf (buf s) s = s"
    and com1: "io_com1 (set_buf b s) = io_com1 s" "buf (s\<lparr>io_com1 := x\<rparr>) = buf s"
      "(set_buf b s)\<lparr>io_com1 := x\<rparr> = set_buf b (s\<lparr>io_com1 := x\<rparr>)"
begin

lemma put_all_lines:
  assumes "lines_fit (length (buf s)) cs" and "0 \<notin> set (buf s)" and "k + int (length cs) \<le> 2147483647"
  shows "put_all g cs (s, k) = (let (sent, rest) = line_split (buf s) cs in
    Inr (set_buf rest (s\<lparr>io_com1 := io_com1 s @ sent\<rparr>), k + int (length cs)))"
  using assms
proof (induction cs arbitrary: s k)
  case Nil
  then show ?case by (simp add: buffer)
next
  case (Cons c cs)
  show ?case
  proof (cases "c = 10")
    case True
    let ?s = "set_buf [] (s\<lparr>io_com1 := io_com1 s @ buf s @ [10]\<rparr>)"
    have "g c s = Inr ?s" using newline Cons.prems True by simp
    with Cons.IH [of ?s "k + 1"] Cons.prems True show ?thesis
      by (simp add: f_put_def add_written_def buffer com1 split: prod.splits)
  next
    case False
    have "g c s = Inr (set_buf (buf s @ [c]) s)" using fill Cons.prems False by simp
    with Cons.IH [of "set_buf (buf s @ [c]) s" "k + 1"] Cons.prems False show ?thesis
      by (simp add: f_put_def add_written_def buffer com1 split: prod.splits)
  qed
qed

end

lemma flush_takes_line:
  assumes "0 \<notin> set b"
  shows "takeWhile (\<lambda>c. c \<noteq> 0) ((b @ [10]) @ [0]) = b @ [10 :: u8]"
  using assms by (subst takeWhile_append2) auto

interpretation out_lines: line_stream stream_out io_out "\<lambda>b. io_out_update (\<lambda>_. b)"
  by unfold_locales
    (auto simp: stream_out_def fflush_out_def buffer_store_def Let_def fold_console_emit flush_takes_line [simplified])


section \<open>The buffer of \<open>sprintf\<close>\<close>

definition clear_of :: "strings \<Rightarrow> vaddr_t \<Rightarrow> nat \<Rightarrow> bool" where
  "clear_of strs buf n \<longleftrightarrow>
     (\<forall>p cs i j. strs p = Some cs \<longrightarrow> i \<le> length cs \<longrightarrow> j < n \<longrightarrow> p + of_nat i \<noteq> buf + of_nat j)"

lemma clear_of_Suc:
  "clear_of strs buf (Suc n) \<longleftrightarrow>
     (\<forall>p cs i. strs p = Some cs \<longrightarrow> i \<le> length cs \<longrightarrow> p + of_nat i \<noteq> buf) \<and> clear_of strs (buf + 1) n"
  unfolding clear_of_def by (simp add: All_less_Suc2 add.assoc) blast

lemma stored_upd:
  "stored m p cs \<Longrightarrow> (\<And>i. i \<le> length cs \<Longrightarrow> p + of_nat i \<noteq> a) \<Longrightarrow> stored (m(a := c)) p cs"
  by (auto simp: stored_def)

interpretation buf_text: text_sink swrite_sbuf
  "\<lambda>k s. readable strs fuel (io_mem s) \<and> clear_of strs (io_buf s) k" strs fuel for strs fuel
proof unfold_locales
  fix k s c s'
  assume ok: "readable strs fuel (io_mem s) \<and> clear_of strs (io_buf s) (Suc k)" and s': "swrite_sbuf c s = Inr s'"
  then show "readable strs fuel (io_mem s') \<and> clear_of strs (io_buf s') k"
    by (auto simp: swrite_sbuf_def clear_of_Suc readable_def intro!: stored_upd)
qed (auto simp: readable_def)

text \<open>A text written into memory.\<close>

definition written :: "mem \<Rightarrow> vaddr_t \<Rightarrow> u8 list \<Rightarrow> mem" where
  "written m buf cs = (\<lambda>a. if unat (a - buf) < length cs then cs ! unat (a - buf) else m a)"

lemma written_Cons:
  assumes "length cs < 2 ^ 64 - 1"
  shows "written (m(buf := c)) (buf + 1) cs = written m buf (c # cs)"
proof
  fix a
  show "written (m(buf := c)) (buf + 1) cs a = written m buf (c # cs) a"
  proof (cases "a = buf")
    case True
    have "unat (a - (buf + 1)) = 2 ^ 64 - 1" unfolding True by (simp add: unsigned_minus_1_eq_mask mask_eq_exp_minus_1)
    with assms True show ?thesis by (simp add: written_def)
  next
    case False
    have "1 + (a - (buf + 1)) = a - buf" by simp
    with unatSuc [of "a - (buf + 1)"] False have "unat (a - buf) = Suc (unat (a - (buf + 1)))" by simp
    with False show ?thesis by (simp add: written_def)
  qed
qed

lemma put_all_sbuf:
  "k + int (length cs) \<le> 2147483647 \<Longrightarrow> 0 \<le> k \<Longrightarrow> put_all swrite_sbuf cs (s, k) =
    Inr (s\<lparr>io_mem := written (io_mem s) (io_buf s) cs, io_buf := io_buf s + of_nat (length cs)\<rparr>, k + int (length cs))"
proof (induction cs arbitrary: s k)
  case Nil
  then show ?case by (simp add: written_def)
next
  case (Cons c cs)
  let ?s = "s\<lparr>io_mem := (io_mem s)(io_buf s := c), io_buf := io_buf s + 1\<rparr>"
  have "f_put swrite_sbuf c (s, k) = Inr (?s, k + 1)" using Cons.prems by (simp add: f_put_def add_written_def swrite_sbuf_def)
  moreover have "written ((io_mem s)(io_buf s := c)) (io_buf s + 1) cs = written (io_mem s) (io_buf s) (c # cs)"
    by (rule written_Cons) (use Cons.prems in simp)
  ultimately show ?case using Cons.IH [of "k + 1" ?s] Cons.prems by (simp add: add.assoc del: fun_upd_apply)
qed
section \<open>Texts of simple formats\<close>

text \<open>A string literal as the list of its bytes.\<close>

definition chars :: "string \<Rightarrow> u8 list" where
  "chars = map of_char"

text \<open>Numerals as they are read: without a sign, and with leading zeros up to a width.\<close>

definition numeral_text :: "bool \<Rightarrow> nat \<Rightarrow> nat \<Rightarrow> u8 list" where
  "numeral_text small base n =
     (if n = 0 then [48] else rev (map (\<lambda>k. digit_char small (of_nat k)) (nat_digits base n)))"

definition decimal :: "nat \<Rightarrow> u8 list" where
  "decimal n = numeral_text False 10 n"

definition hex :: "nat \<Rightarrow> u64 \<Rightarrow> u8 list" where
  "hex width n = (let ds = numeral_text False 16 (unat n) in replicate (width - length ds) 48 @ ds)"

lemma num_text_decimal:
  assumes "0 \<le>s n"
  shows "num_text n 10 SIGNED (-1) (-1) = decimal (unat n)"
proof -
  have "\<not> n <s 0" using assms by (simp add: word_sle_eq word_sless_alt)
  then show ?thesis
    by (simp add: num_text_def num_layout_def num_sign_def num_prefix_def num_padding_def decimal_def numeral_text_def
        flag_on_def SIGNED_def SPLUS_def FPLUS_def PREFIX_def ZEROPAD_def LEFT_def SMALL_def unat_eq_0)
qed

lemma num_text_hex:
  assumes "0 < width"
  shows "num_text n 16 ZEROPAD (int width) (-1) = hex width n"
  using assms
  by (simp add: num_text_def num_layout_def num_sign_def num_prefix_def num_padding_def hex_def numeral_text_def Let_def
      flag_on_def SIGNED_def SPLUS_def FPLUS_def PREFIX_def ZEROPAD_def LEFT_def SMALL_def unat_eq_0 nat_minus_as_int)

lemma num_text_hex_plain: "num_text n 16 0 (-1) (-1) = hex 0 n"
  by (simp add: num_text_def num_layout_def num_sign_def num_prefix_def num_padding_def hex_def numeral_text_def Let_def
      flag_on_def SIGNED_def SPLUS_def FPLUS_def PREFIX_def ZEROPAD_def LEFT_def SMALL_def unat_eq_0)

lemma format_text_append:
  assumes "37 \<notin> set xs"
  shows "format_text strs (xs @ fmt) args = map_option ((@) xs) (format_text strs fmt args)"
  using assms by (cases "format_text strs fmt args"; induction xs) auto

lemma format_text_char:
  "c \<noteq> 37 \<Longrightarrow> format_text strs (c # fmt) args = map_option ((#) c) (format_text strs fmt args)"
  by simp

text \<open>The conversions the kernel's messages use.\<close>

lemma format_text_s:
  assumes "strs a = Some cs"
  shows "format_text strs (37 # 115 # fmt) (a # args) = map_option ((@) cs) (format_text strs fmt args)"
  using assms
  by (simp add: spec_text_code parse_width_def parse_percision_def parse_length_def peek_def is_digit_def
      conv_text_def arg_text_def field_text_def)

lemma format_text_d:
  assumes "0 \<le>s a"
  shows "format_text strs (37 # 100 # fmt) (a # args) =
    map_option ((@) (decimal (unat a))) (format_text strs fmt args)"
proof -
  have "a \<noteq> 0x8000000000000000" using assms by (auto simp: word_sle_eq)
  then show ?thesis
  by (simp add: spec_text_code parse_width_def parse_percision_def parse_length_def peek_def is_digit_def
      conv_text_def arg_text_def signed_arg_def num_text_decimal [OF assms])
qed

lemma format_text_lX:
  "format_text strs (37 # 108 # 88 # fmt) (a # args) = map_option ((@) (hex 0 a)) (format_text strs fmt args)"
  by (simp add: spec_text_code parse_width_def parse_percision_def parse_length_def peek_def is_digit_def
      conv_text_def arg_text_def unsigned_arg_def num_text_hex_plain)

lemma format_text_02lX:
  "format_text strs (37 # 48 # 50 # 108 # 88 # fmt) (a # args) = map_option ((@) (hex 2 a)) (format_text strs fmt args)"
  using num_text_hex [of 2 a]
  by (simp add: spec_text_code parse_width_def parse_num_def parse_percision_def parse_length_def peek_def is_digit_def
      conv_text_def arg_text_def unsigned_arg_def)

lemma format_text_016lX:
  "format_text strs (37 # 48 # 49 # 54 # 108 # 88 # fmt) (a # args) =
    map_option ((@) (hex 16 a)) (format_text strs fmt args)"
  using num_text_hex [of 16 a]
  by (simp add: spec_text_code parse_width_def parse_num_def parse_percision_def parse_length_def peek_def is_digit_def
      conv_text_def arg_text_def unsigned_arg_def)

declare format_text.simps(2) [simp del]

lemmas format_text_rules = format_text_char format_text_s format_text_d format_text_lX format_text_02lX format_text_016lX

lemma kerr_text:
  assumes "format_text strs fmt args = Some cs" and "readable strs fuel (io_mem s)" and "length cs < 2 ^ 31"
  shows "kerr fuel fmt args s = Inr (s\<lparr>io_buf := 0, io_com1 := io_com1 s @ cs\<rparr>, int (length cs))"
  unfolding kerr_def using err_text.ssprintf_text [OF assms(1), where fuel = fuel and s = s and buf = 0] assms(2,3)
  by (simp add: put_all_err)

text \<open>Numerals with small letters, and unsigned decimals.\<close>

definition hexl :: "nat \<Rightarrow> u64 \<Rightarrow> u8 list" where
  "hexl width n = (let ds = numeral_text True 16 (unat n) in replicate (width - length ds) 48 @ ds)"

lemmas num_layout_simps = num_text_def num_layout_def num_sign_def num_prefix_def num_padding_def numeral_text_def Let_def
  flag_on_def SIGNED_def SPLUS_def FPLUS_def PREFIX_def ZEROPAD_def LEFT_def SMALL_def unat_eq_0

lemma num_text_hexl: "num_text n 16 (ZEROPAD OR SMALL) 16 (-1) = hexl 16 n" "num_text n 16 SMALL (-1) (-1) = hexl 0 n"
  "num_text n 10 0 (-1) (-1) = decimal (unat n)"
  by (simp_all add: num_layout_simps hexl_def decimal_def nat_minus_as_int)

lemmas spec_simps = spec_text_code parse_width_def parse_num_def parse_percision_def parse_length_def peek_def is_digit_def
  conv_text_def arg_text_def unsigned_arg_def

lemma format_text_016lx:
  "format_text strs (37 # 48 # 49 # 54 # 108 # 120 # fmt) (a # args) = map_option ((@) (hexl 16 a)) (format_text strs fmt args)"
  using num_text_hexl(1) [of a] by (simp add: format_text.simps spec_simps)

lemma format_text_lx:
  "format_text strs (37 # 108 # 120 # fmt) (a # args) = map_option ((@) (hexl 0 a)) (format_text strs fmt args)"
  using num_text_hexl(2) [of a] by (simp add: format_text.simps spec_simps)

lemma format_text_lu:
  "format_text strs (37 # 108 # 117 # fmt) (a # args) = map_option ((@) (decimal (unat a))) (format_text strs fmt args)"
  using num_text_hexl(3) [of a] by (simp add: format_text.simps spec_simps)

lemmas log_rules = format_text_char format_text_s format_text_016lx format_text_lx format_text_lu


text \<open>A text without line ends and zeros; the numerals are such texts.\<close>

definition plain :: "u8 list \<Rightarrow> bool" where
  "plain cs \<longleftrightarrow> 0 \<notin> set cs \<and> 10 \<notin> set cs"

lemma plain_append [simp]: "plain (xs @ ys) \<longleftrightarrow> plain xs \<and> plain ys"
  by (auto simp: plain_def)

lemma plain_numeral: "base \<le> 16 \<Longrightarrow> 2 \<le> base \<Longrightarrow> plain (numeral_text small base n)"
proof -
  assume b: "base \<le> 16" "2 \<le> base"
  have "digit_char small (of_nat k) \<noteq> 0 \<and> digit_char small (of_nat k) \<noteq> 10" if "k < base" for k
  proof -
    have "k \<in> set [0..<16]" using that b(1) by simp
    then show ?thesis by (cases small) (auto simp: upt_rec digit_char_def)
  qed
  then show ?thesis using nat_digits_bound [OF b(2)] by (fastforce simp: plain_def numeral_text_def)
qed

lemma length_numeral: "2 \<le> base \<Longrightarrow> n < 2 ^ 64 \<Longrightarrow> length (numeral_text small base n) \<le> 64"
proof -
  assume b: "2 \<le> base" "n < 2 ^ 64"
  then have "n < base ^ 64" using power_mono [of 2 base 64] by linarith
  then show ?thesis using nat_digits_length [OF b(1)] by (auto simp: numeral_text_def)
qed

lemma unat_u64_less: "unat (a :: u64) < 2 ^ 64"
  using unsigned_less [of a] by simp

lemma length_hex: "w \<le> 16 \<Longrightarrow> length (hex w a) \<le> 16" "length (hex 16 a) = 16"
proof -
  have "unat a < 16 ^ 16" using unat_u64_less [of a] by simp
  then have "length (numeral_text False 16 (unat a)) \<le> 16"
    using nat_digits_length [of 16 "unat a" 16] by (auto simp: numeral_text_def)
  then show "w \<le> 16 \<Longrightarrow> length (hex w a) \<le> 16" "length (hex 16 a) = 16" by (auto simp: hex_def Let_def)
qed

lemma plain_hexl [simp]: "plain (hexl w a)"
  using plain_numeral [of 16 True "unat a"] by (auto simp: hexl_def plain_def Let_def)

lemma plain_decimal [simp]: "plain (decimal n)"
  using plain_numeral [of 10 False n] by (simp add: decimal_def)

lemma length_hexl: "w \<le> 16 \<Longrightarrow> length (hexl w a) \<le> 80"
  using length_numeral [of 16 "unat a" True] unat_u64_less [of a] by (simp add: hexl_def Let_def)

lemma length_decimal: "length (decimal (unat (a :: u64))) \<le> 64"
  using length_numeral [of 10 "unat a" False] unat_u64_less [of a] by (simp add: decimal_def)

text \<open>A text that is one line leaves the buffer at once.\<close>

lemma line_fits: "plain cs \<Longrightarrow> k + length cs \<le> 510 \<Longrightarrow> lines_fit k (cs @ [10])"
  by (induction cs arbitrary: k) (auto simp: plain_def)

lemma line_leaves: "plain cs \<Longrightarrow> line_split b (cs @ [10]) = (b @ cs @ [10], [])"
  by (induction cs arbitrary: b) (auto simp: plain_def)

text \<open>What is on the console after a number of complete lines.\<close>

definition sent :: "u8 list \<Rightarrow> io \<Rightarrow> io" where
  "sent cs io = io\<lparr>io_buf := 0, io_com1 := io_com1 io @ cs\<rparr>"

lemma sent_simps [simp]: "sent bs (sent cs io) = sent (cs @ bs) io" "io_mem (sent cs io) = io_mem io"
  "io_log (sent cs io) = io_log io" "io_out (sent cs io) = io_out io" "io_com1 (sent cs io) = io_com1 io @ cs"
  by (simp_all add: sent_def)

lemma kout_line:
  assumes "format_text strs fmt args = Some (cs @ [10])" and "plain cs" and "length cs \<le> 510"
    and "readable strs fuel (io_mem io)" and "io_out io = []"
  shows "\<exists>n. kout fuel fmt args io = Inr (sent (cs @ [10]) io, n)"
  using out_text.ssprintf_text [OF assms(1), where fuel = fuel and s = io and buf = 0] out_lines.put_all_lines [of "io\<lparr>io_buf := 0\<rparr>" "cs @ [10]" 0]
    line_fits [OF assms(2), of 0] line_leaves [OF assms(2), of "[]"] assms(3-5)
  by (simp add: kout_def sent_def)

text \<open>A memory that holds a table of strings, one every 256 bytes.\<close>

definition table_mem :: "vaddr_t \<Rightarrow> u8 list list \<Rightarrow> mem" where
  "table_mem base ms a =
     (let k = unat (a - base)
      in if k div 256 < length ms \<and> k mod 256 < length (ms ! (k div 256)) then ms ! (k div 256) ! (k mod 256) else 0)"

definition table_strings :: "vaddr_t \<Rightarrow> u8 list list \<Rightarrow> strings" where
  "table_strings base ms p =
     (let k = unat (p - base) in if k mod 256 = 0 \<and> k div 256 < length ms then Some (ms ! (k div 256)) else None)"

lemma table_strings_at:
  assumes "i < length ms" and "length ms \<le> 2 ^ 32"
  shows "table_strings base ms (base + of_nat (256 * i)) = Some (ms ! i)"
proof -
  have "unat (of_nat (256 * i) :: u64) = 256 * i"
    using assms by (subst unat_of_nat) (simp add: take_bit_nat_eq_self del: of_nat_mult)
  then show ?thesis using assms(1) by (simp add: table_strings_def del: of_nat_mult)
qed

text \<open>The address of a literal in such a table.\<close>

definition table_lit :: "vaddr_t \<Rightarrow> string list \<Rightarrow> string \<Rightarrow> vaddr_t" where
  "table_lit base ms msg = base + of_nat (256 * length (takeWhile (\<lambda>m. m \<noteq> msg) ms))"

lemma table_lit_strings:
  assumes "msg \<in> set ms" and "length ms \<le> 2 ^ 32"
  shows "table_strings base (map chars ms) (table_lit base ms msg) = Some (chars msg)"
proof -
  let ?i = "length (takeWhile (\<lambda>m. m \<noteq> msg) ms)"
  have i: "?i < length ms" using assms(1) by (rule index_less_length)
  have "ms ! ?i = msg" using nth_length_takeWhile [OF i] by simp
  then show ?thesis using i assms(2) table_strings_at [of ?i "map chars ms" base] by (simp add: table_lit_def del: of_nat_mult)
qed

lemma table_readable:
  assumes "8 \<le> fuel" and "length ms \<le> 2 ^ 32" and "\<forall>m \<in> set ms. length m < 256 \<and> length m < fuel \<and> 0 \<notin> set m"
  shows "readable (table_strings base ms) fuel (table_mem base ms)"
  unfolding readable_def
proof (intro conjI allI impI)
  fix p cs
  assume "table_strings base ms p = Some cs"
  then obtain i where i: "unat (p - base) = 256 * i" "i < length ms" "cs = ms ! i"
    by (auto simp: table_strings_def Let_def split: if_splits elim!: dvdE [OF iffD2 [OF dvd_eq_mod_eq_0]])
  then have cs: "length cs < 256" "length cs < fuel" "0 \<notin> set cs" using assms(3) nth_mem [OF i(2)] by auto
  have "table_mem base ms (p + of_nat j) = (if j < length cs then cs ! j else 0)" if "j \<le> length cs" for j
  proof -
    have "unat (p - base + of_nat j) = 256 * i + j"
      using i(1,2) assms(2) cs(1) that by (simp add: unat_word_ariths unat_of_nat)
    moreover have "p + of_nat j - base = p - base + of_nat j" by simp
    ultimately have "unat (p + of_nat j - base) = 256 * i + j" by (simp only:)
    moreover have "(256 * i + j) div 256 = i" "(256 * i + j) mod 256 = j" using that cs(1) by simp_all
    ultimately show ?thesis using i(2,3) by (simp add: table_mem_def Let_def)
  qed
  with cs show "stored (table_mem base ms) p cs" by (simp add: stored_def)
  show "length cs < fuel" "length cs < 2147483646" using cs by simp_all
qed (rule assms(1))

section \<open>Properties\<close>

text \<open>A memory that holds the string \<open>pml4\<close> at 0x1000, and a format with its text.\<close>

definition sample_strings :: strings where
  "sample_strings = [0x1000 \<mapsto> [112, 109, 108, 52]]"

definition sample_io :: io where
  "sample_io = quiet_io\<lparr>io_mem := (\<lambda>_. 0)(0x1000 := 112, 0x1001 := 109, 0x1002 := 108, 0x1003 := 52)\<rparr>"

definition sample_format :: "u8 list" where
  "sample_format = [37, 45, 54, 115, 35, 37, 35, 120, 32, 37, 43, 105, 10]"

definition sample_args :: "u64 list" where
  "sample_args = [0x1000, 255, 7]"

definition sample_text :: "u8 list" where
  "sample_text = [112, 109, 108, 52, 32, 32, 35, 48, 120, 102, 102, 32, 43, 55, 10]"

lemma sample_text_eq: "format_text sample_strings sample_format sample_args = Some sample_text"
  by code_simp

lemma sample_readable: "readable sample_strings 10 (io_mem sample_io)"
proof -
  have "stored (io_mem sample_io) 0x1000 [112, 109, 108, 52]" by (simp add: stored_Cons stored_Nil sample_io_def)
  then show ?thesis by (auto simp: readable_def sample_strings_def split: if_splits)
qed

text \<open>
  C5. \<open>kerr\<close> prints exactly the text of the reference semantics, for every format string and
  all arguments that have one of fewer than 2^31 characters (the counter of the code is an
  \<open>int\<close>): the console has received these characters, in this order, and nothing else, the result
  is their number, and memory and the line buffers are unchanged. It terminates and does not
  fault; the strings the arguments point to are in memory, shorter than 2^31 - 2, and the fuel
  exceeds their length. The reference semantics reads flags, width, precision and length of a
  conversion by definitions of its own and lays out numbers and fields as lists of characters.
\<close>

theorem kerr_prints_text:
  assumes "format_text strs fmt args = Some cs" and "readable strs fuel (io_mem s)" and "length cs < 2 ^ 31"
  shows "kerr fuel fmt args s = Inr (s\<lparr>io_buf := 0, io_com1 := io_com1 s @ cs\<rparr>, int (length cs))"
  using assms by (rule kerr_text)

theorem kerr_prints_text_witness:
  "kerr 10 sample_format sample_args sample_io =
    Inr (sample_io\<lparr>io_buf := 0, io_com1 := io_com1 sample_io @ sample_text\<rparr>, 15)"
  using kerr_prints_text [OF sample_text_eq sample_readable] by (simp add: sample_text_def)

text \<open>
  C25. \<open>sprintf\<close> writes exactly the text of the reference semantics into the buffer, when the buffer
  does not touch the strings the arguments point to and the text has fewer than 2^31 characters
  (the counter is an \<open>int\<close>): the bytes from the buffer on are the
  characters of the text, every other byte of the memory keeps its value (so no terminating zero
  is stored), the result is the number of characters and nothing is printed.
\<close>

theorem sprintf_writes_text:
  assumes "format_text strs fmt args = Some cs" and "readable strs fuel (io_mem s)"
    and "clear_of strs buf (length cs)" and "length cs < 2 ^ 31"
  shows "\<exists>s'. vsprintf fuel buf fmt args s = Inr (s', int (length cs)) \<and>
    (\<forall>i < length cs. io_mem s' (buf + of_nat i) = cs ! i) \<and>
    (\<forall>a. unat (a - buf) \<ge> length cs \<longrightarrow> io_mem s' a = io_mem s a) \<and>
    io_com1 s' = io_com1 s \<and> io_out s' = io_out s \<and> io_log s' = io_log s"
proof -
  let ?s' = "s\<lparr>io_mem := written (io_mem s) buf cs, io_buf := buf + of_nat (length cs)\<rparr>"
  have "vsprintf fuel buf fmt args s = Inr (?s', int (length cs))"
    unfolding vsprintf_def using buf_text.ssprintf_text [OF assms(1), where fuel = fuel and s = s and buf = buf] assms(2-4)
    by (simp add: put_all_sbuf)
  moreover have "unat (of_nat i :: u64) = i" if "i < length cs" for i
    using that assms(4) by (simp add: unat_of_nat)
  ultimately show ?thesis by (intro exI [of _ ?s']) (simp add: written_def)
qed

theorem sprintf_writes_text_witness:
  "\<exists>s'. vsprintf 10 0x2000 sample_format sample_args sample_io = Inr (s', 15) \<and> io_mem s' 0x2000 = 112"
proof -
  have "clear_of sample_strings 0x2000 (length sample_text)"
    unfolding clear_of_def
  proof (intro allI impI notI)
    fix p cs i j
    assume "sample_strings p = Some cs" "i \<le> length cs" "j < length sample_text"
      and eq: "p + of_nat i = (0x2000 :: u64) + of_nat j"
    then have "p = 0x1000" "i \<le> 4" "j < 15" by (auto simp: sample_strings_def sample_text_def split: if_splits)
    then have "unat (p + of_nat i) \<le> 0x1004" "0x2000 \<le> unat ((0x2000 :: u64) + of_nat j)"
      by (auto simp: unat_word_ariths unat_of_nat)
    with eq show False by simp
  qed
  from sprintf_writes_text [OF sample_text_eq sample_readable this]
  show ?thesis by (auto simp: sample_text_def dest!: spec [of _ 0])
qed



end
