(* ===== verification/Ebl_Linked_List.thy ===== *)
theory Ebl_Linked_List
  imports Ebl_Util
begin

text \<open>
  \<open>lib/ebl/linked_list.h\<close>: the intrusive, circular, doubly linked list that every other
  component keeps its objects in.

  A node is an address; the two link words of index \<open>i\<close> of every node live in a
  \<open>list_heap\<close>, one function per field. A list is the word \<open>root\<close>. Every dereference of a
  null pointer is the fault \<open>NullDeref\<close>, so the order of the loads and stores of each
  member function is kept. \<open>ilist h r xs\<close> says that the list with root \<open>r\<close> is well formed
  and holds exactly the nodes \<open>xs\<close>, in order; the lemmas show what each operation does to
  \<open>xs\<close> and that it leaves every other node alone. The locale \<open>node_queue\<close> is the contract
  the physical memory manager, the scheduler and the loader rely on.
\<close>

section \<open>Nodes and their links\<close>

record list_heap =
  nexts :: "vaddr_t \<Rightarrow> vaddr_t"
  prevs :: "vaddr_t \<Rightarrow> vaddr_t"

definition get_next :: "list_heap \<Rightarrow> vaddr_t \<Rightarrow> vaddr_t exec" where
  "get_next h p = guardE (p \<noteq> nullptr) NullDeref (Inr (nexts h p))"

definition get_prev :: "list_heap \<Rightarrow> vaddr_t \<Rightarrow> vaddr_t exec" where
  "get_prev h p = guardE (p \<noteq> nullptr) NullDeref (Inr (prevs h p))"

definition set_next :: "list_heap \<Rightarrow> vaddr_t \<Rightarrow> vaddr_t \<Rightarrow> list_heap exec" where
  "set_next h p v = guardE (p \<noteq> nullptr) NullDeref (Inr (h\<lparr>nexts := (nexts h)(p := v)\<rparr>))"

definition set_prev :: "list_heap \<Rightarrow> vaddr_t \<Rightarrow> vaddr_t \<Rightarrow> list_heap exec" where
  "set_prev h p v = guardE (p \<noteq> nullptr) NullDeref (Inr (h\<lparr>prevs := (prevs h)(p := v)\<rparr>))"

lemmas link_defs = get_next_def get_prev_def set_next_def set_prev_def

text \<open>\<open>IntrusiveListNode\<close>: constructor, destructor and the loader's pointer shift.\<close>

definition node_init :: "list_heap \<Rightarrow> vaddr_t \<Rightarrow> list_heap" where
  "node_init h p = h\<lparr>nexts := (nexts h)(p := nullptr), prevs := (prevs h)(p := nullptr)\<rparr>"

definition node_shift :: "list_heap \<Rightarrow> vaddr_t \<Rightarrow> vaddr_t \<Rightarrow> list_heap" where
  "node_shift h p offset =
     h\<lparr>nexts := (nexts h)(p := (if nexts h p \<noteq> 0 then nexts h p + offset else nexts h p)),
       prevs := (prevs h)(p := (if prevs h p \<noteq> 0 then prevs h p + offset else prevs h p))\<rparr>"

definition node_insert_after :: "list_heap \<Rightarrow> vaddr_t \<Rightarrow> vaddr_t \<Rightarrow> list_heap exec" where
  "node_insert_after h this node =
     (if node = nullptr \<or> node = this then Inr h
      else bindE (get_next h this) (\<lambda>n.
           bindE (set_next h node n) (\<lambda>h.
           bindE (set_prev h node this) (\<lambda>h.
           bindE (get_next h this) (\<lambda>n.
           bindE (set_prev h n node) (\<lambda>h.
           set_next h this node))))))"

definition node_insert_before :: "list_heap \<Rightarrow> vaddr_t \<Rightarrow> vaddr_t \<Rightarrow> list_heap exec" where
  "node_insert_before h this node =
     (if node = nullptr \<or> node = this then Inr h
      else bindE (get_prev h this) (\<lambda>p.
           bindE (set_prev h node p) (\<lambda>h.
           bindE (set_next h node this) (\<lambda>h.
           bindE (get_prev h this) (\<lambda>p.
           bindE (set_next h p node) (\<lambda>h.
           set_prev h this node))))))"

section \<open>List operations on raw pointers\<close>

definition empty_list :: "vaddr_t \<Rightarrow> bool" where
  "empty_list root = (root = nullptr)"

definition list_shift :: "vaddr_t \<Rightarrow> vaddr_t \<Rightarrow> vaddr_t" where
  "list_shift root offset = (if root \<noteq> 0 then root + offset else root)"

definition first_unsafe :: "vaddr_t \<Rightarrow> vaddr_t" where
  "first_unsafe root = root"

definition last_unsafe :: "list_heap \<Rightarrow> vaddr_t \<Rightarrow> vaddr_t exec" where
  "last_unsafe h root = (if root = nullptr then Inr nullptr else get_prev h root)"

definition insert_before_unsafe :: "list_heap \<Rightarrow> vaddr_t \<Rightarrow> vaddr_t \<Rightarrow> list_heap exec" where
  "insert_before_unsafe h node new_node =
     (if node = nullptr \<or> new_node = nullptr \<or> node = new_node then Inr h
      else bindE (get_prev h node) (\<lambda>p.
           bindE (set_next h p new_node) (\<lambda>h.
           bindE (get_prev h node) (\<lambda>p.
           bindE (set_prev h new_node p) (\<lambda>h.
           bindE (set_next h new_node node) (\<lambda>h.
           set_prev h node new_node))))))"

definition remove_unsafe ::
  "list_heap \<Rightarrow> vaddr_t \<Rightarrow> vaddr_t \<Rightarrow> (list_heap \<times> vaddr_t) exec" where
  "remove_unsafe h root node =
     (if node = nullptr then Inr (h, root)
      else bindE (if node = root then get_next h root else Inr root) (\<lambda>root.
           bindE (get_prev h node) (\<lambda>p.
           bindE (get_next h node) (\<lambda>n.
           bindE (set_next h p n) (\<lambda>h.
           bindE (get_next h node) (\<lambda>n.
           bindE (get_prev h node) (\<lambda>p.
           bindE (set_prev h n p) (\<lambda>h.
           bindE (set_prev h node nullptr) (\<lambda>h.
           bindE (set_next h node nullptr) (\<lambda>h.
           Inr (h, root)))))))))))"

definition push_front_unsafe ::
  "list_heap \<Rightarrow> vaddr_t \<Rightarrow> vaddr_t \<Rightarrow> (list_heap \<times> vaddr_t) exec" where
  "push_front_unsafe h root node =
     (if root = nullptr
      then bindE (set_prev h node node) (\<lambda>h.
           bindE (set_next h node node) (\<lambda>h. Inr (h, node)))
      else bindE (insert_before_unsafe h root node) (\<lambda>h. Inr (h, node)))"

definition push_back_unsafe ::
  "list_heap \<Rightarrow> vaddr_t \<Rightarrow> vaddr_t \<Rightarrow> (list_heap \<times> vaddr_t) exec" where
  "push_back_unsafe h root node =
     (if root = nullptr
      then bindE (set_prev h node node) (\<lambda>h.
           bindE (set_next h node node) (\<lambda>h. Inr (h, node)))
      else bindE (insert_before_unsafe h root node) (\<lambda>h. Inr (h, root)))"

definition pop_front_unsafe ::
  "list_heap \<Rightarrow> vaddr_t \<Rightarrow> (list_heap \<times> vaddr_t \<times> vaddr_t) exec" where
  "pop_front_unsafe h root =
     (let node = root in
      if root = nullptr then Inr (h, root, nullptr)
      else bindE (get_next h root) (\<lambda>n.
        if n = root then Inr (h, nullptr, node)
        else bindE (remove_unsafe h n node) (\<lambda>(h, root). Inr (h, root, node))))"

definition pop_back_unsafe ::
  "list_heap \<Rightarrow> vaddr_t \<Rightarrow> (list_heap \<times> vaddr_t \<times> vaddr_t) exec" where
  "pop_back_unsafe h root =
     bindE (get_prev h root) (\<lambda>node.
       if root = nullptr then Inr (h, root, nullptr)
       else if root = node then Inr (h, nullptr, node)
       else bindE (remove_unsafe h root node) (\<lambda>(h, root).
            Inr (h, (if node = root then nullptr else root), node)))"

text \<open>\<open>IntrusiveList<T>\<close>: the public operations on plain pointers.\<close>

definition list_remove ::
  "list_heap \<Rightarrow> vaddr_t \<Rightarrow> vaddr_t \<Rightarrow> (list_heap \<times> vaddr_t \<times> vaddr_t) exec" where
  "list_remove h root node =
     bindE (remove_unsafe h root node) (\<lambda>(h, root). Inr (h, root, node))"

definition list_insert_before ::
  "list_heap \<Rightarrow> vaddr_t \<Rightarrow> vaddr_t \<Rightarrow> vaddr_t \<Rightarrow> (list_heap \<times> vaddr_t) exec" where
  "list_insert_before h root inspt node =
     bindE (insert_before_unsafe h inspt node) (\<lambda>h.
       Inr (h, if inspt = root then node else root))"

section \<open>Iteration\<close>

record iterator =
  it_list :: vaddr_t
  it_flag :: bool

definition list_begin :: "vaddr_t \<Rightarrow> iterator" where
  "list_begin root = \<lparr>it_list = root, it_flag = False\<rparr>"

definition list_end :: "vaddr_t \<Rightarrow> iterator" where
  "list_end root = \<lparr>it_list = root, it_flag = (root \<noteq> nullptr)\<rparr>"

definition it_incr :: "list_heap \<Rightarrow> iterator \<Rightarrow> iterator exec" where
  "it_incr h it =
     bindE (get_next h (it_list it)) (\<lambda>n. Inr \<lparr>it_list = n, it_flag = True\<rparr>)"

text \<open>
  A range-based \<open>for\<close> over a list: the body sees the node and the accumulated state and
  says whether the loop goes on (\<open>False\<close> is a \<open>return\<close> or \<open>break\<close> in the body). The second
  component of the result tells whether the loop ran to its end.
\<close>

fun for_nodes ::
  "nat \<Rightarrow> list_heap \<Rightarrow> iterator \<Rightarrow> iterator \<Rightarrow> (vaddr_t \<Rightarrow> 'b \<Rightarrow> ('b \<times> bool) exec) \<Rightarrow> 'b
     \<Rightarrow> ('b \<times> bool) exec" where
  "for_nodes 0 h it e body acc = Inl OutOfFuel"
| "for_nodes (Suc fuel) h it e body acc =
     (if it = e then Inr (acc, True)
      else bindE (body (it_list it) acc) (\<lambda>(acc, go_on).
        if go_on
        then bindE (it_incr h it) (\<lambda>it. for_nodes fuel h it e body acc)
        else Inr (acc, False)))"

definition list_size :: "nat \<Rightarrow> list_heap \<Rightarrow> vaddr_t \<Rightarrow> u64 exec" where
  "list_size fuel h root =
     bindE (for_nodes fuel h (list_begin root) (list_end root)
              (\<lambda>_ size. Inr (size + 1, True)) 0) (\<lambda>(size, _). Inr size)"

section \<open>Well-formed lists\<close>

text \<open>\<open>seg h xs\<close>: consecutive elements of \<open>xs\<close> are linked in both directions.\<close>

fun seg :: "list_heap \<Rightarrow> vaddr_t list \<Rightarrow> bool" where
  "seg h (x # y # zs) \<longleftrightarrow> nexts h x = y \<and> prevs h y = x \<and> seg h (y # zs)"
| "seg h _ \<longleftrightarrow> True"

definition cyc :: "list_heap \<Rightarrow> vaddr_t list \<Rightarrow> bool" where
  "cyc h xs \<longleftrightarrow> xs \<noteq> [] \<and> seg h (xs @ [hd xs])"

definition ilist :: "list_heap \<Rightarrow> vaddr_t \<Rightarrow> vaddr_t list \<Rightarrow> bool" where
  "ilist h root xs \<longleftrightarrow> distinct xs \<and> nullptr \<notin> set xs \<and>
     (if xs = [] then root = nullptr else root = hd xs \<and> cyc h xs)"

definition same_links :: "vaddr_t set \<Rightarrow> list_heap \<Rightarrow> list_heap \<Rightarrow> bool" where
  "same_links A h h' \<longleftrightarrow> (\<forall>p. p \<notin> A \<longrightarrow> nexts h' p = nexts h p \<and> prevs h' p = prevs h p)"

lemma seg_append: "seg h (xs @ y # zs) \<longleftrightarrow> seg h (xs @ [y]) \<and> seg h (y # zs)"
proof (induction xs)
  case Nil
  then show ?case by simp
next
  case (Cons x xs)
  then show ?case by (cases xs) auto
qed

lemma seg_cong:
  assumes "\<And>p. p \<in> set (butlast xs) \<Longrightarrow> nexts h' p = nexts h p"
    and "\<And>p. p \<in> set (tl xs) \<Longrightarrow> prevs h' p = prevs h p"
  shows "seg h' xs = seg h xs"
  using assms
proof (induction h xs rule: seg.induct)
  case (1 h x y zs)
  then show ?case by (cases zs) auto
qed auto

lemma cyc_rotate: "cyc h (us @ x # vs) \<longleftrightarrow> cyc h (x # vs @ us)"
proof (cases us)
  case Nil
  then show ?thesis by simp
next
  case (Cons u us')
  have "cyc h (us @ x # vs) \<longleftrightarrow> seg h (us @ [x]) \<and> seg h (x # vs @ [u])"
    using Cons seg_append [of h us x "vs @ [u]"] by (simp add: cyc_def)
  moreover have "cyc h (x # vs @ us) \<longleftrightarrow> seg h (x # vs @ [u]) \<and> seg h (us @ [x])"
    using Cons seg_append [of h "x # vs" u "us' @ [x]"] by (simp add: cyc_def)
  ultimately show ?thesis by blast
qed

lemma same_links_refl [simp]: "same_links A h h"
  by (simp add: same_links_def)

lemma same_links_trans:
  "same_links A h h' \<Longrightarrow> same_links B h' h'' \<Longrightarrow> same_links (A \<union> B) h h''"
  by (simp add: same_links_def)

lemma same_links_mono: "same_links A h h' \<Longrightarrow> A \<subseteq> B \<Longrightarrow> same_links B h h'"
  by (auto simp: same_links_def)

lemma cyc_frame:
  assumes "same_links A h h'" and "A \<inter> set xs = {}"
  shows "cyc h' xs = cyc h xs"
proof (cases xs)
  case Nil
  then show ?thesis by (simp add: cyc_def)
next
  case (Cons x ys)
  have "seg h' (x # ys @ [x]) = seg h (x # ys @ [x])"
    using assms Cons
    by (intro seg_cong) (auto simp: same_links_def list_facts)
  with Cons show ?thesis by (simp add: cyc_def)
qed

lemma ilist_frame:
  assumes "ilist h r xs" and "same_links A h h'" and "A \<inter> set xs = {}"
  shows "ilist h' r xs"
  using assms cyc_frame [OF assms(2,3)] by (simp add: ilist_def)

section \<open>Each operation on a well-formed list\<close>

lemma cyc_snoc:
  assumes "x # zs = bs @ [l]"
  shows "cyc h (x # zs) \<longleftrightarrow> seg h (bs @ [l]) \<and> nexts h l = x \<and> prevs h x = l"
proof -
  have "x # zs @ [x] = bs @ l # [x]"
    using arg_cong [where f = "\<lambda>ys. ys @ [x]", OF assms] by simp
  moreover have "cyc h (x # zs) \<longleftrightarrow> seg h (x # zs @ [x])"
    by (simp add: cyc_def)
  ultimately have "cyc h (x # zs) \<longleftrightarrow> seg h (bs @ l # [x])"
    by (simp only:)
  then show ?thesis
    using seg_append [of h bs l "[x]"] by simp
qed

lemma cyc_ends:
  assumes "cyc h (x # zs)"
  shows "prevs h x = last (x # zs)" and "nexts h (last (x # zs)) = x"
    and "nexts h x = hd (zs @ [x])" and "prevs h (hd (zs @ [x])) = x"
proof -
  have "x # zs = butlast (x # zs) @ [last (x # zs)]"
    by (rule append_butlast_last_id [symmetric]) simp
  from cyc_snoc [OF this] assms
  show "prevs h x = last (x # zs)" and "nexts h (last (x # zs)) = x"
    by blast+
  show "nexts h x = hd (zs @ [x])" and "prevs h (hd (zs @ [x])) = x"
    using assms by (cases zs; simp add: cyc_def)+
qed

lemma insert_before_cyc:
  assumes cyc: "cyc h (x # zs)" and dist: "distinct (x # zs)" and nz: "nullptr \<notin> set (x # zs)"
    and new: "n \<notin> set (x # zs)" "n \<noteq> nullptr"
  shows "\<exists>h'. insert_before_unsafe h x n = Inr h' \<and> cyc h' (x # zs @ [n]) \<and>
    same_links (insert n (set (x # zs))) h h'"
proof -
  define l bs where "l = last (x # zs)" and "bs = butlast (x # zs)"
  have xs: "x # zs = bs @ [l]" by (simp add: l_def bs_def)
  have l_in: "l \<in> set (x # zs)" unfolding l_def by (rule last_in_set) simp
  have l_ne: "l \<noteq> n" "l \<noteq> nullptr" using l_in new nz by metis+
  have l_bs: "l \<notin> set bs" using dist unfolding xs by simp
  define h' where "h' = h\<lparr>nexts := (nexts h)(l := n, n := x), prevs := (prevs h)(n := l, x := n)\<rparr>"
  have ins: "insert_before_unsafe h x n = Inr h'"
    using cyc_ends(1) [OF cyc] nz new l_ne
    by (auto simp: insert_before_unsafe_def link_defs h'_def l_def fun_upd_twist)
  have "seg h' (bs @ [l]) = seg h (bs @ [l])"
  proof (rule seg_cong)
    fix p assume "p \<in> set (butlast (bs @ [l]))"
    then have "p \<in> set (x # zs)" "p \<noteq> l" using l_bs xs by auto
    then show "nexts h' p = nexts h p" using new by (auto simp: h'_def)
  next
    fix p assume "p \<in> set (tl (bs @ [l]))"
    then have "p \<in> set zs" using xs by (metis list.sel(3))
    then show "prevs h' p = prevs h p" using new dist by (auto simp: h'_def)
  qed
  moreover have "seg h (bs @ [l])"
    using cyc cyc_snoc [OF xs] by blast
  moreover have "seg h' (l # [n])" "nexts h' n = x" "prevs h' x = n"
    using l_ne new by (auto simp: h'_def)
  ultimately have "seg h' (bs @ l # [n])" "nexts h' n = x" "prevs h' x = n"
    using seg_append by blast+
  moreover have "x # zs @ [n] = (bs @ [l]) @ [n]"
    using arg_cong [where f = "\<lambda>ys. ys @ [n]", OF xs] by simp
  ultimately have "cyc h' (x # zs @ [n])"
    using cyc_snoc [of x "zs @ [n]" "bs @ [l]" n h'] by simp
  moreover have "same_links (insert n (set (x # zs))) h h'"
    using l_in by (auto simp: same_links_def h'_def)
  ultimately show ?thesis using ins by blast
qed

lemma remove_cyc:
  assumes cyc: "cyc h (x # zs)" and dist: "distinct (x # zs)" and nz: "nullptr \<notin> set (x # zs)"
    and ne: "zs \<noteq> []"
  shows "\<exists>h'. remove_unsafe h r x = Inr (h', if x = r then hd zs else r) \<and> cyc h' zs \<and>
    nexts h' x = nullptr \<and> prevs h' x = nullptr \<and> same_links (set (x # zs)) h h'"
proof -
  define l bs where "l = last zs" and "bs = butlast zs"
  define y ws where "y = hd zs" and "ws = tl zs"
  have zs: "zs = bs @ [l]" "zs = y # ws" using ne by (simp_all add: l_def bs_def y_def ws_def)
  have mem: "l \<in> set zs" "y \<in> set zs" using ne by (simp_all add: l_def y_def)
  have x_ne: "l \<noteq> x" "y \<noteq> x" "x \<noteq> nullptr" "l \<noteq> nullptr" "y \<noteq> nullptr"
    using mem dist nz by auto
  have y_ws: "y \<notin> set ws" using dist zs(2) by (metis distinct.simps(2))
  have l_bs: "l \<notin> set bs" using dist zs(1) by simp
  have ends: "prevs h x = l" "nexts h l = x" "nexts h x = y" "prevs h y = x"
    using cyc_ends [OF cyc] ne by (simp_all add: l_def y_def)
  define h' where
    "h' = h\<lparr>nexts := (nexts h)(l := y, x := nullptr), prevs := (prevs h)(y := l, x := nullptr)\<rparr>"
  have rem: "remove_unsafe h r x = Inr (h', if x = r then hd zs else r)"
    using ends x_ne by (auto simp: remove_unsafe_def link_defs h'_def y_def)
  have "seg h' (bs @ [l]) = seg h (bs @ [l])"
  proof (rule seg_cong)
    fix p assume "p \<in> set (butlast (bs @ [l]))"
    then have "p \<in> set zs" "p \<noteq> l" using l_bs zs(1) by auto
    then show "nexts h' p = nexts h p" using dist by (auto simp: h'_def)
  next
    fix p assume "p \<in> set (tl (bs @ [l]))"
    then have "p \<in> set ws" using zs by (metis list.sel(3))
    then have "p \<in> set zs" "p \<noteq> y" using y_ws zs(2) by auto
    then show "prevs h' p = prevs h p" using dist by (auto simp: h'_def)
  qed
  moreover have "seg h (zs @ [x])"
    using cyc ne by (cases zs) (simp_all add: cyc_def)
  then have "seg h (bs @ [l])"
    using seg_append [of h bs l "[x]"] zs(1) by simp
  moreover have "seg h' (l # [y])"
    using x_ne by (auto simp: h'_def)
  ultimately have "seg h' (bs @ l # [y])"
    using seg_append by blast
  then have "cyc h' (y # ws)"
    using cyc_snoc [of y ws bs l h'] zs seg_append [of h' bs l "[y]"] by simp
  then have "cyc h' zs" using zs(2) by simp
  moreover have "same_links (set (x # zs)) h h'"
    using mem by (auto simp: same_links_def h'_def)
  moreover have "nexts h' x = nullptr" "prevs h' x = nullptr"
    by (simp_all add: h'_def)
  ultimately show ?thesis using rem by blast
qed

lemma ilist_Nil [simp]: "ilist h r [] \<longleftrightarrow> r = nullptr"
  by (simp add: ilist_def)

lemma ilist_Cons: "ilist h r (x # xs) \<longleftrightarrow>
    r = x \<and> distinct (x # xs) \<and> nullptr \<notin> set (x # xs) \<and> cyc h (x # xs)"
  by (auto simp: ilist_def)

lemma ilist_nullptr: "ilist h r xs \<Longrightarrow> r = nullptr \<longleftrightarrow> xs = []"
  by (cases xs) (auto simp: ilist_Cons)

lemma empty_list_ilist: "ilist h r xs \<Longrightarrow> empty_list r \<longleftrightarrow> xs = []"
  by (simp add: empty_list_def ilist_nullptr)

lemma cyc_single: "cyc h [x] \<longleftrightarrow> nexts h x = x \<and> prevs h x = x"
  by (auto simp: cyc_def)

lemma push_back_ilist:
  assumes "ilist h r xs" and "n \<notin> set xs" and "n \<noteq> nullptr"
  shows "\<exists>h' r'. push_back_unsafe h r n = Inr (h', r') \<and> ilist h' r' (xs @ [n]) \<and>
    same_links (insert n (set xs)) h h'"
proof (cases xs)
  case Nil
  with assms show ?thesis
    by (auto simp: push_back_unsafe_def link_defs ilist_Cons cyc_single same_links_def)
next
  case (Cons x zs)
  then have x: "r = x" "cyc h (x # zs)" "distinct (x # zs)" "nullptr \<notin> set (x # zs)"
    using assms(1) by (auto simp: ilist_Cons)
  obtain h' where "insert_before_unsafe h x n = Inr h'" "cyc h' (x # zs @ [n])"
    "same_links (insert n (set (x # zs))) h h'"
    using insert_before_cyc [OF x(2-4)] assms(2,3) Cons by blast
  with x assms Cons show ?thesis
    by (auto simp: push_back_unsafe_def ilist_Cons)
qed

lemma insert_before_ilist:
  assumes "ilist h r (us @ x # vs)" and "n \<notin> set (us @ x # vs)" and "n \<noteq> nullptr"
  shows "\<exists>h'. insert_before_unsafe h x n = Inr h' \<and> cyc h' (us @ n # x # vs) \<and>
    same_links (insert n (set (us @ x # vs))) h h'"
proof -
  have "cyc h (x # vs @ us)" and "distinct (x # vs @ us)" and "nullptr \<notin> set (x # vs @ us)"
    using assms(1) cyc_rotate [of h us x vs] by (auto simp: ilist_def)
  moreover have "n \<notin> set (x # vs @ us)" using assms(2) by auto
  ultimately obtain h' where h': "insert_before_unsafe h x n = Inr h'"
    "cyc h' (x # (vs @ us) @ [n])" "same_links (insert n (set (x # vs @ us))) h h'"
    using insert_before_cyc assms(3) by blast
  have "cyc h' ((x # vs) @ us @ [n])" using h'(2) by simp
  then have "cyc h' (us @ n # x # vs)"
    using cyc_rotate [of h' "us" n "x # vs"] cyc_rotate [of h' "x # vs @ us" n "[]"] by simp
  then show ?thesis
    using h'(1,3) by (simp only: set_rotated) blast
qed

lemma list_insert_before_ilist:
  assumes "ilist h r (us @ x # vs)" and "n \<notin> set (us @ x # vs)" and "n \<noteq> nullptr"
  shows "\<exists>h' r'. list_insert_before h r x n = Inr (h', r') \<and> ilist h' r' (us @ n # x # vs) \<and>
    same_links (insert n (set (us @ x # vs))) h h'"
proof -
  obtain h' where "insert_before_unsafe h x n = Inr h'" "cyc h' (us @ n # x # vs)"
    "same_links (insert n (set (us @ x # vs))) h h'"
    using insert_before_ilist [OF assms] by blast
  then show ?thesis
    using assms by (cases us) (auto simp: list_insert_before_def ilist_def)
qed

lemma push_front_ilist:
  assumes "ilist h r xs" and "n \<notin> set xs" and "n \<noteq> nullptr"
  shows "\<exists>h' r'. push_front_unsafe h r n = Inr (h', r') \<and> ilist h' r' (n # xs) \<and>
    same_links (insert n (set xs)) h h'"
proof (cases xs)
  case Nil
  with assms show ?thesis
    by (auto simp: push_front_unsafe_def link_defs ilist_Cons cyc_single same_links_def)
next
  case (Cons x zs)
  then have "r = x" "ilist h r ([] @ x # zs)" using assms(1) by (auto simp: ilist_Cons)
  then show ?thesis
    using list_insert_before_ilist [of h r "[]" x zs n] assms Cons
    by (auto simp: push_front_unsafe_def list_insert_before_def exec_simps ilist_nullptr)
qed

lemma pop_front_ilist:
  assumes "ilist h r (x # xs)"
  shows "\<exists>h' r'. pop_front_unsafe h r = Inr (h', r', x) \<and> ilist h' r' xs \<and>
    same_links (set (x # xs)) h h'"
proof (cases xs)
  case Nil
  with assms show ?thesis
    by (auto simp: pop_front_unsafe_def link_defs ilist_Cons cyc_single)
next
  case (Cons y ys)
  have x: "r = x" "cyc h (x # xs)" "distinct (x # xs)" "nullptr \<notin> set (x # xs)"
    using assms by (auto simp: ilist_Cons)
  obtain h' where "remove_unsafe h y x = Inr (h', if x = y then hd xs else y)" "cyc h' xs"
    "same_links (set (x # xs)) h h'"
    using remove_cyc [OF x(2-4), of y] Cons by blast
  moreover have "nexts h x = y" using cyc_ends(3) [OF x(2)] Cons by simp
  ultimately show ?thesis
    using x Cons by (auto simp: pop_front_unsafe_def link_defs ilist_Cons)
qed

lemma pop_front_empty: "pop_front_unsafe h nullptr = Inr (h, nullptr, nullptr)"
  by (simp add: pop_front_unsafe_def)

lemma remove_ilist:
  assumes "ilist h r (us @ x # vs)" and "us @ vs \<noteq> []"
  shows "\<exists>h' r'. remove_unsafe h r x = Inr (h', r') \<and> ilist h' r' (us @ vs) \<and>
    nexts h' x = nullptr \<and> prevs h' x = nullptr \<and> same_links (set (us @ x # vs)) h h'"
proof -
  have *: "cyc h (x # vs @ us)" "distinct (x # vs @ us)" "nullptr \<notin> set (x # vs @ us)"
    using assms(1) cyc_rotate [of h us x vs] by (auto simp: ilist_def)
  have "vs @ us \<noteq> []" using assms(2) by auto
  from remove_cyc [OF * this, of r]
  obtain h' where h': "remove_unsafe h r x = Inr (h', if x = r then hd (vs @ us) else r)"
    "cyc h' (vs @ us)" "nexts h' x = nullptr" "prevs h' x = nullptr"
    "same_links (set (x # vs @ us)) h h'"
    by blast
  have cyc': "cyc h' (us @ vs)"
  proof (cases us)
    case (Cons u us')
    then show ?thesis using h'(2) cyc_rotate [of h' vs u us'] by simp
  qed (use h'(2) in simp)
  have "x = r \<longleftrightarrow> us = []" using assms(1) by (cases us) (auto simp: ilist_def)
  then have "ilist h' (if x = r then hd (vs @ us) else r) (us @ vs)"
    using assms cyc' by (cases us) (auto simp: ilist_def)
  with h' show ?thesis by (simp only: set_rotated) blast
qed

lemma pop_back_ilist:
  assumes "ilist h r (xs @ [x])"
  shows "\<exists>h' r'. pop_back_unsafe h r = Inr (h', r', x) \<and> ilist h' r' xs \<and>
    same_links (set (x # xs)) h h'"
proof (cases xs)
  case Nil
  with assms show ?thesis
    by (auto simp: pop_back_unsafe_def link_defs ilist_Cons cyc_single)
next
  case (Cons y ys)
  obtain h' r' where h': "remove_unsafe h r x = Inr (h', r')" "ilist h' r' xs"
    "same_links (set (xs @ [x])) h h'"
    using remove_ilist [of h r xs x "[]"] assms Cons by auto
  have "r = y" "y \<noteq> nullptr" "y \<noteq> x" "prevs h y = x"
    using assms Cons cyc_ends(1) [of h y "ys @ [x]"] by (auto simp: ilist_Cons)
  moreover have "r' = y" using h'(2) Cons by (simp add: ilist_Cons)
  ultimately show ?thesis
    using h' by (auto simp: pop_back_unsafe_def link_defs intro: same_links_mono)
qed

text \<open>
  Removing the only element: \<open>root = root->next\<close> is the removed node itself, so the list
  keeps a root whose links are null.
\<close>

lemma remove_single:
  assumes "ilist h r [x]"
  shows "\<exists>h'. remove_unsafe h r x = Inr (h', x) \<and> nexts h' x = nullptr \<and> prevs h' x = nullptr"
  using assms by (auto simp: ilist_Cons cyc_single remove_unsafe_def link_defs)

section \<open>Iteration visits the elements in order\<close>

fun fold_nodes :: "('n \<Rightarrow> 'b \<Rightarrow> ('b \<times> bool) exec) \<Rightarrow> 'n list \<Rightarrow> 'b \<Rightarrow> ('b \<times> bool) exec" where
  "fold_nodes body [] acc = Inr (acc, True)"
| "fold_nodes body (x # xs) acc =
     bindE (body x acc) (\<lambda>(acc, go_on). if go_on then fold_nodes body xs acc else Inr (acc, False))"

lemma for_nodes_tail:
  assumes "seg h (ys @ [r])" and "r \<notin> set ys" and "nullptr \<notin> set ys" and "length ys < fuel"
  shows "for_nodes fuel h \<lparr>it_list = hd (ys @ [r]), it_flag = True\<rparr>
           \<lparr>it_list = r, it_flag = True\<rparr> body acc = fold_nodes body ys acc"
  using assms
proof (induction ys arbitrary: fuel acc)
  case Nil
  then show ?case by (cases fuel) simp_all
next
  case (Cons y ys)
  obtain fuel' where fuel: "fuel = Suc fuel'" using Cons.prems(4) by (cases fuel) auto
  have seg: "seg h (ys @ [r])" and nxt: "nexts h y = hd (ys @ [r])"
    using Cons.prems(1) by (cases ys; simp)+
  have IH: "for_nodes fuel' h \<lparr>it_list = hd (ys @ [r]), it_flag = True\<rparr>
           \<lparr>it_list = r, it_flag = True\<rparr> body acc' = fold_nodes body ys acc'" for acc'
    by (rule Cons.IH [OF seg]) (use Cons.prems fuel in auto)
  show ?case
    using Cons.prems nxt
    by (auto simp: fuel it_incr_def link_defs IH intro!: bindE_cong split: prod.splits)
qed

lemma for_nodes_ilist:
  assumes "ilist h r xs" and "length xs < fuel"
  shows "for_nodes fuel h (list_begin r) (list_end r) body acc = fold_nodes body xs acc"
proof (cases xs)
  case Nil
  with assms show ?thesis
    by (cases fuel) (simp_all add: list_begin_def list_end_def)
next
  case (Cons x ys)
  obtain fuel' where fuel: "fuel = Suc fuel'" using assms(2) by (cases fuel) auto
  have x: "r = x" "seg h (x # ys @ [x])" "x \<notin> set ys" "nullptr \<notin> set (x # ys)"
    using assms(1) Cons by (auto simp: ilist_Cons cyc_def)
  have seg: "seg h (ys @ [x])" and nxt: "nexts h x = hd (ys @ [x])"
    using x(2) by (cases ys; simp)+
  have tail: "for_nodes fuel' h \<lparr>it_list = hd (ys @ [x]), it_flag = True\<rparr>
           \<lparr>it_list = x, it_flag = True\<rparr> body acc' = fold_nodes body ys acc'" for acc'
    by (rule for_nodes_tail [OF seg]) (use x Cons fuel assms(2) in auto)
  show ?thesis
    using x nxt Cons
    by (auto simp: fuel list_begin_def list_end_def it_incr_def link_defs tail
        intro!: bindE_cong split: prod.splits)
qed

lemma fold_nodes_count:
  "fold_nodes (\<lambda>_ size. Inr (size + 1, True)) xs (n :: u64) = Inr (n + of_nat (length xs), True)"
  by (induction xs arbitrary: n) (simp_all add: algebra_simps)

lemma list_size_ilist:
  assumes "ilist h r xs" and "length xs < fuel"
  shows "list_size fuel h r = Inr (of_nat (length xs))"
  by (simp add: list_size_def for_nodes_ilist [OF assms] fold_nodes_count)

section \<open>The queue contract of a list\<close>

text \<open>
  What a client of \<open>IntrusiveList\<close> relies on: the operations act on the represented
  sequence, and they touch the links of no node outside the list and the node pushed, so
  that a list disjoint from it survives unchanged.
\<close>

locale node_queue =
  fixes repr :: "'h \<Rightarrow> 'r \<Rightarrow> 'n list \<Rightarrow> bool"
    and push_front push_back :: "'h \<Rightarrow> 'r \<Rightarrow> 'n \<Rightarrow> ('h \<times> 'r) exec"
    and pop_front :: "'h \<Rightarrow> 'r \<Rightarrow> ('h \<times> 'r \<times> 'n) exec"
    and valid :: "'n \<Rightarrow> bool"
    and untouched :: "'n set \<Rightarrow> 'h \<Rightarrow> 'h \<Rightarrow> bool"
  assumes push_front: "repr h r xs \<Longrightarrow> n \<notin> set xs \<Longrightarrow> valid n \<Longrightarrow>
      \<exists>h' r'. push_front h r n = Inr (h', r') \<and> repr h' r' (n # xs) \<and>
        untouched (insert n (set xs)) h h'"
    and push_back: "repr h r xs \<Longrightarrow> n \<notin> set xs \<Longrightarrow> valid n \<Longrightarrow>
      \<exists>h' r'. push_back h r n = Inr (h', r') \<and> repr h' r' (xs @ [n]) \<and>
        untouched (insert n (set xs)) h h'"
    and pop_front: "repr h r (x # xs) \<Longrightarrow>
      \<exists>h' r'. pop_front h r = Inr (h', r', x) \<and> repr h' r' xs \<and>
        untouched (set (x # xs)) h h'"
    and elements: "repr h r xs \<Longrightarrow> distinct xs \<and> (\<forall>x \<in> set xs. valid x)"
    and frame: "repr h r xs \<Longrightarrow> untouched A h h' \<Longrightarrow> A \<inter> set xs = {} \<Longrightarrow> repr h' r xs"
    and untouched_trans: "untouched A h h' \<Longrightarrow> untouched B h' h'' \<Longrightarrow> untouched (A \<union> B) h h''"
    and untouched_mono: "untouched A h h' \<Longrightarrow> A \<subseteq> B \<Longrightarrow> untouched B h h'"
begin

lemma pop_other:
  assumes "repr h r (x # xs)" and "repr h s ys" and "set (x # xs) \<inter> set ys = {}"
  shows "\<exists>h' r'. pop_front h r = Inr (h', r', x) \<and> repr h' r' xs \<and> repr h' s ys \<and>
    x \<notin> set ys \<and> x \<notin> set xs \<and> valid x \<and> untouched (set (x # xs)) h h'"
proof -
  obtain h' r' where "pop_front h r = Inr (h', r', x)" "repr h' r' xs"
    "untouched (set (x # xs)) h h'"
    using pop_front [OF assms(1)] by blast
  with frame [OF assms(2)] assms(3) elements [OF assms(1)] show ?thesis
    by auto
qed

lemma move_to_back:
  assumes "repr h r (x # xs)" and "repr h s ys" and "set (x # xs) \<inter> set ys = {}"
  shows "\<exists>h' r' h'' s'. pop_front h r = Inr (h', r', x) \<and> push_back h' s x = Inr (h'', s') \<and>
    repr h'' r' xs \<and> repr h'' s' (ys @ [x]) \<and> untouched (set (x # xs) \<union> set ys) h h''"
proof -
  obtain h' r' where 1: "pop_front h r = Inr (h', r', x)" "repr h' r' xs" "repr h' s ys"
    "x \<notin> set ys" "x \<notin> set xs" "valid x" "untouched (set (x # xs)) h h'"
    using pop_other [OF assms] by blast
  obtain h'' s' where 2: "push_back h' s x = Inr (h'', s')" "repr h'' s' (ys @ [x])"
    "untouched (insert x (set ys)) h' h''"
    using push_back [OF 1(3,4,6)] by blast
  have "insert x (set ys) \<inter> set xs = {}" using 1(5) assms(3) by auto
  then have "repr h'' r' xs" by (rule frame [OF 1(2) 2(3)])
  moreover have "untouched (set (x # xs) \<union> set ys) h h''"
    by (rule untouched_mono [OF untouched_trans [OF 1(7) 2(3)]]) auto
  ultimately show ?thesis using 1 2 by blast
qed

lemma move_to_front:
  assumes "repr h r (x # xs)" and "repr h s ys" and "set (x # xs) \<inter> set ys = {}"
  shows "\<exists>h' r' h'' s'. pop_front h r = Inr (h', r', x) \<and> push_front h' s x = Inr (h'', s') \<and>
    repr h'' r' xs \<and> repr h'' s' (x # ys) \<and> untouched (set (x # xs) \<union> set ys) h h''"
proof -
  obtain h' r' where 1: "pop_front h r = Inr (h', r', x)" "repr h' r' xs" "repr h' s ys"
    "x \<notin> set ys" "x \<notin> set xs" "valid x" "untouched (set (x # xs)) h h'"
    using pop_other [OF assms] by blast
  obtain h'' s' where 2: "push_front h' s x = Inr (h'', s')" "repr h'' s' (x # ys)"
    "untouched (insert x (set ys)) h' h''"
    using push_front [OF 1(3,4,6)] by blast
  have "insert x (set ys) \<inter> set xs = {}" using 1(5) assms(3) by auto
  then have "repr h'' r' xs" by (rule frame [OF 1(2) 2(3)])
  moreover have "untouched (set (x # xs) \<union> set ys) h h''"
    by (rule untouched_mono [OF untouched_trans [OF 1(7) 2(3)]]) auto
  ultimately show ?thesis using 1 2 by blast
qed

end

interpretation nodeq: node_queue ilist push_front_unsafe push_back_unsafe pop_front_unsafe
  "\<lambda>n. n \<noteq> nullptr" same_links
proof unfold_locales
  show "\<And>h r xs. ilist h r xs \<Longrightarrow> distinct xs \<and> (\<forall>x \<in> set xs. x \<noteq> nullptr)"
    by (auto simp: ilist_def)
qed (rule push_front_ilist push_back_ilist pop_front_ilist ilist_frame
      same_links_trans same_links_mono; assumption)+

section \<open>Sequences of operations\<close>

text \<open>
  A client's calls on one list. \<open>list_exec\<close> runs a call on the heap and gives the pointer it
  returns; \<open>list_spec\<close> is the same call on the sequence of elements, \<open>None\<close> where the call is
  outside of the contract: pushing null or an element twice, naming a node that is not an
  element, removing the only element or popping the back of an empty list.
\<close>

datatype list_call =
    PushFront vaddr_t
  | PushBack vaddr_t
  | InsertBefore vaddr_t vaddr_t
  | PopFront
  | PopBack
  | Remove vaddr_t

fun list_exec :: "list_heap \<times> vaddr_t \<Rightarrow> list_call \<Rightarrow> ((list_heap \<times> vaddr_t) \<times> vaddr_t) exec" where
  "list_exec (h, r) (PushFront n) = bindE (push_front_unsafe h r n) (\<lambda>(h, r). Inr ((h, r), nullptr))"
| "list_exec (h, r) (PushBack n) = bindE (push_back_unsafe h r n) (\<lambda>(h, r). Inr ((h, r), nullptr))"
| "list_exec (h, r) (InsertBefore x n) = bindE (list_insert_before h r x n) (\<lambda>(h, r). Inr ((h, r), nullptr))"
| "list_exec (h, r) PopFront = bindE (pop_front_unsafe h r) (\<lambda>(h, r, p). Inr ((h, r), p))"
| "list_exec (h, r) PopBack = bindE (pop_back_unsafe h r) (\<lambda>(h, r, p). Inr ((h, r), p))"
| "list_exec (h, r) (Remove x) = bindE (remove_unsafe h r x) (\<lambda>(h, r). Inr ((h, r), nullptr))"

fun insert_before_elem :: "'a \<Rightarrow> 'a \<Rightarrow> 'a list \<Rightarrow> 'a list" where
  "insert_before_elem x n [] = []"
| "insert_before_elem x n (y # ys) = (if y = x then n # y # ys else y # insert_before_elem x n ys)"

fun list_spec :: "vaddr_t list \<Rightarrow> list_call \<Rightarrow> (vaddr_t list \<times> vaddr_t) option" where
  "list_spec xs (PushFront n) = (if n = nullptr \<or> n \<in> set xs then None else Some (n # xs, nullptr))"
| "list_spec xs (PushBack n) = (if n = nullptr \<or> n \<in> set xs then None else Some (xs @ [n], nullptr))"
| "list_spec xs (InsertBefore x n) =
     (if n = nullptr \<or> n \<in> set xs \<or> x \<notin> set xs then None else Some (insert_before_elem x n xs, nullptr))"
| "list_spec [] PopFront = Some ([], nullptr)"
| "list_spec (x # xs) PopFront = Some (xs, x)"
| "list_spec xs PopBack = (if xs = [] then None else Some (butlast xs, last xs))"
| "list_spec xs (Remove x) = (if x \<in> set xs \<and> length xs \<noteq> 1 then Some (remove1 x xs, nullptr) else None)"

fun list_exec_all :: "list_heap \<times> vaddr_t \<Rightarrow> list_call list \<Rightarrow> ((list_heap \<times> vaddr_t) \<times> vaddr_t list) exec" where
  "list_exec_all s [] = Inr (s, [])"
| "list_exec_all s (c # cs) =
     bindE (list_exec s c) (\<lambda>(s, p). bindE (list_exec_all s cs) (\<lambda>(s, ps). Inr (s, p # ps)))"

fun list_spec_all :: "vaddr_t list \<Rightarrow> list_call list \<Rightarrow> (vaddr_t list \<times> vaddr_t list) option" where
  "list_spec_all xs [] = Some (xs, [])"
| "list_spec_all xs (c # cs) =
     (case list_spec xs c of None \<Rightarrow> None
      | Some (xs, p) \<Rightarrow> (case list_spec_all xs cs of None \<Rightarrow> None | Some (xs, ps) \<Rightarrow> Some (xs, p # ps)))"

lemma insert_before_elem_append:
  "x \<notin> set us \<Longrightarrow> insert_before_elem x n (us @ x # vs) = us @ n # x # vs"
  by (induction us) auto

lemma list_exec_refines:
  assumes "ilist h r xs" and "list_spec xs c = Some (ys, p)"
  shows "\<exists>h' r'. list_exec (h, r) c = Inr ((h', r'), p) \<and> ilist h' r' ys"
proof (cases c)
  case (PushFront n)
  then show ?thesis using assms push_front_ilist [OF assms(1), of n] by (auto split: if_splits)
next
  case (PushBack n)
  then show ?thesis using assms push_back_ilist [OF assms(1), of n] by (auto split: if_splits)
next
  case (InsertBefore x n)
  then obtain us vs where xs: "xs = us @ x # vs" "x \<notin> set us"
    using assms(2) by (auto split: if_splits dest: split_list_first)
  then show ?thesis
    using InsertBefore assms list_insert_before_ilist [of h r us x vs n]
    by (auto simp: insert_before_elem_append split: if_splits)
next
  case PopFront
  then show ?thesis
    using assms pop_front_ilist [of h r] by (cases xs) (fastforce simp: pop_front_empty)+
next
  case PopBack
  then obtain zs z where "xs = zs @ [z]" using assms(2) by (cases xs rule: rev_cases) auto
  then show ?thesis using PopBack assms pop_back_ilist [of h r zs z] by auto
next
  case (Remove x)
  then obtain us vs where xs: "xs = us @ x # vs" "x \<notin> set us"
    using assms(2) by (auto split: if_splits dest: split_list_first)
  moreover have "us @ vs \<noteq> []" using assms(2) Remove xs by (auto split: if_splits)
  ultimately show ?thesis
    using Remove assms remove_ilist [of h r us x vs] by (fastforce simp: remove1_append split: if_splits)
qed

lemma list_exec_all_refines:
  assumes "ilist h r xs" and "list_spec_all xs cs = Some (ys, ps)"
  shows "\<exists>h' r'. list_exec_all (h, r) cs = Inr ((h', r'), ps) \<and> ilist h' r' ys"
  using assms
proof (induction cs arbitrary: h r xs ps)
  case (Cons c cs)
  then obtain zs p qs where z: "list_spec xs c = Some (zs, p)" "list_spec_all zs cs = Some (ys, qs)" "ps = p # qs"
    by (auto split: option.splits)
  from list_exec_refines [OF Cons.prems(1) z(1)]
  obtain h1 r1 where 1: "list_exec (h, r) c = Inr ((h1, r1), p)" "ilist h1 r1 zs" by blast
  from Cons.IH [OF 1(2) z(2)] 1(1) z(3) show ?case by auto
qed simp

section \<open>Properties\<close>

text \<open>
  C6. Any sequence of pushes, insertions, pops and removals on an intrusive list, within the
  contract of the operations, succeeds without a null dereference, returns the elements the
  same sequence of operations on a plain list returns, and ends in a well-formed circular
  list of exactly the elements of that plain list.
\<close>

theorem list_calls_refine:
  assumes "ilist h r xs" and "list_spec_all xs cs = Some (ys, ps)"
  shows "\<exists>h' r'. list_exec_all (h, r) cs = Inr ((h', r'), ps) \<and> ilist h' r' ys"
  using assms by (rule list_exec_all_refines)

theorem list_calls_refine_witness:
  "\<exists>h' r'. list_exec_all (\<lparr>nexts = \<lambda>_. 0, prevs = \<lambda>_. 0\<rparr>, nullptr)
      [PushBack 8, PushFront 16, InsertBefore 8 24, Remove 24, PopBack, PopFront, PopFront] =
      Inr ((h', r'), [0, 0, 0, 0, 8, 16, 0]) \<and> ilist h' r' []"
  using list_calls_refine [of "\<lparr>nexts = \<lambda>_. 0, prevs = \<lambda>_. 0\<rparr>" nullptr "[]"
      "[PushBack 8, PushFront 16, InsertBefore 8 24, Remove 24, PopBack, PopFront, PopFront]"]
  by simp

text \<open>
  A range-based loop over a list runs its body on every element, in list order, once
  (stopping where the body breaks), and \<open>size\<close> counts the elements modulo \<open>2 ^ 64\<close>; the
  iterator pair terminates although begin and end are the same node.
\<close>

theorem iteration_in_order:
  assumes "ilist h r xs" and "length xs < fuel"
  shows "for_nodes fuel h (list_begin r) (list_end r) body acc = fold_nodes body xs acc \<and>
    list_size fuel h r = Inr (of_nat (length xs))"
  using for_nodes_ilist [OF assms] list_size_ilist [OF assms] by simp

theorem iteration_in_order_witness:
  "list_size 3 \<lparr>nexts = \<lambda>p. if p = 8 then 16 else 8, prevs = \<lambda>p. if p = 8 then 16 else 8\<rparr> 8 = Inr 2"
  using iteration_in_order [of "\<lparr>nexts = \<lambda>p. if p = 8 then 16 else 8, prevs = \<lambda>p. if p = 8 then 16 else 8\<rparr>"
      8 "[8, 16]" 3 "\<lambda>_ a. Inr (a, True)" "()"]
  by (simp add: ilist_def cyc_def)

text \<open>
  Removing the only element of a list does not give the empty list: the root still
  points to the removed node, whose links are null, so \<open>empty\<close> is false and the next
  iteration dereferences null.
\<close>

theorem remove_only_element_dangles:
  assumes "ilist h r [x]"
  shows "\<exists>h'. remove_unsafe h r x = Inr (h', x) \<and> \<not> empty_list x \<and> nexts h' x = nullptr \<and>
    list_size (Suc (Suc fuel)) h' x = Inl NullDeref"
proof -
  obtain h' where h': "remove_unsafe h r x = Inr (h', x)" "nexts h' x = nullptr"
    using remove_single [OF assms] by blast
  moreover have "x \<noteq> nullptr" using assms by (simp add: ilist_Cons)
  ultimately show ?thesis
    by (auto simp: empty_list_def list_size_def list_begin_def list_end_def it_incr_def link_defs)
qed

theorem remove_only_element_dangles_witness:
  "\<exists>h'. remove_unsafe \<lparr>nexts = \<lambda>_. 8, prevs = \<lambda>_. 8\<rparr> 8 8 = Inr (h', 8) \<and> \<not> empty_list (8::vaddr_t) \<and>
    nexts h' 8 = nullptr \<and> list_size (Suc (Suc 0)) h' 8 = Inl NullDeref"
  using remove_only_element_dangles [of "\<lparr>nexts = \<lambda>_. 8, prevs = \<lambda>_. 8\<rparr>" 8 8 0]
  by (simp add: ilist_def cyc_def)

end
