(* ===== verification/Core_Thread.thy ===== *)
theory Core_Thread
  imports Ebl_Linked_List
begin

text \<open>
  Threads and locks: \<open>core/thread.cc\<close>, \<open>core/sched.cc\<close>, \<open>core/mutex.cc\<close>, \<open>core/spinlock.cc\<close>,
  \<open>lib/ebl/guard.h\<close> and the spin lock of \<open>arch/x86-64/interface.h\<close>, on one CPU.

  A thread switch happens only in \<open>schedule_next_thread\<close>, so the code between two switches is
  one step. \<open>Mutex::lock\<close> is cut at its call of the scheduler: \<open>mutex_lock\<close> is the part before
  and \<open>mutex_lock_resume\<close> the part after; \<open>sy_pc\<close> records for every thread whether it is
  suspended inside \<open>lock\<close>. The relation \<open>mutex_step\<close> interleaves the calls of all threads
  under the discipline of \<open>ebl::Guard\<close> (no recursive lock, no unlock of a mutex not held),
  and the invariant \<open>mutex_inv\<close> is kept by every step. These results are about the algorithm of the
  mutex, for spin lock operations that work (\<open>spin_works\<close>); the spin lock of the repository does not,
  and what the mutex does with it is \<open>mutex_never_released\<close>.
\<close>

section \<open>The spin lock of the architecture\<close>

text \<open>Memory words by address; the lock word \<open>x\<close> is the one at the address of the lock.\<close>

type_synonym words = "vaddr_t \<Rightarrow> u32"

text \<open>
  The operand of the assembly is \<open>"r"(lock->x)\<close>, the value of the lock word, and the
  instructions use it as the address of the word they set and test.
\<close>

definition spin_lock :: "words \<Rightarrow> vaddr_t \<Rightarrow> words exec" where
  "spin_lock m lock =
     (let a = ucast (m lock) in guardE (\<not> bit (m a) 0) Deadlock (Inr (m(a := m a OR 1))))"

definition spin_unlock :: "words \<Rightarrow> vaddr_t \<Rightarrow> words" where
  "spin_unlock m lock = m(lock := 0)"

section \<open>\<open>Spinlock\<close> and its guard\<close>

text \<open>The flags register, whose bit 9 enables interrupts, with the memory.\<close>

record cpu =
  cpu_flags :: u32
  cpu_words :: words

definition disable_interrupts :: "cpu \<Rightarrow> cpu" where
  "disable_interrupts s = s\<lparr>cpu_flags := cpu_flags s AND NOT 0x200\<rparr>"

definition spin_save_state :: "cpu \<Rightarrow> cpu \<times> u32" where
  "spin_save_state s = (disable_interrupts s, cpu_flags s)"

definition spin_restore_state :: "cpu \<Rightarrow> u32 \<Rightarrow> cpu" where
  "spin_restore_state s flags = s\<lparr>cpu_flags := flags\<rparr>"

text \<open>The operations take the lock and unlock of the back end as arguments.\<close>

type_synonym lock_op = "words \<Rightarrow> vaddr_t \<Rightarrow> words exec"
type_synonym unlock_op = "words \<Rightarrow> vaddr_t \<Rightarrow> words"

definition spinlock_lock :: "lock_op \<Rightarrow> cpu \<Rightarrow> vaddr_t \<Rightarrow> (cpu \<times> u32) exec" where
  "spinlock_lock sl s backend =
     (let (s, x) = spin_save_state s
      in bindE (sl (cpu_words s) backend) (\<lambda>m. Inr (s\<lparr>cpu_words := m\<rparr>, x)))"

definition spinlock_unlock :: "unlock_op \<Rightarrow> cpu \<Rightarrow> vaddr_t \<Rightarrow> u32 \<Rightarrow> cpu" where
  "spinlock_unlock su s backend x =
     (let s = spin_restore_state s x in s\<lparr>cpu_words := su (cpu_words s) backend\<rparr>)"

definition spinlock_noirq_lock :: "lock_op \<Rightarrow> cpu \<Rightarrow> vaddr_t \<Rightarrow> cpu exec" where
  "spinlock_noirq_lock sl s backend =
     bindE (sl (cpu_words s) backend) (\<lambda>m. Inr (s\<lparr>cpu_words := m\<rparr>))"

definition spinlock_noirq_unlock :: "unlock_op \<Rightarrow> cpu \<Rightarrow> vaddr_t \<Rightarrow> cpu" where
  "spinlock_noirq_unlock su s backend = s\<lparr>cpu_words := su (cpu_words s) backend\<rparr>"

text \<open>The policy object inside an \<open>ebl::Guard<Spinlock>\<close>.\<close>

record guard =
  irq_flags :: u32
  guard_lock :: vaddr_t

definition guard_init :: "lock_op \<Rightarrow> cpu \<Rightarrow> vaddr_t \<Rightarrow> (cpu \<times> guard) exec" where
  "guard_init sl s lock =
     bindE (spinlock_lock sl s lock) (\<lambda>(s, x). Inr (s, \<lparr>irq_flags = x, guard_lock = lock\<rparr>))"

definition guard_release :: "unlock_op \<Rightarrow> cpu \<Rightarrow> guard \<Rightarrow> cpu \<times> guard" where
  "guard_release su s g =
     (if guard_lock g \<noteq> nullptr
      then (spinlock_unlock su s (guard_lock g) (irq_flags g), g\<lparr>guard_lock := nullptr\<rparr>)
      else (s, g))"

definition guard_destroy :: "unlock_op \<Rightarrow> cpu \<Rightarrow> guard \<Rightarrow> cpu" where
  "guard_destroy su s g = fst (guard_release su s g)"

definition guard_chain :: "lock_op \<Rightarrow> unlock_op \<Rightarrow> cpu \<Rightarrow> vaddr_t \<Rightarrow> guard \<Rightarrow> (cpu \<times> guard \<times> guard) exec" where
  "guard_chain sl su s lock1 lock2 =
     (let (s, lock2) = guard_release su s lock2
      in bindE (guard_init sl s lock1) (\<lambda>(s, g). Inr (s, g, lock2)))"

section \<open>Threads and the scheduler\<close>

datatype thread_state = RUN | READY | SLEEP | BLOCKED | ZOMBIE

datatype mutex_state = FREE | LOCKED

text \<open>Where a thread continues when it is switched to.\<close>

datatype resume_point = InClient | InLock

record sys =
  sy_links :: list_heap
  sy_queue :: vaddr_t
  sy_cur :: vaddr_t
  sy_state :: "vaddr_t \<Rightarrow> thread_state"
  sy_pc :: "vaddr_t \<Rightarrow> resume_point"
  sy_words :: words
  mx_lock :: vaddr_t
  mx_wait :: vaddr_t
  mx_owner :: vaddr_t
  mx_state :: mutex_state

text \<open>
  The first statement of \<open>arch::switch_thread\<close>. Its assembly, the switch of the registers, is in
  \<open>Arch_Switch\<close>; here the new thread goes on where it left off, at its \<open>sy_pc\<close>, as the callers
  intend (what the assembly really does to the stack pointer is shown there).
\<close>

definition set_current_thread :: "sys \<Rightarrow> vaddr_t \<Rightarrow> sys" where
  "set_current_thread s newthread = s\<lparr>sy_cur := newthread\<rparr>"

definition schedule_next_thread :: "sys \<Rightarrow> vaddr_t \<Rightarrow> sys exec" where
  "schedule_next_thread s oldthread =
     bindE (pop_front_unsafe (sy_links s) (sy_queue s)) (\<lambda>(l, r, newthread).
     guardE (newthread \<noteq> nullptr) AssertFailed
     (guardE (oldthread \<noteq> nullptr) AssertFailed
     (Inr (set_current_thread (s\<lparr>sy_links := l, sy_queue := r\<rparr>) newthread))))"

definition thread_yield :: "sys \<Rightarrow> sys exec" where
  "thread_yield s =
     (let oldthread = sy_cur s in
      guardE (oldthread \<noteq> nullptr) NullDeref
      (let s = s\<lparr>sy_state := (sy_state s)(oldthread := READY)\<rparr> in
       bindE (push_back_unsafe (sy_links s) (sy_queue s) oldthread) (\<lambda>(l, r).
       schedule_next_thread (s\<lparr>sy_links := l, sy_queue := r\<rparr>) oldthread)))"

definition thread_preempt :: "sys \<Rightarrow> sys exec" where
  "thread_preempt s = thread_yield s"

section \<open>The mutex\<close>

definition do_i_hold :: "sys \<Rightarrow> bool" where
  "do_i_hold s \<longleftrightarrow> mx_owner s = sy_cur s"

text \<open>
  The operations with the lock and unlock of the architecture as arguments; \<open>mutex_lock\<close>,
  \<open>mutex_lock_resume\<close> and \<open>mutex_unlock\<close> are the functions of the kernel, with \<open>arch::spin_lock\<close> and
  \<open>arch::spin_unlock\<close>.
\<close>

definition mutex_lock_with :: "lock_op \<Rightarrow> unlock_op \<Rightarrow> sys \<Rightarrow> sys exec" where
  "mutex_lock_with sl su s =
     bindE (sl (sy_words s) (mx_lock s)) (\<lambda>m.
     let s = s\<lparr>sy_words := m\<rparr> in
     if mx_state s = FREE
     then let s = s\<lparr>mx_state := LOCKED, mx_owner := sy_cur s\<rparr>
          in Inr (s\<lparr>sy_words := su (sy_words s) (mx_lock s)\<rparr>)
     else let cur_th_ptr = sy_cur s in
          guardE (cur_th_ptr \<noteq> nullptr) NullDeref
          (let s = s\<lparr>sy_state := (sy_state s)(cur_th_ptr := BLOCKED)\<rparr> in
           bindE (push_back_unsafe (sy_links s) (mx_wait s) cur_th_ptr) (\<lambda>(l, r).
           let s = s\<lparr>sy_links := l, mx_wait := r\<rparr>;
               s = s\<lparr>sy_words := su (sy_words s) (mx_lock s), sy_pc := (sy_pc s)(cur_th_ptr := InLock)\<rparr>
           in schedule_next_thread s cur_th_ptr)))"

definition mutex_lock_resume_with :: "lock_op \<Rightarrow> unlock_op \<Rightarrow> sys \<Rightarrow> sys exec" where
  "mutex_lock_resume_with sl su s =
     bindE (sl (sy_words s) (mx_lock s)) (\<lambda>m.
     let s = s\<lparr>sy_words := m\<rparr> in
     guardE (\<not> do_i_hold s) AssertFailed
     (let s = s\<lparr>mx_owner := sy_cur s\<rparr>
      in Inr (s\<lparr>sy_words := su (sy_words s) (mx_lock s), sy_pc := (sy_pc s)(sy_cur s := InClient)\<rparr>)))"

definition mutex_unlock_with :: "lock_op \<Rightarrow> unlock_op \<Rightarrow> sys \<Rightarrow> sys exec" where
  "mutex_unlock_with sl su s =
     guardE (do_i_hold s) AssertFailed
     (bindE (sl (sy_words s) (mx_lock s)) (\<lambda>m.
      let s = s\<lparr>sy_words := m\<rparr> in
      bindE (if empty_list (mx_wait s)
             then Inr (s\<lparr>mx_state := FREE, mx_owner := nullptr\<rparr>)
             else bindE (pop_front_unsafe (sy_links s) (mx_wait s)) (\<lambda>(l, r, next_th).
                  guardE (next_th \<noteq> nullptr) NullDeref
                  (let s = s\<lparr>sy_links := l, mx_wait := r, sy_state := (sy_state s)(next_th := READY)\<rparr> in
                   bindE (push_back_unsafe (sy_links s) (sy_queue s) next_th) (\<lambda>(l, r).
                   Inr (s\<lparr>sy_links := l, sy_queue := r\<rparr>)))))
        (\<lambda>s. Inr (s\<lparr>sy_words := su (sy_words s) (mx_lock s)\<rparr>))))"

definition mutex_lock :: "sys \<Rightarrow> sys exec" where
  "mutex_lock s = mutex_lock_with spin_lock spin_unlock s"

definition mutex_lock_resume :: "sys \<Rightarrow> sys exec" where
  "mutex_lock_resume s = mutex_lock_resume_with spin_lock spin_unlock s"

definition mutex_unlock :: "sys \<Rightarrow> sys exec" where
  "mutex_unlock s = mutex_unlock_with spin_lock spin_unlock s"

text \<open>
  Many mutexes: the threads and the memory they share, and the fields of each mutex by its address,
  where its lock word is as well. A mutex is locked by the functions above; a thread that has to wait
  does not go on, and its caller sees \<open>Blocked\<close>.
\<close>

record mutexes =
  mt_sys :: sys
  mt_wait :: "vaddr_t \<Rightarrow> vaddr_t"
  mt_owner :: "vaddr_t \<Rightarrow> vaddr_t"
  mt_state :: "vaddr_t \<Rightarrow> mutex_state"

definition mutex_view :: "mutexes \<Rightarrow> vaddr_t \<Rightarrow> sys" where
  "mutex_view t p =
     (mt_sys t)\<lparr>mx_lock := p, mx_wait := mt_wait t p, mx_owner := mt_owner t p, mx_state := mt_state t p\<rparr>"

definition mutex_put :: "mutexes \<Rightarrow> vaddr_t \<Rightarrow> sys \<Rightarrow> mutexes" where
  "mutex_put t p s =
     t\<lparr>mt_sys := s, mt_wait := (mt_wait t)(p := mx_wait s), mt_owner := (mt_owner t)(p := mx_owner s),
       mt_state := (mt_state t)(p := mx_state s)\<rparr>"

definition lock_mutex :: "mutexes \<Rightarrow> vaddr_t \<Rightarrow> mutexes exec" where
  "lock_mutex t p =
     bindE (mutex_lock (mutex_view t p)) (\<lambda>s. guardE (mt_state t p = FREE) Blocked (Inr (mutex_put t p s)))"

definition unlock_mutex :: "mutexes \<Rightarrow> vaddr_t \<Rightarrow> mutexes exec" where
  "unlock_mutex t p = bindE (mutex_unlock (mutex_view t p)) (\<lambda>s. Inr (mutex_put t p s))"

section \<open>Interleavings\<close>

text \<open>The set is that of the threads that have returned from \<open>lock\<close> and not yet called \<open>unlock\<close>.\<close>

inductive mutex_step ::
  "lock_op \<Rightarrow> unlock_op \<Rightarrow> sys \<times> vaddr_t set \<Rightarrow> (sys \<times> vaddr_t set) exec \<Rightarrow> bool" for sl su where
  lock: "sy_pc s (sy_cur s) = InClient \<Longrightarrow> sy_cur s \<notin> H \<Longrightarrow>
    mutex_step sl su (s, H)
      (bindE (mutex_lock_with sl su s) (\<lambda>s'. Inr (s', if mx_state s = FREE then insert (sy_cur s) H else H)))"
| resume: "sy_pc s (sy_cur s) = InLock \<Longrightarrow>
    mutex_step sl su (s, H) (bindE (mutex_lock_resume_with sl su s) (\<lambda>s'. Inr (s', insert (sy_cur s) H)))"
| unlock: "sy_pc s (sy_cur s) = InClient \<Longrightarrow> sy_cur s \<in> H \<Longrightarrow>
    mutex_step sl su (s, H) (bindE (mutex_unlock_with sl su s) (\<lambda>s'. Inr (s', H - {sy_cur s})))"
| yield: "sy_pc s (sy_cur s) = InClient \<Longrightarrow>
    mutex_step sl su (s, H) (bindE (thread_yield s) (\<lambda>s'. Inr (s', H)))"

inductive_cases mutex_step_cases: "mutex_step sl su (s, H) r"

inductive mutex_reach ::
  "lock_op \<Rightarrow> unlock_op \<Rightarrow> sys \<times> vaddr_t set \<Rightarrow> sys \<times> vaddr_t set \<Rightarrow> bool" for sl su where
  start: "mutex_reach sl su x x"
| step: "mutex_reach sl su x y \<Longrightarrow> mutex_step sl su y (Inr z) \<Longrightarrow> mutex_reach sl su x z"

section \<open>The invariant\<close>

text \<open>What the mutex relies on from a spin lock: \<open>free m p\<close> is kept by a lock and unlock pair.\<close>

definition spin_works :: "lock_op \<Rightarrow> unlock_op \<Rightarrow> (words \<Rightarrow> vaddr_t \<Rightarrow> bool) \<Rightarrow> bool" where
  "spin_works sl su free \<longleftrightarrow>
     (\<forall>m p. free m p \<longrightarrow> (\<exists>m'. sl m p = Inr m' \<and> free (su m' p) p))"

text \<open>
  The token of a locked mutex is with one runnable thread: either it holds the mutex, or it
  has been handed the mutex and is still to resume inside \<open>lock\<close>.
\<close>

definition token :: "sys \<Rightarrow> vaddr_t set \<Rightarrow> vaddr_t set \<Rightarrow> bool" where
  "token s H A \<longleftrightarrow>
     (if mx_state s = FREE then H = {} \<and> (\<forall>t \<in> A. sy_pc s t = InClient)
      else \<exists>w \<in> A. (\<forall>t \<in> A - {w}. sy_pc s t = InClient) \<and>
             (H = {w} \<and> mx_owner s = w \<and> sy_pc s w = InClient \<or>
              H = {} \<and> mx_owner s \<noteq> w \<and> sy_pc s w = InLock))"

definition mutex_inv ::
  "(words \<Rightarrow> vaddr_t \<Rightarrow> bool) \<Rightarrow> vaddr_t list \<Rightarrow> vaddr_t list \<Rightarrow> sys \<Rightarrow> vaddr_t set \<Rightarrow> bool" where
  "mutex_inv free rs ws s H \<longleftrightarrow> free (sy_words s) (mx_lock s) \<and>
     ilist (sy_links s) (sy_queue s) rs \<and> ilist (sy_links s) (mx_wait s) ws \<and> set rs \<inter> set ws = {} \<and>
     sy_cur s \<noteq> nullptr \<and> sy_cur s \<notin> set rs \<and> sy_cur s \<notin> set ws \<and>
     (\<forall>t \<in> set ws. sy_pc s t = InLock) \<and> (mx_state s = FREE \<longrightarrow> ws = []) \<and>
     token s H (insert (sy_cur s) (set rs))"

lemma token_cong:
  "mx_state s' = mx_state s \<Longrightarrow> mx_owner s' = mx_owner s \<Longrightarrow> sy_pc s' = sy_pc s \<Longrightarrow> token s' H A = token s H A"
  by (simp add: token_def)

lemma token_waiting:
  assumes "token s H A" and "c \<in> A" and "sy_pc s c = InLock"
  shows "mx_state s = LOCKED" and "H = {}" and "mx_owner s \<noteq> c" and "\<forall>t \<in> A - {c}. sy_pc s t = InClient"
proof -
  have "mx_state s \<noteq> FREE" using assms by (auto simp: token_def)
  moreover from this obtain w where w: "w \<in> A" "\<forall>t \<in> A - {w}. sy_pc s t = InClient"
    "H = {w} \<and> mx_owner s = w \<and> sy_pc s w = InClient \<or> H = {} \<and> mx_owner s \<noteq> w \<and> sy_pc s w = InLock"
    using assms(1) unfolding token_def by auto
  moreover from w(2) assms(2,3) have "w = c" by (metis DiffI resume_point.distinct(1) singletonD)
  ultimately show "mx_state s = LOCKED" and "H = {}" and "mx_owner s \<noteq> c"
    and "\<forall>t \<in> A - {c}. sy_pc s t = InClient"
    using assms(3) by (cases "mx_state s"; auto)+
qed

lemma token_holding:
  assumes "token s H A" and "c \<in> H"
  shows "mx_state s = LOCKED" and "H = {c}" and "mx_owner s = c" and "\<forall>t \<in> A. sy_pc s t = InClient"
  using assms by (cases "mx_state s"; fastforce simp: token_def)+

lemma token_wait: "mx_state s = LOCKED \<Longrightarrow> w \<in> A \<Longrightarrow> \<forall>t \<in> A - {w}. sy_pc s t = InClient \<Longrightarrow>
    mx_owner s \<noteq> w \<Longrightarrow> sy_pc s w = InLock \<Longrightarrow> token s {} A"
  by (auto simp: token_def)

lemma token_hold: "mx_state s = LOCKED \<Longrightarrow> w \<in> A \<Longrightarrow> \<forall>t \<in> A. sy_pc s t = InClient \<Longrightarrow>
    mx_owner s = w \<Longrightarrow> token s {w} A"
  by (auto simp: token_def)

lemma token_leave:
  assumes t: "token s H A" and c: "mx_state s = LOCKED" "sy_pc s c = InClient" "c \<notin> H"
    and same: "mx_state s' = LOCKED" "mx_owner s' = mx_owner s" "\<forall>t \<in> A - {c}. sy_pc s' t = sy_pc s t"
  shows "token s' H (A - {c})" and "A - {c} \<noteq> {}"
proof -
  obtain w where w: "w \<in> A" "\<forall>t \<in> A - {w}. sy_pc s t = InClient"
    "H = {w} \<and> mx_owner s = w \<and> sy_pc s w = InClient \<or> H = {} \<and> mx_owner s \<noteq> w \<and> sy_pc s w = InLock"
    using t c(1) unfolding token_def by auto
  have wc: "w \<in> A - {c}" using w c by auto
  then show "A - {c} \<noteq> {}" by blast
  have "\<forall>t \<in> A - {c} - {w}. sy_pc s' t = InClient" using w(2) same(3) by auto
  moreover have "sy_pc s' w = sy_pc s w" using same(3) wc by blast
  ultimately show "token s' H (A - {c})"
    unfolding token_def using wc w(3) same(1,2) by auto
qed

lemma spin_worksE:
  assumes "spin_works sl su free" and "free m p"
  obtains m' where "sl m p = Inr m'" and "free (su m' p) p"
  using assms by (auto simp: spin_works_def)

lemma mutex_lock_free:
  assumes works: "spin_works sl su free" and inv: "mutex_inv free rs ws s H"
    and cur: "sy_pc s (sy_cur s) = InClient" and free: "mx_state s = FREE"
  shows "\<exists>s'. mutex_lock_with sl su s = Inr s' \<and> mutex_inv free rs ws s' (insert (sy_cur s) H) \<and> sy_cur s' = sy_cur s"
proof -
  obtain m where m: "sl (sy_words s) (mx_lock s) = Inr m" "free (su m (mx_lock s)) (mx_lock s)"
    using works inv by (auto simp: mutex_inv_def elim: spin_worksE)
  let ?s' = "s\<lparr>mx_state := LOCKED, mx_owner := sy_cur s, sy_words := su m (mx_lock s)\<rparr>"
  have "mutex_lock_with sl su s = Inr ?s'" using m(1) free by (simp add: mutex_lock_with_def Let_def)
  moreover have H: "H = {}" "\<forall>t \<in> insert (sy_cur s) (set rs). sy_pc s t = InClient"
    using inv free by (auto simp: mutex_inv_def token_def)
  have "token ?s' {sy_cur s} (insert (sy_cur s) (set rs))" by (rule token_hold) (use H(2) in auto)
  then have "mutex_inv free rs ws ?s' (insert (sy_cur s) H)"
    using inv m(2) H(1) by (simp add: mutex_inv_def)
  ultimately show ?thesis by auto
qed

lemma mutex_lock_wait:
  assumes works: "spin_works sl su free" and inv: "mutex_inv free rs ws s H"
    and cur: "sy_pc s (sy_cur s) = InClient" "sy_cur s \<notin> H" and locked: "mx_state s = LOCKED"
  shows "\<exists>s' x xs. mutex_lock_with sl su s = Inr s' \<and> rs = x # xs \<and> mutex_inv free xs (ws @ [sy_cur s]) s' H \<and>
    sy_cur s' = x"
proof -
  obtain m where m: "sl (sy_words s) (mx_lock s) = Inr m" "free (su m (mx_lock s)) (mx_lock s)"
    using works inv by (auto simp: mutex_inv_def elim: spin_worksE)
  let ?c = "sy_cur s"
  have i: "ilist (sy_links s) (sy_queue s) rs" "ilist (sy_links s) (mx_wait s) ws" "set rs \<inter> set ws = {}"
    "?c \<noteq> nullptr" "?c \<notin> set rs" "?c \<notin> set ws"
    using inv by (auto simp: mutex_inv_def)
  have tok: "token s H (insert ?c (set rs))" using inv by (simp add: mutex_inv_def)
  note leave = token_leave [OF tok locked cur]
  have A: "insert ?c (set rs) - {?c} = set rs" using i(5) by auto
  then have "rs \<noteq> []" using leave(2) [of s] locked by auto
  then obtain x xs where rs: "rs = x # xs" by (cases rs) auto
  obtain l r where l: "push_back_unsafe (sy_links s) (mx_wait s) ?c = Inr (l, r)" "ilist l r (ws @ [?c])"
    "same_links (insert ?c (set ws)) (sy_links s) l"
    using push_back_ilist [OF i(2,6,4)] by blast
  have q: "ilist l (sy_queue s) (x # xs)"
    using ilist_frame [OF i(1) l(3)] i rs by auto
  obtain l' r' where l': "pop_front_unsafe l (sy_queue s) = Inr (l', r', x)" "ilist l' r' xs"
    "same_links (set (x # xs)) l l'"
    using pop_front_ilist [OF q] by blast
  have wq: "ilist l' r (ws @ [?c])" by (rule ilist_frame [OF l(2) l'(3)]) (use i rs in auto)
  have x: "x \<noteq> nullptr" "x \<notin> set xs" using q by (auto simp: ilist_Cons)
  let ?s' = "set_current_thread (s\<lparr>sy_state := (sy_state s)(?c := BLOCKED), mx_wait := r,
     sy_words := su m (mx_lock s), sy_pc := (sy_pc s)(?c := InLock), sy_links := l', sy_queue := r'\<rparr>) x"
  have "mutex_lock_with sl su s = Inr ?s'"
    using m(1) locked l(1) l'(1) i(4) x(1)
    by (simp add: mutex_lock_with_def schedule_next_thread_def Let_def set_current_thread_def)
  moreover have "token ?s' H (insert x (set xs))"
    using leave(1) [of ?s'] A rs i(5) locked by (simp add: set_current_thread_def)
  then have "mutex_inv free xs (ws @ [?c]) ?s' H"
    using inv m(2) l'(2) wq i x rs locked by (auto simp: mutex_inv_def set_current_thread_def)
  ultimately show ?thesis using rs by (auto simp: set_current_thread_def)
qed

lemma mutex_resume_ok:
  assumes works: "spin_works sl su free" and inv: "mutex_inv free rs ws s H" and pc: "sy_pc s (sy_cur s) = InLock"
  shows "\<exists>s'. mutex_lock_resume_with sl su s = Inr s' \<and> mutex_inv free rs ws s' (insert (sy_cur s) H)"
proof -
  obtain m where m: "sl (sy_words s) (mx_lock s) = Inr m" "free (su m (mx_lock s)) (mx_lock s)"
    using works inv by (auto simp: mutex_inv_def elim: spin_worksE)
  have "token s H (insert (sy_cur s) (set rs))" using inv by (simp add: mutex_inv_def)
  note t = token_waiting [OF this insertI1 pc]
  let ?s' = "s\<lparr>mx_owner := sy_cur s, sy_words := su m (mx_lock s), sy_pc := (sy_pc s)(sy_cur s := InClient)\<rparr>"
  have "mutex_lock_resume_with sl su s = Inr ?s'"
    using m(1) t(3) by (simp add: mutex_lock_resume_with_def do_i_hold_def Let_def)
  moreover have "token ?s' {sy_cur s} (insert (sy_cur s) (set rs))" by (rule token_hold) (use t in auto)
  then have "mutex_inv free rs ws ?s' (insert (sy_cur s) H)"
    using inv m(2) t by (auto simp: mutex_inv_def)
  ultimately show ?thesis by blast
qed

lemma mutex_unlock_ok:
  assumes works: "spin_works sl su free" and inv: "mutex_inv free rs ws s H"
    and cur: "sy_pc s (sy_cur s) = InClient" "sy_cur s \<in> H"
  shows "\<exists>s'. mutex_unlock_with sl su s = Inr s' \<and> sy_cur s' = sy_cur s \<and>
    mutex_inv free (rs @ take 1 ws) (drop 1 ws) s' (H - {sy_cur s}) \<and>
    (mx_state s' = FREE \<longleftrightarrow> ws = [])"
proof -
  obtain m where m: "sl (sy_words s) (mx_lock s) = Inr m" "free (su m (mx_lock s)) (mx_lock s)"
    using works inv by (auto simp: mutex_inv_def elim: spin_worksE)
  let ?c = "sy_cur s"
  have "token s H (insert ?c (set rs))" using inv by (simp add: mutex_inv_def)
  note t = token_holding [OF this cur(2)]
  have i: "ilist (sy_links s) (sy_queue s) rs" "ilist (sy_links s) (mx_wait s) ws" "set ws \<inter> set rs = {}"
    "?c \<noteq> nullptr" "?c \<notin> set rs" "?c \<notin> set ws" "\<forall>t \<in> set ws. sy_pc s t = InLock"
    using inv by (auto simp: mutex_inv_def)
  show ?thesis
  proof (cases ws)
    case Nil
    let ?s' = "s\<lparr>mx_state := FREE, mx_owner := nullptr, sy_words := su m (mx_lock s)\<rparr>"
    have "mx_wait s = nullptr" using i(2) Nil by simp
    then have run: "mutex_unlock_with sl su s = Inr ?s'"
      using m(1) t(3) by (simp add: mutex_unlock_with_def do_i_hold_def empty_list_def Let_def)
    have "token ?s' {} (insert ?c (set rs))" using t(4) by (simp add: token_def)
    then have "mutex_inv free rs [] ?s' {}" using inv m(2) Nil by (simp add: mutex_inv_def)
    with run t(2) Nil show ?thesis by simp
  next
    case (Cons x xs)
    obtain l r l' q where l: "pop_front_unsafe (sy_links s) (mx_wait s) = Inr (l, r, x)"
      "push_back_unsafe l (sy_queue s) x = Inr (l', q)" "ilist l' r xs" "ilist l' q (rs @ [x])"
      using nodeq.move_to_back [OF i(2) [unfolded Cons] i(1)] i(3) Cons by blast
    have x: "x \<noteq> nullptr" "x \<notin> set xs" "mx_wait s \<noteq> nullptr" using i(2) Cons by (auto simp: ilist_Cons)
    let ?s' = "s\<lparr>mx_wait := r, sy_state := (sy_state s)(x := READY), sy_links := l', sy_queue := q,
      sy_words := su m (mx_lock s)\<rparr>"
    have run: "mutex_unlock_with sl su s = Inr ?s'"
      using m(1) t(3) l(1,2) x by (simp add: mutex_unlock_with_def do_i_hold_def empty_list_def Let_def)
    have "token ?s' {} (insert ?c (set (rs @ [x])))"
      by (rule token_wait [of _ x]) (use t i(6,7) Cons in auto)
    moreover have "set (rs @ [x]) \<inter> set xs = {}" using i(3) x Cons by auto
    ultimately have "mutex_inv free (rs @ [x]) xs ?s' {}"
      using m(2) l(3,4) i Cons t(1) by (simp add: mutex_inv_def)
    with run t(1,2) Cons show ?thesis by auto
  qed
qed

lemma thread_yield_ok:
  assumes inv: "mutex_inv free rs ws s H"
  shows "\<exists>s'. thread_yield s = Inr s' \<and> mutex_inv free (tl (rs @ [sy_cur s])) ws s' H \<and>
    sy_cur s' = hd (rs @ [sy_cur s])"
proof -
  let ?c = "sy_cur s"
  have i: "ilist (sy_links s) (sy_queue s) rs" "ilist (sy_links s) (mx_wait s) ws" "set rs \<inter> set ws = {}"
    "?c \<noteq> nullptr" "?c \<notin> set rs" "?c \<notin> set ws"
    using inv by (auto simp: mutex_inv_def)
  obtain l q where l: "push_back_unsafe (sy_links s) (sy_queue s) ?c = Inr (l, q)" "ilist l q (rs @ [?c])"
    "same_links (insert ?c (set rs)) (sy_links s) l"
    using push_back_ilist [OF i(1,5,4)] by blast
  obtain x xs where rs: "rs @ [?c] = x # xs" by (cases rs) auto
  obtain l' q' where l': "pop_front_unsafe l q = Inr (l', q', x)" "ilist l' q' xs" "same_links (set (x # xs)) l l'"
    using pop_front_ilist l(2) rs by metis
  have set: "insert x (set xs) = insert ?c (set rs)" using arg_cong [OF rs, of set] by auto
  have "ilist l (mx_wait s) ws" by (rule ilist_frame [OF i(2) l(3)]) (use i in auto)
  then have wq: "ilist l' (mx_wait s) ws" by (rule ilist_frame [OF _ l'(3)]) (use i set in auto)
  have x: "x \<noteq> nullptr" "x \<notin> set xs" using l(2) rs by (auto simp: ilist_Cons)
  let ?s' = "s\<lparr>sy_state := (sy_state s)(?c := READY), sy_links := l', sy_queue := q', sy_cur := x\<rparr>"
  have run: "thread_yield s = Inr ?s'"
    using l(1) l'(1) i(4) x(1) by (simp add: thread_yield_def schedule_next_thread_def set_current_thread_def Let_def)
  have sub: "x \<notin> set ws" "set xs \<inter> set ws = {}"
  proof -
    have "insert x (set xs) \<inter> set ws = {}" unfolding set using i(3,6) by simp
    then show "x \<notin> set ws" and "set xs \<inter> set ws = {}" by simp_all
  qed
  have "token ?s' H (insert x (set xs))"
    using inv token_cong [of ?s' s H] unfolding set by (simp add: mutex_inv_def)
  then have "mutex_inv free xs ws ?s' H"
    using inv l'(2) wq x sub by (simp add: mutex_inv_def)
  with run rs show ?thesis by auto
qed

lemma mutex_step_inv:
  assumes "mutex_step sl su x r" and works: "spin_works sl su free" and "mutex_inv free rs ws (fst x) (snd x)"
  shows "\<exists>s H rs' ws'. r = Inr (s, H) \<and> mutex_inv free rs' ws' s H"
  using assms(1,3)
proof (induction rule: mutex_step.induct)
  case (lock s H)
  then have inv: "mutex_inv free rs ws s H" by simp
  show ?case
  proof (cases "mx_state s")
    case FREE
    obtain s' where "mutex_lock_with sl su s = Inr s'" "mutex_inv free rs ws s' (insert (sy_cur s) H)"
      using mutex_lock_free [OF works inv lock(1) FREE] by blast
    with FREE show ?thesis
      by (intro exI [of _ s'] exI [of _ "insert (sy_cur s) H"] exI [of _ rs] exI [of _ ws]) simp
  next
    case LOCKED
    obtain s' xs where "mutex_lock_with sl su s = Inr s'" "mutex_inv free xs (ws @ [sy_cur s]) s' H"
      using mutex_lock_wait [OF works inv lock(1,2) LOCKED] by blast
    with LOCKED show ?thesis
      by (intro exI [of _ s'] exI [of _ H] exI [of _ xs] exI [of _ "ws @ [sy_cur s]"]) simp
  qed
next
  case (resume s H)
  then have "mutex_inv free rs ws s H" by simp
  from mutex_resume_ok [OF works this resume(1)] show ?case by (metis bindE.simps(2))
next
  case (unlock s H)
  then have "mutex_inv free rs ws s H" by simp
  from mutex_unlock_ok [OF works this unlock(1,2)] show ?case by (metis bindE.simps(2))
next
  case (yield s H)
  then have "mutex_inv free rs ws s H" by simp
  from thread_yield_ok [OF this] show ?case by (metis bindE.simps(2))
qed

lemma mutex_reach_inv:
  assumes "mutex_reach sl su x y" and "spin_works sl su free" and "mutex_inv free rs ws (fst x) (snd x)"
  shows "\<exists>rs' ws'. mutex_inv free rs' ws' (fst y) (snd y)"
  using assms
proof (induction rule: mutex_reach.induct)
  case (step x y z)
  then obtain rs' ws' where "mutex_inv free rs' ws' (fst y) (snd y)" by blast
  from mutex_step_inv [OF step.hyps(2) step.prems(1) this] show ?case by (metis fst_conv snd_conv Inr_inject)
qed blast

lemma token_card: "token s H A \<Longrightarrow> finite H \<and> card H \<le> 1"
  by (auto simp: token_def split: if_splits)

section \<open>Properties\<close>

text \<open>Two threads, at 64 (running) and 128 (ready), and a free mutex whose lock word is at 512.\<close>

definition two_threads :: sys where
  "two_threads = \<lparr>sy_links = \<lparr>nexts = \<lambda>_. 128, prevs = \<lambda>_. 128\<rparr>, sy_queue = 128, sy_cur = 64,
     sy_state = \<lambda>_. READY, sy_pc = \<lambda>_. InClient, sy_words = \<lambda>_. 0, mx_lock = 512, mx_wait = 0, mx_owner = 0,
     mx_state = FREE\<rparr>"

text \<open>A spin lock that sets and tests bit 0 of the lock word itself, as the interface intends.\<close>

definition bts_lock :: lock_op where
  "bts_lock m p = guardE (\<not> bit (m p) 0) Deadlock (Inr (m(p := m p OR 1)))"

lemma bts_lock_works: "spin_works bts_lock spin_unlock (\<lambda>m p. m p = 0)"
  by (simp add: spin_works_def bts_lock_def spin_unlock_def)

lemma two_threads_inv: "mutex_inv (\<lambda>m p. m p = 0) [128] [] two_threads {}"
  by (simp add: mutex_inv_def two_threads_def token_def ilist_def cyc_def)

text \<open>
  Mutual exclusion: with a spin lock that works, in every interleaving of \<open>lock\<close>,
  \<open>unlock\<close> and \<open>thread_yield\<close> calls of any number of threads that follow the discipline of
  \<open>ebl::Guard\<close>, the next operation never fails an assertion, finds an empty run queue or
  dereferences null; at most one thread is between \<open>lock\<close> and \<open>unlock\<close>, and it is the owner
  of the locked mutex.
\<close>

theorem mutex_mutual_exclusion:
  assumes "spin_works sl su free" and "mutex_inv free rs ws (fst x) (snd x)"
    and "mutex_reach sl su x y" and "mutex_step sl su y r"
  shows "\<exists>s H. r = Inr (s, H) \<and> finite H \<and> card H \<le> 1 \<and>
    (\<forall>t \<in> H. mx_owner s = t \<and> mx_state s = LOCKED)"
proof -
  obtain rs1 ws1 where "mutex_inv free rs1 ws1 (fst y) (snd y)"
    using mutex_reach_inv [OF assms(3,1,2)] by blast
  then obtain s H rs2 ws2 where r: "r = Inr (s, H)" and inv: "mutex_inv free rs2 ws2 s H"
    using mutex_step_inv [OF assms(4,1)] by blast
  have tok: "token s H (insert (sy_cur s) (set rs2))" using inv by (simp add: mutex_inv_def)
  have "\<forall>t \<in> H. mx_owner s = t \<and> mx_state s = LOCKED"
    using token_holding(1,3) [OF tok] by simp
  with token_card [OF tok] r show ?thesis by simp
qed

theorem mutex_mutual_exclusion_witness:
  "\<exists>s H. bindE (mutex_lock_with bts_lock spin_unlock two_threads)
      (\<lambda>s'. Inr (s', if mx_state two_threads = FREE then insert (sy_cur two_threads) {} else {})) = Inr (s, H) \<and>
    finite H \<and> card H \<le> 1 \<and> (\<forall>t \<in> H. mx_owner s = t \<and> mx_state s = LOCKED)"
proof (rule mutex_mutual_exclusion [OF bts_lock_works, where x = "(two_threads, {})"])
  show "mutex_inv (\<lambda>m p. m p = 0) [128] [] (fst (two_threads, {})) (snd (two_threads, {}))"
    using two_threads_inv by simp
  show "mutex_reach bts_lock spin_unlock (two_threads, {}) (two_threads, {})" by (rule mutex_reach.start)
  show "mutex_step bts_lock spin_unlock (two_threads, {})
      (bindE (mutex_lock_with bts_lock spin_unlock two_threads)
        (\<lambda>s'. Inr (s', if mx_state two_threads = FREE then insert (sy_cur two_threads) {} else {})))"
    by (rule mutex_step.lock) (simp_all add: two_threads_def)
qed

text \<open>
  With a spin lock that works, waiters get the mutex in the order in which they asked: a contended \<open>lock\<close> appends the
  thread to the wait queue and switches to the next ready thread; \<open>unlock\<close> moves the first
  waiter to the end of the run queue and keeps the mutex locked for it, so that no other
  thread can take it first; only without waiters does it become free.
\<close>

theorem mutex_fifo_handoff:
  assumes "spin_works sl su free" and "mutex_inv free rs ws s H" and "sy_pc s (sy_cur s) = InClient"
  shows "(sy_cur s \<notin> H \<longrightarrow> mx_state s = LOCKED \<longrightarrow>
      (\<exists>s'. mutex_lock_with sl su s = Inr s' \<and> mutex_inv free (tl rs) (ws @ [sy_cur s]) s' H \<and> sy_cur s' = hd rs)) \<and>
    (sy_cur s \<in> H \<longrightarrow>
      (\<exists>s'. mutex_unlock_with sl su s = Inr s' \<and> mutex_inv free (rs @ take 1 ws) (drop 1 ws) s' (H - {sy_cur s}) \<and>
         sy_cur s' = sy_cur s \<and> (mx_state s' = FREE \<longleftrightarrow> ws = [])))"
  using mutex_lock_wait [OF assms] mutex_unlock_ok [OF assms] by fastforce

theorem mutex_fifo_handoff_witness:
  "\<exists>s'. mutex_unlock_with bts_lock spin_unlock (two_threads\<lparr>mx_state := LOCKED, mx_owner := 64\<rparr>) = Inr s' \<and>
     mx_state s' = FREE"
proof -
  let ?s = "two_threads\<lparr>mx_state := LOCKED, mx_owner := 64\<rparr>"
  have "mutex_inv (\<lambda>m p. m p = 0) [128] [] ?s {64}"
    by (simp add: mutex_inv_def two_threads_def token_def ilist_def cyc_def)
  from mutex_fifo_handoff [OF bts_lock_works this] show ?thesis by (auto simp: two_threads_def)
qed



text \<open>
  C38. The spin lock of \<open>arch/x86-64/interface.h\<close> does not work: its assembly uses the value of
  the lock word as an address, so locking any released lock sets bit 0 of the word at address
  0, which unlocking never clears; after one lock and unlock, every further attempt to lock a
  released lock spins forever.
\<close>

theorem spin_lock_works_once:
  assumes "p \<noteq> 0" and "q \<noteq> 0" and "m p = 0" and "m q = 0" and "\<not> bit (m 0) 0"
  shows "\<exists>m'. spin_lock m p = Inr m' \<and> spin_lock (spin_unlock m' p) q = Inl Deadlock \<and>
    \<not> spin_works spin_lock spin_unlock (\<lambda>m x. m x = 0 \<and> \<not> bit (m 0) 0)"
proof -
  have "\<not> spin_works spin_lock spin_unlock (\<lambda>m x. m x = 0 \<and> \<not> bit (m 0) 0)"
    unfolding spin_works_def
    by (rule notI, drule spec [of _ m], drule spec [of _ p])
      (use assms in \<open>auto simp: spin_lock_def spin_unlock_def bit_simps\<close>)
  then show ?thesis
    using assms by (simp add: spin_lock_def spin_unlock_def bit_simps)
qed

theorem spin_lock_works_once_witness:
  "\<exists>m'. spin_lock (\<lambda>_. 0) 512 = Inr m' \<and> spin_lock (spin_unlock m' 512) 520 = Inl Deadlock"
  using spin_lock_works_once [of 512 520 "\<lambda>_. 0"] by auto

text \<open>
  A guard of a spin lock releases it exactly once, however often \<open>release\<close> is called before
  the destructor runs: constructing the guard disables interrupts, and the first release puts
  back the lock word and the interrupt flag the guard found.
\<close>

theorem guard_releases_once:
  assumes "p \<noteq> nullptr" and "sl (cpu_words s) p = Inr m" and "su m p = cpu_words s"
  shows "\<exists>s1 g. guard_init sl s p = Inr (s1, g) \<and> \<not> bit (cpu_flags s1) 9 \<and> cpu_words s1 = m \<and>
    guard_destroy su s1 g = s \<and>
    (\<forall>s2. guard_release su s2 (snd (guard_release su s1 g)) = (s2, snd (guard_release su s1 g)))"
proof -
  have "\<not> bit (cpu_flags s AND NOT 0x200) 9" by (simp add: bit_simps bit_numeral_rec)
  then show ?thesis
    using assms by (simp add: guard_init_def guard_destroy_def guard_release_def spinlock_lock_def spinlock_unlock_def
        spin_save_state_def spin_restore_state_def disable_interrupts_def Let_def)
qed

theorem guard_releases_once_witness:
  "\<exists>s1 g. guard_init bts_lock \<lparr>cpu_flags = 0x202, cpu_words = (\<lambda>_. 0)\<rparr> 512 = Inr (s1, g) \<and>
     guard_destroy spin_unlock s1 g = \<lparr>cpu_flags = 0x202, cpu_words = (\<lambda>_. 0)\<rparr>"
  using guard_releases_once [of 512 bts_lock "\<lparr>cpu_flags = 0x202, cpu_words = (\<lambda>_. 0)\<rparr>"
      "(\<lambda>_. 0)(512 := 1)" spin_unlock]
  by (auto simp: bts_lock_def spin_unlock_def)
section \<open>The name of a thread\<close>

text \<open>
  The constructor of \<open>Thread\<close> copies 30 characters, whatever the length of the string. \<open>src\<close> holds the
  characters of the literal with its terminating zero; an access behind it is out of bounds.
\<close>

definition thread_name_max :: nat where
  "thread_name_max = 30"

fun copy_name :: "nat \<Rightarrow> nat \<Rightarrow> u8 list \<Rightarrow> u8 list \<Rightarrow> u8 list exec" where
  "copy_name 0 i src name = Inr name"
| "copy_name (Suc left) i src name =
     guardE (i < length src) OutOfBounds (copy_name left (Suc i) src (name @ [src ! i]))"

definition thread_name :: "u8 list \<Rightarrow> u8 list exec" where
  "thread_name src = copy_name thread_name_max 0 src []"

definition boot_thread_name :: "u8 list" where
  "boot_thread_name = map of_char ''Kernel boot thread'' @ [0]"

lemma copy_name_eq:
  "i \<le> length src \<Longrightarrow> copy_name k i src name = (if i + k \<le> length src then Inr (name @ take k (drop i src)) else Inl OutOfBounds)"
  by (induction k arbitrary: i name) (auto simp: guardE_def Cons_nth_drop_Suc [symmetric])

text \<open>
  The copy is exact for a string of at least 30 bytes and out of bounds for every shorter one, the
  name of the boot thread among them.
\<close>

lemma thread_name_copy: "thread_name src = (if 30 \<le> length src then Inr (take 30 src) else Inl OutOfBounds)"
  by (simp add: thread_name_def thread_name_max_def copy_name_eq)

lemma boot_thread_name_overread: "thread_name boot_thread_name = Inl OutOfBounds"
  by (simp add: thread_name_copy boot_thread_name_def)

end
