(* ===== verification/Core_Assert.thy ===== *)
theory Core_Assert
  imports Ebl_Print Core_Thread
begin

text \<open>
  \<open>core/assert.cc\<close> with \<open>lib/ebl/assert.h\<close> and \<open>lib/ebl/source_location.h\<close>: the two forms of
  \<open>assert\<close> and \<open>panic\<close>. They act on the console and on the flags register, and either return or stop
  the processor (\<open>arch::halt\<close> never returns). In the rest of the development a failed assertion
  is the fault \<open>AssertFailed\<close> and a panic the fault \<open>Panicked\<close>; here is what the machine does then.
\<close>

section \<open>State\<close>

record source_impl =
  sl_file_name :: vaddr_t
  sl_function_name :: vaddr_t
  sl_line :: u32
  sl_column :: u32

text \<open>A location without an object has line 0 and the literal \<open>""\<close>, at the address \<open>blank\<close>, as names.\<close>

type_synonym source_location = "source_impl option"

definition loc_line :: "source_location \<Rightarrow> u32" where
  "loc_line l = (case l of None \<Rightarrow> 0 | Some i \<Rightarrow> sl_line i)"

definition loc_column :: "source_location \<Rightarrow> u32" where
  "loc_column l = (case l of None \<Rightarrow> 0 | Some i \<Rightarrow> sl_column i)"

definition loc_file_name :: "vaddr_t \<Rightarrow> source_location \<Rightarrow> vaddr_t" where
  "loc_file_name blank l = (case l of None \<Rightarrow> blank | Some i \<Rightarrow> sl_file_name i)"

definition loc_function_name :: "vaddr_t \<Rightarrow> source_location \<Rightarrow> vaddr_t" where
  "loc_function_name blank l = (case l of None \<Rightarrow> blank | Some i \<Rightarrow> sl_function_name i)"

record machine =
  mc_io :: io
  mc_cpu :: cpu

datatype 'a run = Returned 'a | Stopped 'a

section \<open>Operations\<close>

definition assert_format :: string where
  "assert_format = ''Assertion failed at %s:%d in \"%s\"\<newline>''"

definition assert_reason_format :: string where
  "assert_reason_format = ''Assertion failed at %s:%d in \"%s\"\<newline>Reason: %s\<newline>''"

definition panic_format :: string where
  "panic_format = ''Kernel panicked at %s:%d in \"%s\"\<newline>Reason: %s\<newline>''"

text \<open>\<open>disable_interrupts\<close> and \<open>halt\<close>.\<close>

definition stop :: "machine \<Rightarrow> machine run" where
  "stop s = Stopped (s\<lparr>mc_cpu := disable_interrupts (mc_cpu s)\<rparr>)"

definition assert_plain :: "nat \<Rightarrow> vaddr_t \<Rightarrow> bool \<Rightarrow> source_location \<Rightarrow> machine \<Rightarrow> machine run exec" where
  "assert_plain fuel blank condition loc s =
     (if \<not> condition
      then bindE (kerr fuel (chars assert_format)
             [loc_file_name blank loc, ucast (loc_line loc), loc_function_name blank loc] (mc_io s)) (\<lambda>(io, _).
           Inr (stop (s\<lparr>mc_io := io\<rparr>)))
      else Inr (Returned s))"

definition assert_message ::
  "nat \<Rightarrow> vaddr_t \<Rightarrow> bool \<Rightarrow> vaddr_t \<Rightarrow> source_location \<Rightarrow> machine \<Rightarrow> machine run exec" where
  "assert_message fuel blank condition message loc s =
     (if \<not> condition
      then bindE (kerr fuel (chars assert_reason_format)
             [loc_file_name blank loc, ucast (loc_line loc), loc_function_name blank loc, message] (mc_io s)) (\<lambda>(io, _).
           Inr (stop (s\<lparr>mc_io := io\<rparr>)))
      else Inr (Returned s))"

definition panic :: "nat \<Rightarrow> vaddr_t \<Rightarrow> vaddr_t \<Rightarrow> source_location \<Rightarrow> machine \<Rightarrow> machine run exec" where
  "panic fuel blank message loc s =
     bindE (kerr fuel (chars panic_format)
       [loc_file_name blank loc, ucast (loc_line loc), loc_function_name blank loc, message] (mc_io s)) (\<lambda>(io, _).
     Inr (stop (s\<lparr>mc_io := io\<rparr>)))"

section \<open>The texts\<close>

lemma line_nonneg: "0 \<le>s (ucast (l :: u32) :: u64)"
  by (auto simp: word_sle_eq signed_ucast_eq bit_uint_iff dest: bit_imp_le_length)

definition location_text :: "u8 list \<Rightarrow> nat \<Rightarrow> u8 list \<Rightarrow> u8 list" where
  "location_text file line function =
     chars '' at '' @ file @ chars '':'' @ decimal line @ chars '' in \"'' @ function @ chars ''\"\<newline>''"

lemma location_format:
  assumes "strs f = Some file" and "strs g = Some function"
  shows "format_text strs (chars '' at %s:%d in \"%s\"\<newline>'' @ fmt) (f # ucast (l :: u32) # g # args) =
    map_option ((@) (location_text file (unat l) function)) (format_text strs fmt args)"
proof -
  have "unat (ucast l :: u64) = unat l" by (rule unat_ucast_widen) simp
  then show ?thesis
    using assms
    by (cases "format_text strs fmt args")
      (simp_all add: chars_def location_text_def format_text_rules line_nonneg)
qed
lemma assert_texts:
  assumes "strs f = Some file" and "strs g = Some function" and "strs r = Some reason"
  shows "format_text strs (chars assert_format) [f, ucast (l :: u32), g] =
      Some (chars ''Assertion failed'' @ location_text file (unat l) function)"
    and "format_text strs (chars assert_reason_format) [f, ucast l, g, r] =
      Some (chars ''Assertion failed'' @ location_text file (unat l) function @ chars ''Reason: '' @ reason @ [10])"
    and "format_text strs (chars panic_format) [f, ucast l, g, r] =
      Some (chars ''Kernel panicked'' @ location_text file (unat l) function @ chars ''Reason: '' @ reason @ [10])"
proof -
  note loc = location_format [OF assms(1,2), where l = l]
  have split: "chars assert_format = chars ''Assertion failed'' @ chars '' at %s:%d in \"%s\"\<newline>'' @ []"
    "chars assert_reason_format = chars ''Assertion failed'' @ chars '' at %s:%d in \"%s\"\<newline>'' @ chars ''Reason: %s\<newline>''"
    "chars panic_format = chars ''Kernel panicked'' @ chars '' at %s:%d in \"%s\"\<newline>'' @ chars ''Reason: %s\<newline>''"
    by (simp_all add: chars_def assert_format_def assert_reason_format_def panic_format_def)
  have reason: "format_text strs (chars ''Reason: %s\<newline>'') [r] = Some (chars ''Reason: '' @ reason @ [10])"
    using assms(3) by (simp add: chars_def format_text_rules)
  have plain: "37 \<notin> set (chars ''Assertion failed'')" "37 \<notin> set (chars ''Kernel panicked'')"
    by (simp_all add: chars_def)
  show "format_text strs (chars assert_format) [f, ucast l, g] =
      Some (chars ''Assertion failed'' @ location_text file (unat l) function)"
    unfolding split format_text_append [OF plain(1)] loc by simp
  show "format_text strs (chars assert_reason_format) [f, ucast l, g, r] =
      Some (chars ''Assertion failed'' @ location_text file (unat l) function @ chars ''Reason: '' @ reason @ [10])"
    unfolding split format_text_append [OF plain(1)] loc reason by simp
  show "format_text strs (chars panic_format) [f, ucast l, g, r] =
      Some (chars ''Kernel panicked'' @ location_text file (unat l) function @ chars ''Reason: '' @ reason @ [10])"
    unfolding split format_text_append [OF plain(2)] loc reason by simp
qed
section \<open>Properties\<close>

text \<open>
  C24. An assertion whose condition holds changes nothing and returns. One whose condition fails, and
  every panic, prints the file, the line, the function and the reason, in this form, and nothing
  else, disables interrupts and stops: no code of the caller runs afterwards. The line is printed
  in decimal for every value of its type. The three strings are in memory and together shorter
  than 2^30 characters (the counter of the formatter is an \<open>int\<close>).
\<close>

theorem assert_reports_and_stops:
  assumes "readable strs fuel (io_mem (mc_io s))"
    and "strs (sl_file_name loc) = Some file" and "strs (sl_function_name loc) = Some function"
    and "strs message = Some reason" and "length file + length function + length reason < 2 ^ 30"
  shows "assert_plain fuel blank True (Some loc) s = Inr (Returned s) \<and>
    assert_message fuel blank True message (Some loc) s = Inr (Returned s) \<and>
    (let where_at = location_text file (unat (sl_line loc)) function; why = chars ''Reason: '' @ reason @ [10];
         stopped = (\<lambda>text s'. \<not> bit (cpu_flags (mc_cpu s')) 9 \<and> cpu_words (mc_cpu s') = cpu_words (mc_cpu s) \<and>
           io_mem (mc_io s') = io_mem (mc_io s) \<and> io_com1 (mc_io s') = io_com1 (mc_io s) @ text)
     in (\<exists>s'. assert_plain fuel blank False (Some loc) s = Inr (Stopped s') \<and>
           stopped (chars ''Assertion failed'' @ where_at) s') \<and>
        (\<exists>s'. assert_message fuel blank False message (Some loc) s = Inr (Stopped s') \<and>
           stopped (chars ''Assertion failed'' @ where_at @ why) s') \<and>
        (\<exists>s'. panic fuel blank message (Some loc) s = Inr (Stopped s') \<and>
           stopped (chars ''Kernel panicked'' @ where_at @ why) s'))"
proof -
  note texts = assert_texts [OF assms(2-4), where l = "sl_line loc"]
  have short: "length (chars ''Assertion failed'' @ location_text file (unat (sl_line loc)) function) < 2 ^ 31"
    "length (chars ''Assertion failed'' @ location_text file (unat (sl_line loc)) function @ chars ''Reason: '' @ reason @ [10]) < 2 ^ 31"
    "length (chars ''Kernel panicked'' @ location_text file (unat (sl_line loc)) function @ chars ''Reason: '' @ reason @ [10]) < 2 ^ 31"
    using assms(5) length_decimal [of "ucast (sl_line loc)"] by (simp_all add: location_text_def chars_def unat_ucast_widen)
  have off: "\<not> bit (f AND NOT 0x200) 9" for f :: u32 by (simp add: bit_simps)
  show ?thesis
    using kerr_text [OF texts(1) assms(1) short(1)] kerr_text [OF texts(2) assms(1) short(2)] kerr_text [OF texts(3) assms(1) short(3)] off
    by (simp add: assert_plain_def assert_message_def panic_def stop_def disable_interrupts_def Let_def
        loc_file_name_def loc_line_def loc_function_name_def)
qed

definition sample_location :: source_impl where
  "sample_location = \<lparr>sl_file_name = 0x1000, sl_function_name = 0x1000, sl_line = 42, sl_column = 7\<rparr>"

definition sample_machine :: machine where
  "sample_machine = \<lparr>mc_io = sample_io, mc_cpu = \<lparr>cpu_flags = 0x202, cpu_words = \<lambda>_. 0\<rparr>\<rparr>"

theorem assert_reports_and_stops_witness:
  "\<exists>s'. panic 10 0 0x1000 (Some sample_location) sample_machine = Inr (Stopped s') \<and>
     io_com1 (mc_io s') = chars ''Kernel panicked at pml4:42 in \"pml4\"\<newline>Reason: pml4\<newline>''"
proof -
  have "decimal 42 = [52, 50]" by code_simp
  moreover have "readable sample_strings 10 (io_mem (mc_io sample_machine))"
    using sample_readable by (simp add: sample_machine_def)
  moreover have "sample_strings 0x1000 = Some [112, 109, 108, 52]" "sl_file_name sample_location = 0x1000"
    "sl_function_name sample_location = 0x1000" "io_com1 (mc_io sample_machine) = []" "sl_line sample_location = 42"
    by (simp_all add: sample_strings_def sample_location_def sample_machine_def sample_io_def quiet_io_def)
  ultimately show ?thesis
    using assert_reports_and_stops [of sample_strings 10 sample_machine sample_location
        "[112, 109, 108, 52]" "[112, 109, 108, 52]" "0x1000" "[112, 109, 108, 52]" 0]
    by (auto simp: Let_def location_text_def chars_def)
qed

end
