(* ===== verification/Loader_Multiboot.thy ===== *)
theory Loader_Multiboot
  imports Prelude
begin

text \<open>
  \<open>loader/x86-64-multiboot2/multiboot2.cc\<close> with the iterator classes of \<open>loader.h\<close> and the
  three structures of \<open>multiboot2.h\<close> the loader reads: the walk over the tags of the boot
  information and over the entries of the memory map tag.

  The loader is a 32-bit program, so a pointer is a 32-bit word; the boot information is a
  function from addresses to the 32-bit words stored there. A loop over tags carries fuel.
\<close>

type_synonym boot_info = "u32 \<Rightarrow> u32"

section \<open>Structures\<close>

definition TAG_TYPE_END :: u32 where
  "TAG_TYPE_END = 0"

definition TAG_TYPE_MODULE :: u32 where
  "TAG_TYPE_MODULE = 3"

definition TAG_TYPE_MMAP :: u32 where
  "TAG_TYPE_MMAP = 6"

definition MEMORY_AVAILABLE :: u32 where
  "MEMORY_AVAILABLE = 1"

definition tag_type :: "boot_info \<Rightarrow> u32 \<Rightarrow> u32 exec" where
  "tag_type b tag = guardE (tag \<noteq> 0) NullDeref (Inr (b tag))"

definition tag_size :: "boot_info \<Rightarrow> u32 \<Rightarrow> u32 exec" where
  "tag_size b tag = guardE (tag \<noteq> 0) NullDeref (Inr (b (tag + 4)))"

definition mod_start :: "boot_info \<Rightarrow> u32 \<Rightarrow> u32" where
  "mod_start b tag = b (tag + 8)"

definition mod_end :: "boot_info \<Rightarrow> u32 \<Rightarrow> u32" where
  "mod_end b tag = b (tag + 12)"

definition mmap_entry_size :: "boot_info \<Rightarrow> u32 \<Rightarrow> u32" where
  "mmap_entry_size b mmap = b (mmap + 8)"

definition mmap_entries :: "u32 \<Rightarrow> u32" where
  "mmap_entries mmap = mmap + 16"

definition read64 :: "boot_info \<Rightarrow> u32 \<Rightarrow> u64" where
  "read64 b a = ucast (b a) OR push_bit 32 (ucast (b (a + 4)))"

definition entry_base :: "boot_info \<Rightarrow> u32 \<Rightarrow> u64" where
  "entry_base b e = read64 b e"

definition entry_len :: "boot_info \<Rightarrow> u32 \<Rightarrow> u64" where
  "entry_len b e = read64 b (e + 8)"

definition entry_type :: "boot_info \<Rightarrow> u32 \<Rightarrow> u32" where
  "entry_type b e = b (e + 16)"

section \<open>The tag iterator\<close>

text \<open>\<open>multiboot_tag_list::iterator\<close>; the tag \<open>0\<close> is the null pointer of \<open>end()\<close>.\<close>

record tag_iter =
  ti_tag :: u32
  ti_type :: u32

definition tags_begin :: "u32 \<Rightarrow> u32 \<Rightarrow> tag_iter" where
  "tags_begin addr ty = \<lparr>ti_tag = addr + 8, ti_type = ty\<rparr>"

definition tags_end :: tag_iter where
  "tags_end = \<lparr>ti_tag = 0, ti_type = 0\<rparr>"

definition tag_iter_eq :: "tag_iter \<Rightarrow> tag_iter \<Rightarrow> bool" where
  "tag_iter_eq a c \<longleftrightarrow> ti_tag a = ti_tag c"

definition tag_advance :: "boot_info \<Rightarrow> u32 \<Rightarrow> u32 exec" where
  "tag_advance b tag =
     bindE (tag_size b tag) (\<lambda>sz. Inr (tag + ((sz + 7) AND NOT 7)))"

definition tag_incr :: "boot_info \<Rightarrow> tag_iter \<Rightarrow> tag_iter exec" where
  "tag_incr b it =
     bindE (tag_advance b (ti_tag it)) (\<lambda>tag.
     bindE (tag_type b tag) (\<lambda>ty.
     Inr (it\<lparr>ti_tag := if ty = TAG_TYPE_END then 0 else tag\<rparr>)))"

fun tag_deref :: "nat \<Rightarrow> boot_info \<Rightarrow> tag_iter \<Rightarrow> (tag_iter \<times> u32) exec" where
  "tag_deref 0 b it = Inl OutOfFuel"
| "tag_deref (Suc fuel) b it =
     bindE (tag_type b (ti_tag it)) (\<lambda>ty.
       if ty = ti_type it then Inr (it, ti_tag it)
       else if ty = TAG_TYPE_END then Inr (it\<lparr>ti_tag := 0\<rparr>, 0)
       else bindE (tag_incr b it) (\<lambda>it. tag_deref fuel b it))"

text \<open>
  A range-based \<open>for\<close> over the tags of one type; the body returns the state and whether the
  loop goes on.
\<close>

fun for_tags ::
  "nat \<Rightarrow> boot_info \<Rightarrow> tag_iter \<Rightarrow> (u32 \<Rightarrow> 'a \<Rightarrow> ('a \<times> bool) exec) \<Rightarrow> 'a \<Rightarrow> 'a exec" where
  "for_tags 0 b it body acc = Inl OutOfFuel"
| "for_tags (Suc fuel) b it body acc =
     (if tag_iter_eq it tags_end then Inr acc
      else bindE (tag_deref fuel b it) (\<lambda>(it, tag).
           bindE (body tag acc) (\<lambda>(acc, go_on).
           if go_on then bindE (tag_incr b it) (\<lambda>it. for_tags fuel b it body acc)
           else Inr acc)))"

text \<open>
  The two searches at the start of \<open>main\<close>; \<open>cmp\<close> is the call of \<open>strcmp\<close> on the command line
  of the module, given by its address.
\<close>

definition mod_cmdline :: "u32 \<Rightarrow> u32" where
  "mod_cmdline tag = tag + 16"

definition find_module :: "nat \<Rightarrow> boot_info \<Rightarrow> u32 \<Rightarrow> (u32 \<Rightarrow> int exec) \<Rightarrow> u32 exec" where
  "find_module fuel b ptr cmp =
     bindE (for_tags fuel b (tags_begin ptr TAG_TYPE_MODULE)
       (\<lambda>tag module. bindE (cmp (mod_cmdline tag)) (\<lambda>r.
          if r = 0 then Inr (tag, False) else Inr (module, True))) 0) (\<lambda>module.
     guardE (module \<noteq> 0) AssertFailed (Inr module))"

definition find_mmap :: "nat \<Rightarrow> boot_info \<Rightarrow> u32 \<Rightarrow> u32 exec" where
  "find_mmap fuel b ptr =
     bindE (for_tags fuel b (tags_begin ptr TAG_TYPE_MMAP) (\<lambda>tag mmap. Inr (tag, False)) 0) (\<lambda>mmap.
     guardE (mmap \<noteq> 0) AssertFailed (Inr mmap))"

section \<open>The memory map iterator\<close>

definition mmap_incr :: "boot_info \<Rightarrow> u32 \<Rightarrow> u32 \<Rightarrow> u32 exec" where
  "mmap_incr b mmap entry =
     bindE (tag_size b mmap) (\<lambda>sz.
     let entry = entry + mmap_entry_size b mmap
     in Inr (if mmap + sz \<le> entry then 0 else entry))"

fun for_entries ::
  "nat \<Rightarrow> boot_info \<Rightarrow> u32 \<Rightarrow> u32 \<Rightarrow> (u32 \<Rightarrow> 'a \<Rightarrow> 'a) \<Rightarrow> 'a \<Rightarrow> 'a exec" where
  "for_entries 0 b mmap entry body acc = Inl OutOfFuel"
| "for_entries (Suc fuel) b mmap entry body acc =
     (if entry = 0 then Inr acc
      else bindE (mmap_incr b mmap entry) (\<lambda>e. for_entries fuel b mmap e body (body entry acc)))"

section \<open>Tags in a well-formed boot information\<close>

text \<open>\<open>tag_chain b t ts e\<close>: from \<open>t\<close> the tags \<open>ts\<close> follow one another, none the end tag, up to the end tag \<open>e\<close>.\<close>

fun tag_chain :: "boot_info \<Rightarrow> u32 \<Rightarrow> u32 list \<Rightarrow> u32 \<Rightarrow> bool" where
  "tag_chain b t [] e \<longleftrightarrow> t = e \<and> e \<noteq> 0 \<and> b e = TAG_TYPE_END"
| "tag_chain b t (x # xs) e \<longleftrightarrow> t = x \<and> x \<noteq> 0 \<and> b x \<noteq> TAG_TYPE_END \<and>
     tag_chain b (x + ((b (x + 4) + 7) AND NOT 7)) xs e"

lemma tag_chain_head: "tag_chain b t ts e \<Longrightarrow> t = hd (ts @ [e]) \<and> t \<noteq> 0"
  by (cases ts) auto

lemma tag_chain_nonnull: "tag_chain b t ts e \<Longrightarrow> x \<in> set ts \<Longrightarrow> x \<noteq> 0"
  by (induction ts arbitrary: t) auto

lemma tag_incr_chain:
  assumes "tag_chain b t (x # xs) e"
  shows "tag_incr b \<lparr>ti_tag = t, ti_type = ty\<rparr> =
    Inr \<lparr>ti_tag = (case xs of [] \<Rightarrow> 0 | y # _ \<Rightarrow> y), ti_type = ty\<rparr>"
  using assms by (cases xs) (auto simp: tag_incr_def tag_advance_def tag_size_def tag_type_def)

lemma tag_deref_null: "0 < fuel \<Longrightarrow> tag_deref fuel b \<lparr>ti_tag = 0, ti_type = ty\<rparr> = Inl NullDeref"
  by (cases fuel) (simp_all add: tag_type_def)

lemma tag_deref_chain:
  assumes "tag_chain b t ts e" and "ty \<noteq> TAG_TYPE_END" and "ts \<noteq> []" and "length ts < fuel"
  shows "tag_deref fuel b \<lparr>ti_tag = t, ti_type = ty\<rparr> =
    (case dropWhile (\<lambda>x. b x \<noteq> ty) ts of [] \<Rightarrow> Inl NullDeref
     | x # _ \<Rightarrow> Inr (\<lparr>ti_tag = x, ti_type = ty\<rparr>, x))"
  using assms
proof (induction ts arbitrary: t fuel)
  case (Cons x xs)
  obtain fuel' where fuel: "fuel = Suc fuel'" using Cons.prems(4) by (cases fuel) auto
  have t: "t = x" "x \<noteq> 0" "b x \<noteq> TAG_TYPE_END" using Cons.prems(1) by auto
  show ?case
  proof (cases "b x = ty")
    case False
    show ?thesis
    proof (cases xs)
      case Nil
      then show ?thesis
        using False t fuel Cons.prems(4) tag_incr_chain [OF Cons.prems(1), of ty]
        by (simp add: tag_type_def tag_deref_null)
    next
      case (Cons y ys)
      let ?n = "x + ((b (x + 4) + 7) AND NOT 7)"
      have chain: "tag_chain b ?n xs e" using Cons.prems(1) by simp
      moreover have "?n = y" using tag_chain_head [OF chain] Cons by simp
      ultimately show ?thesis
        using False t fuel Cons Cons.prems(2,4) Cons.IH [of y fuel'] tag_incr_chain [OF Cons.prems(1), of ty]
        by (simp add: tag_type_def)
    qed
  qed (use t fuel in \<open>simp add: tag_type_def\<close>)
qed simp

section \<open>The loop over the memory map\<close>

definition entry_at :: "u32 \<Rightarrow> u32 \<Rightarrow> nat \<Rightarrow> u32" where
  "entry_at mmap stride k = mmap + 16 + of_nat k * stride"

lemma unat_entry_at:
  assumes "unat mmap + 16 + n * unat stride < 2 ^ 32" and "k \<le> n"
  shows "unat (entry_at mmap stride k) = unat mmap + 16 + k * unat stride"
proof -
  have "k * unat stride \<le> n * unat stride" using assms(2) by (rule mult_le_mono1)
  then have "unat mmap + 16 + k * unat stride < 2 ^ 32" using assms(1) by linarith
  then show ?thesis
    by (simp add: entry_at_def unat_word_ariths unat_of_nat mod_mult_left_eq mod_add_right_eq)
qed

definition mmap_ok :: "boot_info \<Rightarrow> u32 \<Rightarrow> nat \<Rightarrow> bool" where
  "mmap_ok b mmap n \<longleftrightarrow> mmap \<noteq> 0 \<and> mmap_entry_size b mmap \<noteq> 0 \<and> 0 < n \<and>
     unat (b (mmap + 4)) = 16 + n * unat (mmap_entry_size b mmap) \<and>
     unat mmap + 16 + n * unat (mmap_entry_size b mmap) < 2 ^ 32"

lemma mmap_incr_entry:
  assumes "mmap_ok b mmap n" and "k < n"
  shows "mmap_incr b mmap (entry_at mmap (mmap_entry_size b mmap) k) =
    Inr (if Suc k = n then 0 else entry_at mmap (mmap_entry_size b mmap) (Suc k))"
proof -
  let ?z = "mmap_entry_size b mmap"
  have bound: "unat mmap + 16 + n * unat ?z < 2 ^ 32" and z: "0 < unat ?z"
    and sz: "unat (b (mmap + 4)) = 16 + n * unat ?z"
    using assms(1) by (auto simp: mmap_ok_def unat_gt_0)
  have next_: "entry_at mmap ?z k + ?z = entry_at mmap ?z (Suc k)"
    by (simp add: entry_at_def algebra_simps)
  have "unat (mmap + b (mmap + 4)) = unat mmap + 16 + n * unat ?z"
    using bound sz by (subst unat_plus_no_wrap) simp_all
  then have "mmap + b (mmap + 4) \<le> entry_at mmap ?z (Suc k) \<longleftrightarrow> n * unat ?z \<le> Suc k * unat ?z"
    using unat_entry_at [OF bound, of "Suc k"] assms(2) by (simp add: word_le_nat_alt)
  also have "\<dots> \<longleftrightarrow> n \<le> Suc k" using z by (simp only: mult_le_cancel2) simp
  also have "\<dots> \<longleftrightarrow> Suc k = n" using assms(2) by auto
  finally show ?thesis
    using assms(1) by (simp add: mmap_incr_def tag_size_def next_ Let_def mmap_ok_def)
qed

lemma for_entries_from:
  assumes "mmap_ok b mmap n" and "k \<le> n" and "n - k < fuel"
  shows "for_entries fuel b mmap (if k = n then 0 else entry_at mmap (mmap_entry_size b mmap) k) body acc =
    Inr (fold body (map (entry_at mmap (mmap_entry_size b mmap)) [k..<n]) acc)"
  using assms(2,3)
proof (induction fuel arbitrary: k acc)
  case (Suc fuel)
  let ?e = "entry_at mmap (mmap_entry_size b mmap)"
  show ?case
  proof (cases "k = n")
    case False
    then have k: "k < n" using Suc.prems by simp
    have bound: "unat mmap + 16 + n * unat (mmap_entry_size b mmap) < 2 ^ 32"
      using assms(1) by (simp add: mmap_ok_def)
    have "?e k \<noteq> 0" using unat_entry_at [OF bound, of k] k by auto
    then show ?thesis
      using Suc.IH [of "Suc k" "body (?e k) acc"] Suc.prems k mmap_incr_entry [OF assms(1) k]
      by (simp add: upt_conv_Cons)
  qed simp
qed simp

section \<open>Properties\<close>

text \<open>
  In a boot information whose tags are chained up to the end tag, the loader's search for
  the memory map returns the first tag of that type. If there is none, the search does not
  reach the assertion that reports it: it dereferences a null pointer.
\<close>

theorem find_mmap_first:
  assumes "tag_chain b (ptr + 8) ts e" and "ts \<noteq> []" and "length ts + 2 \<le> fuel"
  shows "find_mmap fuel b ptr =
    (case filter (\<lambda>x. b x = TAG_TYPE_MMAP) ts of [] \<Rightarrow> Inl NullDeref | x # _ \<Rightarrow> Inr x)"
proof -
  obtain fuel' where fuel: "fuel = Suc fuel'" "length ts < fuel'" using assms(3) by (cases fuel) auto
  note nz = tag_chain_nonnull [OF assms(1)]
  have ty: "TAG_TYPE_MMAP \<noteq> TAG_TYPE_END" by (simp add: TAG_TYPE_MMAP_def TAG_TYPE_END_def)
  note deref = tag_deref_chain [OF assms(1) ty assms(2) fuel(2)]
  have it: "find_mmap fuel b ptr = bindE (tag_deref fuel' b \<lparr>ti_tag = ptr + 8, ti_type = TAG_TYPE_MMAP\<rparr>)
      (\<lambda>(it, tag). guardE (tag \<noteq> 0) AssertFailed (Inr tag))"
    using conjunct2 [OF tag_chain_head [OF assms(1)]]
    by (simp add: find_mmap_def fuel tags_begin_def tags_end_def tag_iter_eq_def bindE_assoc case_prod_unfold)
  show ?thesis
  proof (cases "dropWhile (\<lambda>x. b x \<noteq> TAG_TYPE_MMAP) ts")
    case Nil
    then have "filter (\<lambda>x. b x = TAG_TYPE_MMAP) ts = []" by (simp add: filter_empty_conv)
    then show ?thesis unfolding it deref Nil by simp
  next
    case (Cons x xs)
    then have "x \<in> set ts" by (metis list.set_intros(1) set_dropWhileD)
    moreover have "\<exists>ys. filter (\<lambda>x. b x = TAG_TYPE_MMAP) ts = x # ys"
      using Cons by (induction ts) (auto split: if_splits)
    ultimately show ?thesis using Cons nz [of x] by (auto simp: it deref)
  qed
qed

theorem find_mmap_first_witness:
  "find_mmap 4 ((\<lambda>_. 0)(16 := 3, 20 := 12, 32 := 6, 36 := 40)) 8 = Inr 32"
proof -
  let ?b = "(\<lambda>_. 0)(16 := 3, 20 := 12, 32 := 6, 36 := 40) :: boot_info"
  have "tag_chain ?b (8 + 8) [16, 32] 72"
    by (simp add: TAG_TYPE_END_def)
  from find_mmap_first [OF this, of 4] show ?thesis by (simp add: TAG_TYPE_MMAP_def)
qed

text \<open>
  A loop over the memory map visits every entry of the tag exactly once, in order, and
  stops behind the last one.
\<close>

theorem mmap_iteration:
  assumes "mmap \<noteq> 0" and "mmap_entry_size b mmap \<noteq> 0" and "0 < n" and "n < fuel"
    and "unat (b (mmap + 4)) = 16 + n * unat (mmap_entry_size b mmap)"
    and "unat mmap + 16 + n * unat (mmap_entry_size b mmap) < 2 ^ 32"
  shows "for_entries fuel b mmap (mmap_entries mmap) body acc =
    Inr (fold body (map (\<lambda>k. mmap_entries mmap + of_nat k * mmap_entry_size b mmap) [0..<n]) acc)"
proof -
  have "mmap_ok b mmap n" using assms by (simp add: mmap_ok_def)
  from for_entries_from [OF this, of 0 fuel body acc] assms(3,4) show ?thesis
    by (simp add: entry_at_def [abs_def] mmap_entries_def)
qed

theorem mmap_iteration_witness:
  "for_entries 3 ((\<lambda>_. 0)(36 := 64, 40 := 24)) 32 48 (\<lambda>e es. es @ [e]) [] = Inr [48, 72]"
  using mmap_iteration [of 32 "(\<lambda>_. 0)(36 := 64, 40 := 24)" 2 3 "\<lambda>e es. es @ [e]" "[]"]
  by (simp add: mmap_entry_size_def mmap_entries_def upt_rec)

end
