(* ===== verification/Ebl_Status.thy ===== *)
theory Ebl_Status
  imports Prelude
begin

text \<open>
  \<open>lib/ebl/status.h\<close>: the error codes \<open>E\<close> and the two templates \<open>Result<T>\<close> and
  \<open>Result<void>\<close>. A result is \<^emph>\<open>armed\<close> until its status has been read; unwrapping an armed
  result, unwrapping an error, and destroying an armed \<open>Result<void>\<close> panic.
\<close>

datatype E =
    OK
  | INVALID
  | NOT_IMPLEMENTED
  | INVALID_ARGUMENT
  | OUT_OF_MEMORY
  | PERMISSION_DENIED
  | ALLOCATION_FAILED

section \<open>\<open>Result<T>\<close>\<close>

text \<open>The union of \<open>unused_\<close> and \<open>value_\<close> is an option: \<open>None\<close> is the inactive value.\<close>

record 'a result =
  res_value :: "'a option"
  res_error :: E
  res_armed :: bool

definition result_of_value :: "'a \<Rightarrow> 'a result" where
  "result_of_value v = \<lparr>res_value = Some v, res_error = OK, res_armed = True\<rparr>"

definition result_of_error :: "E \<Rightarrow> 'a result" where
  "result_of_error e = \<lparr>res_value = None, res_error = e, res_armed = True\<rparr>"

definition result_status :: "'a result \<Rightarrow> 'a result \<times> E" where
  "result_status r = (r\<lparr>res_armed := False\<rparr>, res_error r)"

definition result_bool :: "'a result \<Rightarrow> 'a result \<times> bool" where
  "result_bool r = (let (r, e) = result_status r in (r, e = OK))"

definition result_unwrap :: "'a result \<Rightarrow> ('a result \<times> 'a) exec" where
  "result_unwrap r =
     guardE (\<not> res_armed r) Panicked
       (guardE (res_error r = OK) Panicked
         (case res_value r of
            None \<Rightarrow> Inl UndefinedBehaviour
          | Some v \<Rightarrow> Inr (r\<lparr>res_error := INVALID, res_armed := True\<rparr>, v)))"

text \<open>The destructor runs the destructor of the value it still owns, if any.\<close>

definition result_destroy :: "'a result \<Rightarrow> 'a option exec" where
  "result_destroy r =
     (if res_error r = OK
      then (case res_value r of None \<Rightarrow> Inl UndefinedBehaviour | Some v \<Rightarrow> Inr (Some v))
      else Inr None)"

section \<open>\<open>Result<void>\<close>\<close>

record result_void =
  void_error :: E
  void_armed :: bool

definition void_of_error :: "E \<Rightarrow> result_void" where
  "void_of_error e = \<lparr>void_error = e, void_armed = True\<rparr>"

definition void_default :: result_void where
  "void_default = \<lparr>void_error = OK, void_armed = False\<rparr>"

definition void_status :: "result_void \<Rightarrow> result_void \<times> E" where
  "void_status r = (r\<lparr>void_armed := False\<rparr>, void_error r)"

definition void_bool :: "result_void \<Rightarrow> result_void \<times> bool" where
  "void_bool r = (let (r, e) = void_status r in (r, e = OK))"

definition void_destroy :: "result_void \<Rightarrow> unit exec" where
  "void_destroy r = guardE (\<not> void_armed r) Panicked (Inr ())"

section \<open>Uses of a result\<close>

text \<open>A client's calls on one \<open>Result<T>\<close>, and the values it has moved out of it.\<close>

datatype result_call = CallStatus | CallBool | CallUnwrap

fun result_step :: "'a result \<times> 'a list \<Rightarrow> result_call \<Rightarrow> ('a result \<times> 'a list) exec" where
  "result_step (r, out) CallStatus = Inr (fst (result_status r), out)"
| "result_step (r, out) CallBool = Inr (fst (result_bool r), out)"
| "result_step (r, out) CallUnwrap =
     bindE (result_unwrap r) (\<lambda>(r, v). Inr (r, out @ [v]))"

fun result_run ::
  "'a result \<times> 'a list \<Rightarrow> result_call list \<Rightarrow> ('a result \<times> 'a list) exec" where
  "result_run s [] = Inr s"
| "result_run s (c # cs) = bindE (result_step s c) (\<lambda>s. result_run s cs)"

lemmas result_defs = result_of_value_def result_of_error_def result_status_def result_bool_def
  result_unwrap_def result_destroy_def

definition result_owns :: "'a \<Rightarrow> 'a result \<times> 'a list \<Rightarrow> bool" where
  "result_owns v s \<longleftrightarrow>
     (res_error (fst s) = OK \<and> res_value (fst s) = Some v \<and> snd s = []) \<or>
     (res_error (fst s) \<noteq> OK \<and> snd s = [v])"

lemma result_step_owns:
  assumes "result_owns v s" and "result_step s c = Inr s'"
  shows "result_owns v s'"
  using assms
  by (cases s; cases c) (auto simp: result_owns_def result_defs exec_simps)

lemma result_run_owns:
  "result_owns v s \<Longrightarrow> result_run s cs = Inr s' \<Longrightarrow> result_owns v s'"
  by (induction cs arbitrary: s) (auto simp: exec_simps dest: result_step_owns)

lemma result_owns_destroy:
  "result_owns v (r, out) \<Longrightarrow> \<exists>d. result_destroy r = Inr d \<and> out @ (case d of None \<Rightarrow> [] | Some w \<Rightarrow> [w]) = [v]"
  by (auto simp: result_owns_def result_destroy_def)

section \<open>Properties\<close>

text \<open>
  A \<open>Result<T>\<close> made from a value hands the value over exactly once: whatever sequence of
  status queries and unwraps a client runs without panicking, the values it has moved out
  together with the value destroyed by the destructor are just that one value (no double
  use, no leak, no second destruction).
\<close>

theorem result_value_once:
  assumes "result_run (result_of_value v, []) cs = Inr (r, out)"
  shows "\<exists>d. result_destroy r = Inr d \<and> out @ (case d of None \<Rightarrow> [] | Some w \<Rightarrow> [w]) = [v]"
proof -
  have "result_owns v (result_of_value v, [])" by (simp add: result_owns_def result_defs)
  from result_owns_destroy [OF result_run_owns [OF this assms]] show ?thesis .
qed

theorem result_value_once_witness:
  "\<exists>d. result_destroy \<lparr>res_value = Some (7::nat), res_error = INVALID, res_armed = True\<rparr> = Inr d \<and>
     [7] @ (case d of None \<Rightarrow> [] | Some w \<Rightarrow> [w]) = [7]"
  using result_value_once [of 7 "[CallBool, CallUnwrap]" "\<lparr>res_value = Some 7, res_error = INVALID, res_armed = True\<rparr>" "[7]"]
  by (simp add: result_defs)

text \<open>
  The checks of a result cannot be bypassed: unwrapping before the status was read
  panics, unwrapping an error panics even after it was read, a second unwrap panics, and a
  \<open>Result<void>\<close> made from a code panics in its destructor unless its status was read.
\<close>

theorem result_checks_enforced:
  "result_unwrap (result_of_value (v :: 'a)) = Inl Panicked \<and>
   (e \<noteq> OK \<longrightarrow> result_run (result_of_error e :: 'a result, []) [CallStatus, CallUnwrap] = Inl Panicked) \<and>
   result_run (result_of_value v, []) [CallBool, CallUnwrap, CallBool, CallUnwrap] = Inl Panicked \<and>
   void_destroy (void_of_error e) = Inl Panicked \<and>
   void_destroy (fst (void_status (void_of_error e))) = Inr ()"
  by (simp add: result_defs void_destroy_def void_of_error_def void_status_def)

theorem result_checks_enforced_witness:
  "result_run (result_of_error OUT_OF_MEMORY :: nat result, []) [CallStatus, CallUnwrap] = Inl Panicked"
  using result_checks_enforced [of "0 :: nat" OUT_OF_MEMORY] by (simp del: result_run.simps)

end
