(* ===== verification/Ebl_Atomic.thy ===== *)
theory Ebl_Atomic
  imports Prelude
begin

text \<open>
  \<open>lib/ebl/atomic.h\<close>: the operations of \<open>ebl::atomic<T>\<close> on one machine word. Every operation is one
  indivisible access of the word, and the accesses of one atomic object by all processors are
  totally ordered whatever their memory order; so an operation is a function from the value of
  the object to its result and its new value, and concurrent code is a sequence of such steps.
  The overloads for \<open>volatile\<close> objects have the same effect. The weak comparison may fail without
  reason, which is the argument \<open>spurious\<close>.
\<close>

definition atomic_init :: "'a::len word \<Rightarrow> 'a word" where
  "atomic_init value = value"

definition atomic_store :: "'a::len word \<Rightarrow> 'a word \<Rightarrow> 'a word" where
  "atomic_store desr v = desr"

definition atomic_load :: "'a::len word \<Rightarrow> 'a word" where
  "atomic_load v = v"

definition atomic_exchange :: "'a::len word \<Rightarrow> 'a word \<Rightarrow> 'a word \<times> 'a word" where
  "atomic_exchange desr v = (v, desr)"

text \<open>The result is whether the exchange took place; \<open>expc\<close> receives the value found when it did not.\<close>

definition compare_exchange_strong :: "'a::len word \<Rightarrow> 'a word \<Rightarrow> 'a word \<Rightarrow> bool \<times> 'a word \<times> 'a word" where
  "compare_exchange_strong expc desr v = (if v = expc then (True, expc, desr) else (False, v, v))"

definition compare_exchange_weak :: "bool \<Rightarrow> 'a::len word \<Rightarrow> 'a word \<Rightarrow> 'a word \<Rightarrow> bool \<times> 'a word \<times> 'a word" where
  "compare_exchange_weak spurious expc desr v =
     (if v = expc \<and> \<not> spurious then (True, expc, desr) else (False, v, v))"

definition fetch_add :: "'a::len word \<Rightarrow> 'a word \<Rightarrow> 'a word \<times> 'a word" where
  "fetch_add x v = (v, v + x)"

definition fetch_sub :: "'a::len word \<Rightarrow> 'a word \<Rightarrow> 'a word \<times> 'a word" where
  "fetch_sub x v = (v, v - x)"

definition fetch_and :: "'a::len word \<Rightarrow> 'a word \<Rightarrow> 'a word \<times> 'a word" where
  "fetch_and x v = (v, v AND x)"

definition fetch_or :: "'a::len word \<Rightarrow> 'a word \<Rightarrow> 'a word \<times> 'a word" where
  "fetch_or x v = (v, v OR x)"

definition fetch_xor :: "'a::len word \<Rightarrow> 'a word \<Rightarrow> 'a word \<times> 'a word" where
  "fetch_xor x v = (v, v XOR x)"

lemmas atomic_defs = atomic_init_def atomic_store_def atomic_load_def atomic_exchange_def compare_exchange_strong_def
  compare_exchange_weak_def fetch_add_def fetch_sub_def fetch_and_def fetch_or_def fetch_xor_def

end
