(* ===== verification/Ebl_Memory.thy ===== *)
theory Ebl_Memory
  imports Ebl_Linked_List Ebl_Status Ebl_Atomic
begin

text \<open>
  \<open>lib/ebl/memory.h\<close> (with \<open>lib/ebl/atomic.h\<close>): intrusive reference counts and \<open>RefPtr\<close>,
  and the \<open>RefPtr\<close> specialisation of \<open>lib/ebl/linked_list.h\<close>. The counter is a 32-bit word
  that wraps; an object is live from its adoption until its last reference is released.
\<close>

section \<open>Reference counts\<close>

record rc_heap =
  refs :: "vaddr_t \<Rightarrow> u32"
  objs :: "vaddr_t \<Rightarrow> bool"

definition ref_init :: "rc_heap \<Rightarrow> vaddr_t \<Rightarrow> rc_heap" where
  "ref_init s p = s\<lparr>refs := (refs s)(p := atomic_init 0)\<rparr>"

definition ref_count :: "rc_heap \<Rightarrow> vaddr_t \<Rightarrow> u32" where
  "ref_count s p = atomic_load (refs s p)"

definition add_ref :: "rc_heap \<Rightarrow> vaddr_t \<Rightarrow> rc_heap exec" where
  "add_ref s p =
     guardE (p \<noteq> nullptr) NullDeref (Inr (s\<lparr>refs := (refs s)(p := snd (fetch_add 1 (refs s p)))\<rparr>))"

definition release :: "rc_heap \<Rightarrow> vaddr_t \<Rightarrow> (rc_heap \<times> bool) exec" where
  "release s p =
     guardE (p \<noteq> nullptr) NullDeref
       (let (ref, v) = fetch_sub 1 (refs s p) in Inr (s\<lparr>refs := (refs s)(p := v)\<rparr>, ref = 1))"

definition adopt :: "rc_heap \<Rightarrow> vaddr_t \<Rightarrow> rc_heap" where
  "adopt s p = s\<lparr>refs := (refs s)(p := atomic_store 1 (refs s p))\<rparr>"

declare atomic_defs [simp]

section \<open>\<open>RefPtr\<close>\<close>

text \<open>A \<open>RefPtr\<close> is the pointer it holds; each member function returns the new pointer(s).\<close>

definition refptr_raw :: "rc_heap \<Rightarrow> vaddr_t \<Rightarrow> rc_heap exec" where
  "refptr_raw s p = (if p \<noteq> nullptr then add_ref s p else Inr s)"

definition refptr_adopt :: "rc_heap \<Rightarrow> vaddr_t \<Rightarrow> rc_heap" where
  "refptr_adopt s p = (if p \<noteq> nullptr then adopt s p else s)"

text \<open>
  \<open>destroy\<close>: when \<open>release\<close> reports the last reference, the object is deallocated (\<open>delete\<close> in the kernel,
  the destructor and \<open>kmem::free\<close> in the hosted build). Of the deallocation only that the object
  ceases to exist is modelled, as with an allocator that works: the hosted tests have one, while
  the kernel's own \<open>kmem::free\<close> fails an assertion on every call (\<open>Core_Slab\<close>).
\<close>

definition refptr_destroy :: "rc_heap \<Rightarrow> vaddr_t \<Rightarrow> rc_heap exec" where
  "refptr_destroy s p =
     (if p \<noteq> nullptr
      then bindE (release s p) (\<lambda>(s, was_last).
             Inr (if was_last then s\<lparr>objs := (objs s)(p := False)\<rparr> else s))
      else Inr s)"

text \<open>The move constructor takes the pointer and leaves null; \<open>swap\<close> exchanges two pointers.\<close>

definition refptr_move :: "vaddr_t \<Rightarrow> vaddr_t \<times> vaddr_t" where
  "refptr_move other = (other, nullptr)"

definition refptr_swap :: "vaddr_t \<Rightarrow> vaddr_t \<Rightarrow> vaddr_t \<times> vaddr_t" where
  "refptr_swap this other = (other, this)"

definition refptr_copy_assign ::
  "rc_heap \<Rightarrow> vaddr_t \<Rightarrow> vaddr_t \<Rightarrow> (rc_heap \<times> vaddr_t) exec" where
  "refptr_copy_assign s this other =
     bindE (if other \<noteq> nullptr then add_ref s other else Inr s) (\<lambda>s.
       let old = this in bindE (refptr_destroy s old) (\<lambda>s. Inr (s, other)))"

definition make_ref :: "rc_heap \<Rightarrow> vaddr_t \<Rightarrow> E + (rc_heap \<times> vaddr_t)" where
  "make_ref s ptr =
     (if ptr = nullptr then Inl OUT_OF_MEMORY
      else let s = ref_init (s\<lparr>objs := (objs s)(ptr := True)\<rparr>) ptr
           in Inr (refptr_adopt s ptr, ptr))"

section \<open>A set of \<open>RefPtr\<close> variables\<close>

text \<open>
  The variables of the program that hold a \<open>RefPtr\<close> are a list of pointers. A step is one
  member function applied to one or two of them.
\<close>

definition assign_copy ::
  "rc_heap \<times> vaddr_t list \<Rightarrow> nat \<Rightarrow> nat \<Rightarrow> (rc_heap \<times> vaddr_t list) exec" where
  "assign_copy = (\<lambda>(s, hs) i j.
     bindE (refptr_copy_assign s (hs ! i) (hs ! j)) (\<lambda>(s, p). Inr (s, hs[i := p])))"

text \<open>
  Move assignment: a temporary takes the pointer of the source, which becomes null, swaps
  with the target and is destroyed with the target's old pointer.
\<close>

definition assign_move ::
  "rc_heap \<times> vaddr_t list \<Rightarrow> nat \<Rightarrow> nat \<Rightarrow> (rc_heap \<times> vaddr_t list) exec" where
  "assign_move = (\<lambda>(s, hs) i j.
     let (tmp, rest) = refptr_move (hs ! j); hs = hs[j := rest];
         (tmp, this) = refptr_swap tmp (hs ! i); hs = hs[i := this]
     in bindE (refptr_destroy s tmp) (\<lambda>s. Inr (s, hs)))"

definition assign_reset ::
  "rc_heap \<times> vaddr_t list \<Rightarrow> nat \<Rightarrow> (rc_heap \<times> vaddr_t list) exec" where
  "assign_reset = (\<lambda>(s, hs) i.
     bindE (refptr_destroy s (hs ! i)) (\<lambda>s. Inr (s, hs[i := nullptr])))"

definition construct_make ::
  "rc_heap \<times> vaddr_t list \<Rightarrow> nat \<Rightarrow> vaddr_t \<Rightarrow> (rc_heap \<times> vaddr_t list) exec" where
  "construct_make = (\<lambda>(s, hs) i ptr.
     case make_ref s ptr of
       Inl e \<Rightarrow> Inr (s, hs)
     | Inr (s, p) \<Rightarrow> let old = hs ! i in bindE (refptr_destroy s old) (\<lambda>s. Inr (s, hs[i := p])))"

inductive rc_step ::
  "rc_heap \<times> vaddr_t list \<Rightarrow> (rc_heap \<times> vaddr_t list) exec \<Rightarrow> bool" where
  copy: "i < length hs \<Longrightarrow> j < length hs \<Longrightarrow> rc_step (s, hs) (assign_copy (s, hs) i j)"
| move: "i < length hs \<Longrightarrow> j < length hs \<Longrightarrow> rc_step (s, hs) (assign_move (s, hs) i j)"
| reset: "i < length hs \<Longrightarrow> rc_step (s, hs) (assign_reset (s, hs) i)"
| make: "i < length hs \<Longrightarrow> \<not> objs s ptr \<Longrightarrow> rc_step (s, hs) (construct_make (s, hs) i ptr)"

definition rc_inv :: "rc_heap \<times> vaddr_t list \<Rightarrow> bool" where
  "rc_inv = (\<lambda>(s, hs). length hs < 2 ^ 32 \<and>
     (\<forall>p. p \<noteq> nullptr \<longrightarrow> (objs s p \<longleftrightarrow> 0 < count_list hs p) \<and>
        (objs s p \<longrightarrow> unat (refs s p) = count_list hs p)))"

lemma count_list_bound: "length hs < 2 ^ 32 \<Longrightarrow> count_list hs p < 2 ^ 32"
  by (rule le_less_trans [OF count_le_length])

text \<open>
  Releasing one reference of a pointer whose count includes one reference too many (the one
  held by a variable that has just been overwritten) re-establishes the invariant.
\<close>

definition rc_owed :: "vaddr_t \<Rightarrow> rc_heap \<times> vaddr_t list \<Rightarrow> bool" where
  "rc_owed old = (\<lambda>(s, hs). length hs < 2 ^ 32 \<and>
     (\<forall>p. p \<noteq> nullptr \<longrightarrow>
        (objs s p \<longleftrightarrow> 0 < count_list hs p + (if p = old then 1 else 0)) \<and>
        (objs s p \<longrightarrow> refs s p = of_nat (count_list hs p + (if p = old then 1 else 0)))))"

lemma unat_eq_of_nat_iff:
  fixes w :: u32
  assumes "n < 2 ^ 32"
  shows "unat w = n \<longleftrightarrow> w = of_nat n"
  using assms by (simp add: word_unat_eq_iff unat_of_nat)

lemma rc_inv_owed: "rc_inv (s, hs) \<longleftrightarrow> rc_owed nullptr (s, hs)"
  using count_list_bound [of hs] by (auto simp: rc_inv_def rc_owed_def unat_eq_of_nat_iff)

lemma rc_owedI:
  assumes "length hs < 2 ^ 32"
    and "\<And>p. p \<noteq> nullptr \<Longrightarrow> count_list hs p + (if p = old then 1 else 0) = c p"
    and "\<And>p. p \<noteq> nullptr \<Longrightarrow> objs s p \<longleftrightarrow> 0 < c p"
    and "\<And>p. p \<noteq> nullptr \<Longrightarrow> objs s p \<Longrightarrow> refs s p = of_nat (c p)"
  shows "rc_owed old (s, hs)"
  using assms unfolding rc_owed_def prod.case by metis

lemma rc_invD:
  assumes "rc_inv (s, hs)"
  shows "length hs < 2 ^ 32"
    and "p \<noteq> nullptr \<Longrightarrow> objs s p \<longleftrightarrow> 0 < count_list hs p"
    and "p \<noteq> nullptr \<Longrightarrow> objs s p \<Longrightarrow> refs s p = of_nat (count_list hs p)"
  using assms by (simp_all add: rc_inv_owed rc_owed_def)

lemma refptr_destroy_owed:
  assumes "rc_owed old (s, hs)"
  shows "\<exists>s'. refptr_destroy s old = Inr s' \<and> rc_inv (s', hs)"
proof (cases "old = nullptr")
  case True
  with assms show ?thesis by (simp add: refptr_destroy_def rc_inv_owed)
next
  case False
  let ?c = "count_list hs old"
  have "length hs < 2 ^ 32" using assms by (simp add: rc_owed_def)
  then have c: "?c < 2 ^ 32" by (rule count_list_bound)
  have live: "objs s old" and cnt: "refs s old = of_nat ?c + 1"
    using assms False by (auto simp: rc_owed_def)
  have last: "refs s old = 1 \<longleftrightarrow> ?c = 0"
    using unat_eq_of_nat_iff [OF c, of 0] by (auto simp: cnt)
  show ?thesis
    using assms False cnt last
    by (auto simp: refptr_destroy_def release_def rc_inv_owed rc_owed_def)
qed

lemma assign_copy_inv:
  assumes "rc_inv (s, hs)" and "i < length hs" and "j < length hs"
  shows "\<exists>s' hs'. assign_copy (s, hs) i j = Inr (s', hs') \<and> rc_inv (s', hs') \<and> hs' = hs[i := hs ! j]"
proof -
  let ?s = "if hs ! j \<noteq> nullptr then s\<lparr>refs := (refs s)(hs ! j := refs s (hs ! j) + 1)\<rparr> else s"
  have "rc_owed (hs ! i) (?s, hs[i := hs ! j])"
  proof (rule rc_owedI [where c = "\<lambda>p. count_list hs p + (if p = hs ! j then 1 else 0)"])
    show "length (hs[i := hs ! j]) < 2 ^ 32" using rc_invD(1) [OF assms(1)] by simp
  next
    fix p
    show "count_list (hs[i := hs ! j]) p + (if p = hs ! i then 1 else 0) =
        count_list hs p + (if p = hs ! j then 1 else 0)"
      using count_list_update [OF assms(2), of "hs ! j" p] by (simp add: eq_commute)
    assume p: "p \<noteq> nullptr"
    show "objs ?s p \<longleftrightarrow> 0 < count_list hs p + (if p = hs ! j then 1 else 0)"
      using p rc_invD(2) [OF assms(1) p] count_list_pos [OF assms(3)] by auto
    then show "refs ?s p = of_nat (count_list hs p + (if p = hs ! j then 1 else 0))"
      if "objs ?s p"
      using that p rc_invD(3) [OF assms(1) p] by (simp split: if_splits)
  qed
  then obtain s' where "refptr_destroy ?s (hs ! i) = Inr s'" "rc_inv (s', hs[i := hs ! j])"
    using refptr_destroy_owed by blast
  then show ?thesis
    by (auto simp: assign_copy_def refptr_copy_assign_def add_ref_def)
qed

lemma assign_move_inv:
  assumes "rc_inv (s, hs)" and "i < length hs" and "j < length hs"
  shows "\<exists>s' hs'. assign_move (s, hs) i j = Inr (s', hs') \<and> rc_inv (s', hs')"
proof -
  let ?hs1 = "hs[j := nullptr]"
  let ?hs2 = "?hs1[i := hs ! j]"
  have cnt: "count_list ?hs2 p + (if p = ?hs1 ! i then 1 else 0) = count_list hs p"
    if "p \<noteq> nullptr" for p
    using count_list_update [OF assms(3), of nullptr p] that
      count_list_update [of i ?hs1 "hs ! j" p] assms(2) by (auto split: if_splits)
  have "rc_owed (?hs1 ! i) (s, ?hs2)"
    using rc_invD [OF assms(1)] cnt by (intro rc_owedI [where c = "count_list hs"]) simp_all
  then obtain s' where "refptr_destroy s (?hs1 ! i) = Inr s'" "rc_inv (s', ?hs2)"
    using refptr_destroy_owed by blast
  then show ?thesis by (auto simp: assign_move_def refptr_move_def refptr_swap_def Let_def)
qed

lemma assign_reset_inv:
  assumes "rc_inv (s, hs)" and "i < length hs"
  shows "\<exists>s' hs'. assign_reset (s, hs) i = Inr (s', hs') \<and> rc_inv (s', hs')"
proof -
  have cnt: "count_list (hs[i := nullptr]) p + (if p = hs ! i then 1 else 0) = count_list hs p"
    if "p \<noteq> nullptr" for p
    using count_list_update [OF assms(2), of nullptr p] that by (auto split: if_splits)
  have "rc_owed (hs ! i) (s, hs[i := nullptr])"
    using rc_invD [OF assms(1)] cnt by (intro rc_owedI [where c = "count_list hs"]) simp_all
  then obtain s' where "refptr_destroy s (hs ! i) = Inr s'" "rc_inv (s', hs[i := nullptr])"
    using refptr_destroy_owed by blast
  then show ?thesis by (auto simp: assign_reset_def)
qed

lemma construct_make_inv:
  assumes "rc_inv (s, hs)" and "i < length hs" and "\<not> objs s ptr"
  shows "\<exists>s' hs'. construct_make (s, hs) i ptr = Inr (s', hs') \<and> rc_inv (s', hs')"
proof (cases "ptr = nullptr")
  case True
  with assms(1) show ?thesis by (simp add: construct_make_def make_ref_def)
next
  case False
  let ?s = "s\<lparr>objs := (objs s)(ptr := True), refs := (refs s)(ptr := 1)\<rparr>"
  have none: "count_list hs ptr = 0" using assms(1,3) False by (auto simp: rc_inv_def)
  have "rc_owed (hs ! i) (?s, hs[i := ptr])"
  proof (rule rc_owedI [where c = "\<lambda>p. count_list hs p + (if p = ptr then 1 else 0)"])
    show "length (hs[i := ptr]) < 2 ^ 32" using rc_invD(1) [OF assms(1)] by simp
  next
    fix p
    show "count_list (hs[i := ptr]) p + (if p = hs ! i then 1 else 0) =
        count_list hs p + (if p = ptr then 1 else 0)"
      using count_list_update [OF assms(2), of ptr p] by (simp add: eq_commute)
    assume p: "p \<noteq> nullptr"
    show "objs ?s p \<longleftrightarrow> 0 < count_list hs p + (if p = ptr then 1 else 0)"
      using rc_invD(2) [OF assms(1) p] by simp
    show "refs ?s p = of_nat (count_list hs p + (if p = ptr then 1 else 0))" if "objs ?s p"
      using that none rc_invD(3) [OF assms(1) p] by (simp split: if_splits)
  qed
  then obtain s' where "refptr_destroy ?s (hs ! i) = Inr s'" "rc_inv (s', hs[i := ptr])"
    using refptr_destroy_owed by blast
  with False show ?thesis
    by (auto simp: construct_make_def make_ref_def refptr_adopt_def adopt_def ref_init_def Let_def)
qed

lemma rc_step_inv:
  assumes "rc_step x r" and "rc_inv x"
  shows "\<exists>y. r = Inr y \<and> rc_inv y"
  using assms
proof (induction rule: rc_step.induct)
  case (copy i hs j s)
  then show ?case using assign_copy_inv by blast
next
  case (move i hs j s)
  then show ?case using assign_move_inv by blast
next
  case (reset i hs s)
  then show ?case using assign_reset_inv by blast
next
  case (make i hs s ptr)
  then show ?case using construct_make_inv by blast
qed

section \<open>\<open>IntrusiveList<RefPtr<T>>\<close>\<close>

text \<open>
  The specialisation keeps one reference per element. The \<open>RefPtr\<close> a caller passes by value
  is constructed and destroyed by the caller, so the definitions are those of the bodies.
\<close>

record ref_heap =
  rl_links :: list_heap
  rl_rc :: rc_heap

definition ref_push_front ::
  "ref_heap \<Rightarrow> vaddr_t \<Rightarrow> vaddr_t \<Rightarrow> (ref_heap \<times> vaddr_t) exec" where
  "ref_push_front s root node =
     bindE (add_ref (rl_rc s) node) (\<lambda>rc.
     bindE (push_front_unsafe (rl_links s) root node) (\<lambda>(l, root).
     Inr (\<lparr>rl_links = l, rl_rc = rc\<rparr>, root)))"

definition ref_push_back ::
  "ref_heap \<Rightarrow> vaddr_t \<Rightarrow> vaddr_t \<Rightarrow> (ref_heap \<times> vaddr_t) exec" where
  "ref_push_back s root node =
     bindE (add_ref (rl_rc s) node) (\<lambda>rc.
     bindE (push_back_unsafe (rl_links s) root node) (\<lambda>(l, root).
     Inr (\<lparr>rl_links = l, rl_rc = rc\<rparr>, root)))"

definition ref_pop_front ::
  "ref_heap \<Rightarrow> vaddr_t \<Rightarrow> (ref_heap \<times> vaddr_t \<times> vaddr_t) exec" where
  "ref_pop_front s root =
     bindE (pop_front_unsafe (rl_links s) root) (\<lambda>(l, root, ptr).
     bindE (release (rl_rc s) ptr) (\<lambda>(rc, _).
     bindE (refptr_raw rc ptr) (\<lambda>rc.
     Inr (\<lparr>rl_links = l, rl_rc = rc\<rparr>, root, ptr))))"

definition ref_pop_back ::
  "ref_heap \<Rightarrow> vaddr_t \<Rightarrow> (ref_heap \<times> vaddr_t \<times> vaddr_t) exec" where
  "ref_pop_back s root =
     bindE (pop_back_unsafe (rl_links s) root) (\<lambda>(l, root, ptr).
     bindE (release (rl_rc s) ptr) (\<lambda>(rc, _).
     bindE (refptr_raw rc ptr) (\<lambda>rc.
     Inr (\<lparr>rl_links = l, rl_rc = rc\<rparr>, root, ptr))))"

definition ref_remove ::
  "ref_heap \<Rightarrow> vaddr_t \<Rightarrow> vaddr_t \<Rightarrow> (ref_heap \<times> vaddr_t) exec" where
  "ref_remove s root node =
     bindE (remove_unsafe (rl_links s) root node) (\<lambda>(l, root).
     bindE (release (rl_rc s) node) (\<lambda>(rc, _).
     Inr (\<lparr>rl_links = l, rl_rc = rc\<rparr>, root)))"

definition ref_insert_before ::
  "ref_heap \<Rightarrow> vaddr_t \<Rightarrow> vaddr_t \<Rightarrow> vaddr_t \<Rightarrow> (ref_heap \<times> vaddr_t) exec" where
  "ref_insert_before s root inspt node =
     bindE (add_ref (rl_rc s) node) (\<lambda>rc.
     bindE (insert_before_unsafe (rl_links s) inspt node) (\<lambda>l.
     Inr (\<lparr>rl_links = l, rl_rc = rc\<rparr>, if inspt = root then node else root)))"

text \<open>The destructor of the list: pop every element and drop the popped \<open>RefPtr\<close>.\<close>

fun ref_list_destroy :: "nat \<Rightarrow> ref_heap \<Rightarrow> vaddr_t \<Rightarrow> (ref_heap \<times> vaddr_t) exec" where
  "ref_list_destroy 0 s root = Inl OutOfFuel"
| "ref_list_destroy (Suc fuel) s root =
     (if empty_list root then Inr (s, root)
      else bindE (ref_pop_front s root) (\<lambda>(s, root, rptr).
           bindE (refptr_destroy (rl_rc s) rptr) (\<lambda>rc.
           ref_list_destroy fuel (s\<lparr>rl_rc := rc\<rparr>) root)))"

definition dropped :: "vaddr_t set \<Rightarrow> rc_heap \<Rightarrow> rc_heap" where
  "dropped A rc = \<lparr>refs = (\<lambda>p. if p \<in> A then refs rc p - 1 else refs rc p),
     objs = (\<lambda>p. objs rc p \<and> (p \<in> A \<longrightarrow> refs rc p \<noteq> 1))\<rparr>"

lemma dropped_Un:
  assumes "A \<inter> B = {}"
  shows "dropped A (dropped B rc) = dropped (A \<union> B) rc"
  using assms by (auto simp: dropped_def fun_eq_iff)

lemma dropped_insert:
  assumes "x \<notin> A"
  shows "dropped A (dropped {x} rc) = dropped (insert x A) rc"
  using dropped_Un [of A "{x}" rc] assms by simp

lemma dropped_empty [simp]: "dropped {} rc = rc"
  by (simp add: dropped_def)

lemma refptr_destroy_dropped:
  "p \<noteq> nullptr \<Longrightarrow> refptr_destroy rc p = Inr (dropped {p} rc)"
  by (auto simp: refptr_destroy_def release_def dropped_def fun_eq_iff Let_def)

lemma pop_and_drop:
  assumes "ilist (rl_links s) root (x # xs)"
  shows "\<exists>l r. ref_pop_front s root = Inr (\<lparr>rl_links = l, rl_rc = rl_rc s\<rparr>, r, x) \<and> ilist l r xs \<and>
    refptr_destroy (rl_rc s) x = Inr (dropped {x} (rl_rc s)) \<and> same_links (set (x # xs)) (rl_links s) l"
proof -
  obtain l r where l: "pop_front_unsafe (rl_links s) root = Inr (l, r, x)" "ilist l r xs"
    "same_links (set (x # xs)) (rl_links s) l"
    using pop_front_ilist [OF assms] by blast
  have x: "x \<noteq> nullptr" using assms by (simp add: ilist_Cons)
  have "ref_pop_front s root = Inr (\<lparr>rl_links = l, rl_rc = rl_rc s\<rparr>, r, x)"
    using l(1) x by (simp add: ref_pop_front_def release_def refptr_raw_def add_ref_def Let_def)
  moreover have "refptr_destroy (rl_rc s) x = Inr (dropped {x} (rl_rc s))"
    using x by (rule refptr_destroy_dropped)
  ultimately show ?thesis using l by blast
qed

lemma ref_list_destroy_ilist:
  assumes "ilist (rl_links s) root xs" and "length xs < fuel"
  shows "\<exists>l. ref_list_destroy fuel s root =
    Inr (\<lparr>rl_links = l, rl_rc = dropped (set xs) (rl_rc s)\<rparr>, nullptr)"
  using assms
proof (induction xs arbitrary: s root fuel)
  case Nil
  then show ?case by (cases fuel; cases s) (auto simp: empty_list_def)
next
  case (Cons x xs)
  obtain fuel' where fuel: "fuel = Suc fuel'" using Cons.prems(2) by (cases fuel) auto
  have x: "root \<noteq> nullptr" "x \<notin> set xs" using Cons.prems(1) by (auto simp: ilist_Cons)
  obtain l r where l: "ref_pop_front s root = Inr (\<lparr>rl_links = l, rl_rc = rl_rc s\<rparr>, r, x)"
    "ilist l r xs" "refptr_destroy (rl_rc s) x = Inr (dropped {x} (rl_rc s))"
    using pop_and_drop [OF Cons.prems(1)] by blast
  let ?s = "\<lparr>rl_links = l, rl_rc = dropped {x} (rl_rc s)\<rparr>"
  obtain l' where "ref_list_destroy fuel' ?s r =
      Inr (\<lparr>rl_links = l', rl_rc = dropped (set xs) (rl_rc ?s)\<rparr>, nullptr)"
    using Cons.IH [of ?s r fuel'] l(2) Cons.prems(2) fuel by auto
  then show ?case
    using l x dropped_insert by (simp add: fuel empty_list_def)
qed

section \<open>Properties\<close>

text \<open>A run of a program over its \<open>RefPtr\<close> variables.\<close>

inductive rc_reach :: "rc_heap \<times> vaddr_t list \<Rightarrow> rc_heap \<times> vaddr_t list \<Rightarrow> bool" where
  start: "rc_reach x x"
| step: "rc_reach x y \<Longrightarrow> rc_step y (Inr z) \<Longrightarrow> rc_reach x z"

lemma rc_reach_inv: "rc_reach x y \<Longrightarrow> rc_inv x \<Longrightarrow> rc_inv y"
  by (induction rule: rc_reach.induct) (auto dest: rc_step_inv)

text \<open>
  C14. Reference counting is safe: in every run of copies, moves, resets and allocations over
  the program's \<open>RefPtr\<close> variables, the next operation never faults, and afterwards an object
  exists exactly as long as some variable points to it, its counter being the number of
  those variables (so nothing is freed early, twice or never).
\<close>

theorem refptr_counts_exact:
  assumes "rc_inv x" and "rc_reach x y" and "rc_step y r"
  shows "\<exists>s hs. r = Inr (s, hs) \<and> (\<forall>p. p \<noteq> nullptr \<longrightarrow>
    (objs s p \<longleftrightarrow> p \<in> set hs) \<and> (objs s p \<longrightarrow> unat (refs s p) = count_list hs p))"
proof -
  from rc_step_inv [OF assms(3) rc_reach_inv [OF assms(2,1)]]
  obtain s hs where r: "r = Inr (s, hs)" and inv: "rc_inv (s, hs)" by auto
  have "\<forall>p. p \<noteq> nullptr \<longrightarrow>
      (objs s p \<longleftrightarrow> p \<in> set hs) \<and> (objs s p \<longrightarrow> unat (refs s p) = count_list hs p)"
    using inv unfolding rc_inv_def prod.case zero_less_iff_neq_zero count_list_0_iff by blast
  with r show ?thesis by blast
qed

theorem refptr_counts_exact_witness:
  "\<exists>s hs. construct_make (\<lparr>refs = \<lambda>_. 0, objs = \<lambda>_. False\<rparr>, [nullptr]) 0 64 = Inr (s, hs) \<and>
    (\<forall>p. p \<noteq> nullptr \<longrightarrow> (objs s p \<longleftrightarrow> p \<in> set hs) \<and> (objs s p \<longrightarrow> unat (refs s p) = count_list hs p))"
  by (rule refptr_counts_exact [OF _ rc_reach.start rc_step.make])
    (simp_all add: rc_inv_def)

text \<open>
  The destructor of a list of references empties the list, terminates, and drops exactly
  the one reference the list held to each of its elements: the elements that had no other
  reference are destroyed, every other object lives on.
\<close>

theorem ref_list_destructor:
  assumes "ilist (rl_links s) root xs" and "length xs < fuel"
  shows "\<exists>l. ref_list_destroy fuel s root =
    Inr (\<lparr>rl_links = l, rl_rc = \<lparr>refs = (\<lambda>p. if p \<in> set xs then refs (rl_rc s) p - 1 else refs (rl_rc s) p),
        objs = (\<lambda>p. objs (rl_rc s) p \<and> (p \<in> set xs \<longrightarrow> refs (rl_rc s) p \<noteq> 1))\<rparr>\<rparr>, nullptr)"
  using ref_list_destroy_ilist [OF assms] by (simp add: dropped_def)

theorem ref_list_destructor_witness:
  "\<exists>l. ref_list_destroy 2 \<lparr>rl_links = \<lparr>nexts = \<lambda>_. 8, prevs = \<lambda>_. 8\<rparr>, rl_rc = \<lparr>refs = \<lambda>_. 1, objs = \<lambda>p. p = 8\<rparr>\<rparr> 8 =
    Inr (\<lparr>rl_links = l, rl_rc = \<lparr>refs = (\<lambda>p. if p = 8 then 0 else 1), objs = (\<lambda>_. False)\<rparr>\<rparr>, nullptr)"
  using ref_list_destructor [of "\<lparr>rl_links = \<lparr>nexts = \<lambda>_. 8, prevs = \<lambda>_. 8\<rparr>, rl_rc = \<lparr>refs = \<lambda>_. 1, objs = \<lambda>p. p = 8\<rparr>\<rparr>" 8 "[8]" 2]
  by (simp add: ilist_def cyc_def cong: if_cong)

end
