(* ===== verification/Core_Pmm.thy ===== *)
theory Core_Pmm
  imports Ebl_Memory
begin

text \<open>
  \<open>core/pmm.cc\<close> with the parts of \<open>core/include/core/vm.h\<close> and
  \<open>core/include/loaderabi.h\<close> it uses: the page frame database handed over by the loader,
  with its free list and its reserved list, and the four allocation functions. The lists
  live in one heap of \<open>core::Page\<close> nodes; \<open>pmm_inv s fs rs\<close> says that the free list holds
  \<open>fs\<close> and the reserved list \<open>rs\<close>, with no page in both.
\<close>

section \<open>The page frame database\<close>

text \<open>\<open>core::Page\<close>: two link words, flags, spin lock and a pointer-sized union, packed.\<close>

definition sizeof_Page :: u64 where
  "sizeof_Page = 32"

record pmm =
  pm_links :: list_heap
  pm_free :: vaddr_t
  pm_rsrv :: vaddr_t
  pm_total :: u64
  pm_arr :: vaddr_t

text \<open>
  \<open>Page::paddr\<close>: the index in the array \<open>pfndb_arr\<close> times the page size. The pointer
  difference divides by the size of \<open>Page\<close> (a power of two) with an arithmetic shift.
\<close>

definition paddr :: "pmm \<Rightarrow> vaddr_t \<Rightarrow> paddr_t" where
  "paddr s this = signed_drop_bit 5 (this - pm_arr s) * page_size64"

section \<open>Allocation and release\<close>

definition alloc_phys_page_single :: "pmm \<Rightarrow> (pmm \<times> (E + vaddr_t)) exec" where
  "alloc_phys_page_single s =
     bindE (pop_front_unsafe (pm_links s) (pm_free s)) (\<lambda>(l, r, node).
       let s = s\<lparr>pm_links := l, pm_free := r\<rparr>
       in Inr (s, if node = nullptr then Inl OUT_OF_MEMORY else Inr node))"

text \<open>The roll-back loop of \<open>alloc_phys_pages\<close>.\<close>

fun give_back :: "nat \<Rightarrow> pmm \<Rightarrow> vaddr_t \<Rightarrow> (pmm \<times> vaddr_t) exec" where
  "give_back 0 s pages = Inl OutOfFuel"
| "give_back (Suc fuel) s pages =
     (if empty_list pages then Inr (s, pages)
      else bindE (pop_front_unsafe (pm_links s) pages) (\<lambda>(l, pages, page).
           bindE (push_front_unsafe l (pm_free s) page) (\<lambda>(l, r).
           give_back fuel (s\<lparr>pm_links := l, pm_free := r\<rparr>) pages)))"

fun alloc_pages_loop :: "nat \<Rightarrow> nat \<Rightarrow> pmm \<Rightarrow> vaddr_t \<Rightarrow> (pmm \<times> vaddr_t \<times> E) exec" where
  "alloc_pages_loop fuel 0 s pages = Inr (s, pages, OK)"
| "alloc_pages_loop fuel (Suc i) s pages =
     bindE (pop_front_unsafe (pm_links s) (pm_free s)) (\<lambda>(l, r, node).
       let s = s\<lparr>pm_links := l, pm_free := r\<rparr> in
       if node = nullptr
       then bindE (give_back fuel s pages) (\<lambda>(s, pages). Inr (s, pages, OUT_OF_MEMORY))
       else bindE (push_front_unsafe (pm_links s) pages node) (\<lambda>(l, pages).
            alloc_pages_loop fuel i (s\<lparr>pm_links := l\<rparr>) pages))"

definition alloc_phys_pages :: "nat \<Rightarrow> pmm \<Rightarrow> u32 \<Rightarrow> (pmm \<times> vaddr_t \<times> E) exec" where
  "alloc_phys_pages fuel s count = alloc_pages_loop fuel (unat count) s nullptr"

fun free_phys_pages :: "nat \<Rightarrow> pmm \<Rightarrow> vaddr_t \<Rightarrow> (pmm \<times> vaddr_t) exec" where
  "free_phys_pages 0 s pages = Inl OutOfFuel"
| "free_phys_pages (Suc fuel) s pages =
     (if empty_list pages then Inr (s, pages)
      else bindE (pop_front_unsafe (pm_links s) pages) (\<lambda>(l, pages, page).
           bindE (push_back_unsafe l (pm_free s) page) (\<lambda>(l, r).
           free_phys_pages fuel (s\<lparr>pm_links := l, pm_free := r\<rparr>) pages)))"

definition free_phys_page_single :: "pmm \<Rightarrow> vaddr_t \<Rightarrow> pmm exec" where
  "free_phys_page_single s page =
     (if page \<noteq> nullptr
      then bindE (push_back_unsafe (pm_links s) (pm_free s) page) (\<lambda>(l, r).
           Inr (s\<lparr>pm_links := l, pm_free := r\<rparr>))
      else Inr s)"

section \<open>Invariant and behaviour\<close>

definition pmm_inv :: "pmm \<Rightarrow> vaddr_t list \<Rightarrow> vaddr_t list \<Rightarrow> bool" where
  "pmm_inv s fs rs \<longleftrightarrow> ilist (pm_links s) (pm_free s) fs \<and> ilist (pm_links s) (pm_rsrv s) rs \<and>
     set fs \<inter> set rs = {}"

text \<open>The same with a third list: pages in the hands of a caller.\<close>

definition pmm_held :: "pmm \<Rightarrow> vaddr_t \<Rightarrow> vaddr_t list \<Rightarrow> vaddr_t list \<Rightarrow> vaddr_t list \<Rightarrow> bool" where
  "pmm_held s pages ps fs rs \<longleftrightarrow> pmm_inv s fs rs \<and> ilist (pm_links s) pages ps \<and>
     set ps \<inter> set fs = {} \<and> set ps \<inter> set rs = {}"

definition same_pfndb :: "pmm \<Rightarrow> pmm \<Rightarrow> bool" where
  "same_pfndb s s' \<longleftrightarrow> pm_rsrv s' = pm_rsrv s \<and> pm_total s' = pm_total s \<and> pm_arr s' = pm_arr s"

lemma same_pfndb_refl [simp]: "same_pfndb s s"
  by (simp add: same_pfndb_def)

lemma same_pfndb_trans: "same_pfndb s s' \<Longrightarrow> same_pfndb s' s'' \<Longrightarrow> same_pfndb s s''"
  by (simp add: same_pfndb_def)

lemma held_step_take:
  assumes "pmm_held s pages ps (f # fs) rs"
  shows "\<exists>l r l' pages'. pop_front_unsafe (pm_links s) (pm_free s) = Inr (l, r, f) \<and>
    push_front_unsafe l pages f = Inr (l', pages') \<and> f \<noteq> nullptr \<and>
    pmm_held (s\<lparr>pm_free := r, pm_links := l'\<rparr>) pages' (f # ps) fs rs"
proof -
  have h: "ilist (pm_links s) (pm_free s) (f # fs)" "ilist (pm_links s) pages ps"
    "ilist (pm_links s) (pm_rsrv s) rs" and d: "set (f # fs) \<inter> set ps = {}"
    "set (f # fs) \<inter> set rs = {}" "set ps \<inter> set rs = {}"
    using assms by (auto simp: pmm_held_def pmm_inv_def)
  obtain l r l' pages' where m: "pop_front_unsafe (pm_links s) (pm_free s) = Inr (l, r, f)"
    "push_front_unsafe l pages f = Inr (l', pages')" "ilist l' r fs" "ilist l' pages' (f # ps)"
    "same_links (set (f # fs) \<union> set ps) (pm_links s) l'"
    using nodeq.move_to_front [OF h(1,2) d(1)] by blast
  have "ilist l' (pm_rsrv s) rs"
    by (rule ilist_frame [OF h(3) m(5)]) (use d in auto)
  moreover have "f \<noteq> nullptr" "f \<notin> set fs" using h(1) by (auto simp: ilist_Cons)
  ultimately show ?thesis
    using m d by (auto simp: pmm_held_def pmm_inv_def)
qed

lemma held_step_return_front:
  assumes "pmm_held s pages (p # ps) fs rs"
  shows "\<exists>l pages' l' r'. pop_front_unsafe (pm_links s) pages = Inr (l, pages', p) \<and>
    push_front_unsafe l (pm_free s) p = Inr (l', r') \<and>
    pmm_held (s\<lparr>pm_links := l', pm_free := r'\<rparr>) pages' ps (p # fs) rs"
proof -
  have h: "ilist (pm_links s) pages (p # ps)" "ilist (pm_links s) (pm_free s) fs"
    "ilist (pm_links s) (pm_rsrv s) rs" and d: "set (p # ps) \<inter> set fs = {}"
    "set (p # ps) \<inter> set rs = {}" "set fs \<inter> set rs = {}"
    using assms by (auto simp: pmm_held_def pmm_inv_def)
  obtain l pages' l' r' where m: "pop_front_unsafe (pm_links s) pages = Inr (l, pages', p)"
    "push_front_unsafe l (pm_free s) p = Inr (l', r')" "ilist l' pages' ps" "ilist l' r' (p # fs)"
    "same_links (set (p # ps) \<union> set fs) (pm_links s) l'"
    using nodeq.move_to_front [OF h(1,2) d(1)] by blast
  have "ilist l' (pm_rsrv s) rs"
    by (rule ilist_frame [OF h(3) m(5)]) (use d in auto)
  moreover have "p \<notin> set ps" using h(1) by (auto simp: ilist_Cons)
  ultimately show ?thesis
    using m d by (auto simp: pmm_held_def pmm_inv_def)
qed

lemma held_step_return_back:
  assumes "pmm_held s pages (p # ps) fs rs"
  shows "\<exists>l pages' l' r'. pop_front_unsafe (pm_links s) pages = Inr (l, pages', p) \<and>
    push_back_unsafe l (pm_free s) p = Inr (l', r') \<and>
    pmm_held (s\<lparr>pm_links := l', pm_free := r'\<rparr>) pages' ps (fs @ [p]) rs"
proof -
  have h: "ilist (pm_links s) pages (p # ps)" "ilist (pm_links s) (pm_free s) fs"
    "ilist (pm_links s) (pm_rsrv s) rs" and d: "set (p # ps) \<inter> set fs = {}"
    "set (p # ps) \<inter> set rs = {}" "set fs \<inter> set rs = {}"
    using assms by (auto simp: pmm_held_def pmm_inv_def)
  obtain l pages' l' r' where m: "pop_front_unsafe (pm_links s) pages = Inr (l, pages', p)"
    "push_back_unsafe l (pm_free s) p = Inr (l', r')" "ilist l' pages' ps" "ilist l' r' (fs @ [p])"
    "same_links (set (p # ps) \<union> set fs) (pm_links s) l'"
    using nodeq.move_to_back [OF h(1,2) d(1)] by blast
  have "ilist l' (pm_rsrv s) rs"
    by (rule ilist_frame [OF h(3) m(5)]) (use d in auto)
  moreover have "p \<notin> set ps" using h(1) by (auto simp: ilist_Cons)
  ultimately show ?thesis
    using m d by (auto simp: pmm_held_def pmm_inv_def)
qed

lemma pmm_held_empty: "pmm_held s nullptr [] fs rs \<longleftrightarrow> pmm_inv s fs rs"
  by (simp add: pmm_held_def)

lemma pmm_held_root: "pmm_held s pages ps fs rs \<Longrightarrow> empty_list pages \<longleftrightarrow> ps = []"
  using empty_list_ilist by (auto simp: pmm_held_def)

lemma give_back_restores:
  assumes "pmm_held s pages ps fs rs" and "length ps < fuel"
  shows "\<exists>s'. give_back fuel s pages = Inr (s', nullptr) \<and> pmm_inv s' (rev ps @ fs) rs \<and>
    same_pfndb s s'"
  using assms
proof (induction ps arbitrary: s pages fs fuel)
  case Nil
  then show ?case
    by (cases fuel) (auto simp: pmm_held_root pmm_held_def empty_list_def)
next
  case (Cons p ps)
  obtain fuel' where fuel: "fuel = Suc fuel'" using Cons.prems(2) by (cases fuel) auto
  obtain l pages' l' r' where m: "pop_front_unsafe (pm_links s) pages = Inr (l, pages', p)"
    "push_front_unsafe l (pm_free s) p = Inr (l', r')"
    "pmm_held (s\<lparr>pm_links := l', pm_free := r'\<rparr>) pages' ps (p # fs) rs"
    using held_step_return_front [OF Cons.prems(1)] by blast
  from Cons.IH [OF m(3), of fuel'] Cons.prems(2) fuel
  obtain s' where "give_back fuel' (s\<lparr>pm_links := l', pm_free := r'\<rparr>) pages' = Inr (s', nullptr)"
    "pmm_inv s' (rev ps @ p # fs) rs" "same_pfndb (s\<lparr>pm_links := l', pm_free := r'\<rparr>) s'"
    by auto
  with m Cons.prems(1) show ?case
    by (auto simp: fuel pmm_held_root same_pfndb_def)
qed

lemma free_phys_pages_appends:
  assumes "pmm_held s pages ps fs rs" and "length ps < fuel"
  shows "\<exists>s'. free_phys_pages fuel s pages = Inr (s', nullptr) \<and> pmm_inv s' (fs @ ps) rs \<and>
    same_pfndb s s'"
  using assms
proof (induction ps arbitrary: s pages fs fuel)
  case Nil
  then show ?case
    by (cases fuel) (auto simp: pmm_held_root pmm_held_def empty_list_def)
next
  case (Cons p ps)
  obtain fuel' where fuel: "fuel = Suc fuel'" using Cons.prems(2) by (cases fuel) auto
  obtain l pages' l' r' where m: "pop_front_unsafe (pm_links s) pages = Inr (l, pages', p)"
    "push_back_unsafe l (pm_free s) p = Inr (l', r')"
    "pmm_held (s\<lparr>pm_links := l', pm_free := r'\<rparr>) pages' ps (fs @ [p]) rs"
    using held_step_return_back [OF Cons.prems(1)] by blast
  from Cons.IH [OF m(3), of fuel'] Cons.prems(2) fuel
  obtain s' where "free_phys_pages fuel' (s\<lparr>pm_links := l', pm_free := r'\<rparr>) pages' = Inr (s', nullptr)"
    "pmm_inv s' (fs @ p # ps) rs" "same_pfndb (s\<lparr>pm_links := l', pm_free := r'\<rparr>) s'"
    by auto
  with m Cons.prems(1) show ?case
    by (auto simp: fuel pmm_held_root same_pfndb_def)
qed

lemma alloc_pages_loop_enough:
  assumes "pmm_held s pages ps fs rs" and "n \<le> length fs"
  shows "\<exists>s' pages'. alloc_pages_loop fuel n s pages = Inr (s', pages', OK) \<and>
    pmm_held s' pages' (rev (take n fs) @ ps) (drop n fs) rs \<and> same_pfndb s s'"
  using assms
proof (induction n arbitrary: s pages ps fs)
  case 0
  then show ?case by simp
next
  case (Suc n)
  then obtain f fs' where fs: "fs = f # fs'" by (cases fs) auto
  obtain l r l' pages' where m: "pop_front_unsafe (pm_links s) (pm_free s) = Inr (l, r, f)"
    "push_front_unsafe l pages f = Inr (l', pages')" "f \<noteq> nullptr"
    "pmm_held (s\<lparr>pm_free := r, pm_links := l'\<rparr>) pages' (f # ps) fs' rs"
    using held_step_take Suc.prems(1) unfolding fs by blast
  from Suc.IH [OF m(4)] Suc.prems(2) fs
  obtain s' pages'' where "alloc_pages_loop fuel n (s\<lparr>pm_free := r, pm_links := l'\<rparr>) pages' =
      Inr (s', pages'', OK)" "pmm_held s' pages'' (rev (take n fs') @ f # ps) (drop n fs') rs"
    "same_pfndb (s\<lparr>pm_free := r, pm_links := l'\<rparr>) s'"
    by auto
  with m fs show ?case by (auto simp: same_pfndb_def)
qed

lemma alloc_pages_loop_short:
  assumes "pmm_held s pages ps fs rs" and "length fs < n" and "length ps + length fs < fuel"
  shows "\<exists>s'. alloc_pages_loop fuel n s pages = Inr (s', nullptr, OUT_OF_MEMORY) \<and>
    pmm_inv s' (rev ps @ fs) rs \<and> same_pfndb s s'"
  using assms
proof (induction n arbitrary: s pages ps fs)
  case 0
  then show ?case by simp
next
  case (Suc n)
  show ?case
  proof (cases fs)
    case Nil
    have free: "pm_free s = nullptr" using Suc.prems(1) Nil by (simp add: pmm_held_def pmm_inv_def)
    then have same: "s\<lparr>pm_free := nullptr\<rparr> = s" by (cases s) simp
    from free show ?thesis
      using give_back_restores [OF Suc.prems(1), of fuel] Suc.prems(3) Nil
      by (auto simp: pop_front_empty same)
  next
    case (Cons f fs')
    obtain l r l' pages' where m: "pop_front_unsafe (pm_links s) (pm_free s) = Inr (l, r, f)"
      "push_front_unsafe l pages f = Inr (l', pages')" "f \<noteq> nullptr"
      "pmm_held (s\<lparr>pm_free := r, pm_links := l'\<rparr>) pages' (f # ps) fs' rs"
      using held_step_take Suc.prems(1) unfolding Cons by blast
    from Suc.IH [OF m(4)] Suc.prems(2,3) Cons
    obtain s' where "alloc_pages_loop fuel n (s\<lparr>pm_free := r, pm_links := l'\<rparr>) pages' =
        Inr (s', nullptr, OUT_OF_MEMORY)" "pmm_inv s' (rev ps @ f # fs') rs"
      "same_pfndb (s\<lparr>pm_free := r, pm_links := l'\<rparr>) s'"
      by auto
    with m Cons show ?thesis by (auto simp: same_pfndb_def)
  qed
qed

lemma alloc_single_some:
  assumes "pmm_inv s (f # fs) rs"
  shows "\<exists>s'. alloc_phys_page_single s = Inr (s', Inr f) \<and> pmm_inv s' fs rs \<and> f \<noteq> nullptr \<and>
    f \<notin> set fs \<and> f \<notin> set rs \<and> same_pfndb s s'"
proof -
  have h: "ilist (pm_links s) (pm_free s) (f # fs)" "ilist (pm_links s) (pm_rsrv s) rs"
    "set (f # fs) \<inter> set rs = {}"
    using assms by (auto simp: pmm_inv_def)
  from nodeq.pop_other [OF h]
  show ?thesis
    using h(3) by (auto simp: alloc_phys_page_single_def pmm_inv_def same_pfndb_def)
qed

lemma alloc_single_none:
  assumes "pmm_inv s [] rs"
  shows "alloc_phys_page_single s = Inr (s, Inl OUT_OF_MEMORY)"
  using assms by (cases s) (auto simp: alloc_phys_page_single_def pmm_inv_def pop_front_empty)

lemma free_single_appends:
  assumes "pmm_inv s fs rs" and "p \<noteq> nullptr" and "p \<notin> set fs" and "p \<notin> set rs"
  shows "\<exists>s'. free_phys_page_single s p = Inr s' \<and> pmm_inv s' (fs @ [p]) rs \<and> same_pfndb s s'"
proof -
  have h: "ilist (pm_links s) (pm_free s) fs" "ilist (pm_links s) (pm_rsrv s) rs"
    "set fs \<inter> set rs = {}"
    using assms(1) by (auto simp: pmm_inv_def)
  obtain l r where m: "push_back_unsafe (pm_links s) (pm_free s) p = Inr (l, r)"
    "ilist l r (fs @ [p])" "same_links (insert p (set fs)) (pm_links s) l"
    using push_back_ilist [OF h(1) assms(3,2)] by blast
  have "ilist l (pm_rsrv s) rs"
    by (rule ilist_frame [OF h(2) m(3)]) (use h(3) assms(4) in auto)
  with m h(3) assms(2,4) show ?thesis
    by (auto simp: free_phys_page_single_def pmm_inv_def same_pfndb_def)
qed

lemma signed_drop_entry:
  assumes "i < 2 ^ 52"
  shows "signed_drop_bit 5 (of_nat i * 32 :: u64) = of_nat i"
proof -
  have u: "uint (of_nat i * 32 :: u64) = int i * 32"
    using assms by (simp add: uint_word_arith_bintrs(3) take_bit_eq_mod unsigned_of_nat flip: of_nat_mod)
  have "sint (of_nat i * 32 :: u64) = int i * 32"
    by (subst sint_uint) (use u assms in \<open>simp add: signed_take_bit_int_eq_self\<close>)
  then have "sint (signed_drop_bit 5 (of_nat i * 32 :: u64)) = int i"
    by (simp add: sint_signed_drop_bit_eq drop_bit_eq_div)
  moreover have "sint (of_nat i :: u64) = int i"
    using assms by (subst sint_uint) (simp add: unsigned_of_nat take_bit_nat_eq_self signed_take_bit_int_eq_self)
  ultimately have "sint (signed_drop_bit 5 (of_nat i * 32 :: u64)) = sint (of_nat i :: u64)" by simp
  then show ?thesis by (rule signed_word_eqI)
qed

section \<open>Properties\<close>

text \<open>Two free pages (at 4096 and 4128) and one reserved page (at 4160).\<close>

definition small_pmm :: pmm where
  "small_pmm = \<lparr>pm_links = \<lparr>nexts = id(4096 := 4128, 4128 := 4096), prevs = id(4096 := 4128, 4128 := 4096)\<rparr>,
     pm_free = 4096, pm_rsrv = 4160, pm_total = 3, pm_arr = 4096\<rparr>"

lemma small_pmm_inv: "pmm_inv small_pmm [4096, 4128] [4160]"
  by (simp add: pmm_inv_def small_pmm_def ilist_def cyc_def)

text \<open>
  C21. \<open>alloc_phys_pages\<close> with enough free pages takes exactly the first \<open>count\<close> pages of the
  free list, hands them out as a list of their own, keeps the rest of the free list in order
  and leaves the reserved list and the frame database alone; no page is in two lists.
\<close>

theorem alloc_pages_takes_front:
  assumes "pmm_inv s fs rs" and "unat count \<le> length fs"
  shows "\<exists>s' pages. alloc_phys_pages fuel s count = Inr (s', pages, OK) \<and>
    pmm_inv s' (drop (unat count) fs) rs \<and> ilist (pm_links s') pages (rev (take (unat count) fs)) \<and>
    set (take (unat count) fs) \<inter> (set (drop (unat count) fs) \<union> set rs) = {} \<and> same_pfndb s s'"
proof -
  have "pmm_held s nullptr [] fs rs" using assms(1) by (simp add: pmm_held_empty)
  from alloc_pages_loop_enough [OF this assms(2), of fuel] show ?thesis
    by (auto simp: alloc_phys_pages_def pmm_held_def)
qed

theorem alloc_pages_takes_front_witness:
  "\<exists>s' pages. alloc_phys_pages 0 small_pmm 1 = Inr (s', pages, OK) \<and> pmm_inv s' [4128] [4160] \<and>
     ilist (pm_links s') pages [4096]"
  using alloc_pages_takes_front [OF small_pmm_inv, of 1 0] by auto

text \<open>
  C12. When fewer than \<open>count\<close> pages are free, \<open>alloc_phys_pages\<close> reports \<open>OUT_OF_MEMORY\<close>, the
  output list is empty and the roll-back restores the free list exactly, order included.
\<close>

theorem alloc_pages_rolls_back:
  assumes "pmm_inv s fs rs" and "length fs < unat count" and "length fs < fuel"
  shows "\<exists>s'. alloc_phys_pages fuel s count = Inr (s', nullptr, OUT_OF_MEMORY) \<and> pmm_inv s' fs rs \<and>
    same_pfndb s s'"
proof -
  have "pmm_held s nullptr [] fs rs" using assms(1) by (simp add: pmm_held_empty)
  from alloc_pages_loop_short [OF this assms(2), of fuel] assms(3) show ?thesis
    by (simp add: alloc_phys_pages_def)
qed

theorem alloc_pages_rolls_back_witness:
  "\<exists>s'. alloc_phys_pages 3 small_pmm 7 = Inr (s', nullptr, OUT_OF_MEMORY) \<and> pmm_inv s' [4096, 4128] [4160]"
  using alloc_pages_rolls_back [OF small_pmm_inv, of 7 3] by auto

text \<open>
  C22. Allocating and freeing again loses no page: after \<open>alloc_phys_pages\<close> and
  \<open>free_phys_pages\<close> of what it returned, the free list is a rearrangement of what it was
  (the pages taken are at its end, in reverse), and the caller's list is empty.
\<close>

theorem alloc_free_round_trip:
  assumes "pmm_inv s fs rs" and "unat count \<le> length fs" and "unat count < fuel"
  shows "\<exists>s' pages s''. alloc_phys_pages fuel s count = Inr (s', pages, OK) \<and>
    free_phys_pages fuel s' pages = Inr (s'', nullptr) \<and>
    pmm_inv s'' (drop (unat count) fs @ rev (take (unat count) fs)) rs \<and> same_pfndb s s''"
proof -
  have "pmm_held s nullptr [] fs rs" using assms(1) by (simp add: pmm_held_empty)
  from alloc_pages_loop_enough [OF this assms(2), of fuel]
  obtain s' pages where 1: "alloc_pages_loop fuel (unat count) s nullptr = Inr (s', pages, OK)"
    "pmm_held s' pages (rev (take (unat count) fs)) (drop (unat count) fs) rs" "same_pfndb s s'"
    by auto
  from free_phys_pages_appends [OF 1(2), of fuel] 1(1,3) assms(2,3) show ?thesis
    by (auto simp: alloc_phys_pages_def intro: same_pfndb_trans)
qed

theorem alloc_free_round_trip_witness:
  "\<exists>s' pages s''. alloc_phys_pages 3 small_pmm 2 = Inr (s', pages, OK) \<and>
    free_phys_pages 3 s' pages = Inr (s'', nullptr) \<and> pmm_inv s'' [4128, 4096] [4160]"
  using alloc_free_round_trip [OF small_pmm_inv, of 2 3] by auto

text \<open>
  The single-page functions: an allocation takes the first free page, which is then in
  neither list, or reports \<open>OUT_OF_MEMORY\<close> and changes nothing when there is none; freeing a
  page that is in neither list appends it to the free list.
\<close>

theorem single_page_ops:
  assumes "pmm_inv s fs rs"
  shows "(case fs of
      [] \<Rightarrow> alloc_phys_page_single s = Inr (s, Inl OUT_OF_MEMORY)
    | f # fs' \<Rightarrow> \<exists>s'. alloc_phys_page_single s = Inr (s', Inr f) \<and> pmm_inv s' fs' rs \<and>
        f \<notin> set fs' \<union> set rs \<and> same_pfndb s s') \<and>
    (\<forall>p. p \<noteq> nullptr \<longrightarrow> p \<notin> set fs \<union> set rs \<longrightarrow>
       (\<exists>s'. free_phys_page_single s p = Inr s' \<and> pmm_inv s' (fs @ [p]) rs \<and> same_pfndb s s'))"
  using alloc_single_some [of s _ _ rs] alloc_single_none [of s rs] free_single_appends [OF assms] assms
  by (fastforce split: list.split)

theorem single_page_ops_witness:
  "\<exists>s'. alloc_phys_page_single small_pmm = Inr (s', Inr 4096) \<and> pmm_inv s' [4128] [4160]"
  using single_page_ops [OF small_pmm_inv] by auto

text \<open>
  \<open>Page::paddr\<close> of the \<open>i\<close>-th entry of the frame array is \<open>i\<close> times the page size, for
  every frame number below \<open>2 ^ 52\<close> (the physical address width), wherever the array is: the
  frame numbers and the entries of the database correspond one to one.
\<close>

theorem paddr_of_entry:
  assumes "i < 2 ^ 52"
  shows "paddr s (pm_arr s + of_nat i * sizeof_Page) = of_nat i * page_size64"
proof -
  have "signed_drop_bit 5 (of_nat i * 32 :: u64) = of_nat i"
    using assms by (rule signed_drop_entry)
  then show ?thesis by (simp add: paddr_def sizeof_Page_def)
qed

theorem paddr_of_entry_witness:
  "paddr small_pmm (4096 + 2 * sizeof_Page) = 8192"
  using paddr_of_entry [of 2 small_pmm] by (simp add: small_pmm_def)

end
