(* ===== verification/Arch_Paging.thy ===== *)
theory Arch_Paging
  imports Core_Pmm
begin

text \<open>
  The paging part of \<open>arch/x86-64/types.h\<close> and \<open>arch/x86-64/mmu.cc\<close>.

  The machine side is the four-level page walk of the processor over physical memory (a
  function from the physical addresses of 64-bit words), for 4 KiB pages: the code sets up no
  larger ones. The kernel reads and writes page tables through virtual addresses under the
  recursive entry 511 of the PML4, so every access of the model goes through the walk, and an
  access under a non-present entry is the fault \<open>PageFault\<close>. Cached translations (the TLB)
  and access rights are not modelled.
\<close>

section \<open>Addresses and table indices\<close>

definition canonicalize :: "vaddr_t \<Rightarrow> vaddr_t" where
  "canonicalize addr = signed_drop_bit 16 (push_bit 16 addr)"

definition virt_from_index :: "u16 \<Rightarrow> u16 \<Rightarrow> u16 \<Rightarrow> u16 \<Rightarrow> vaddr_t" where
  "virt_from_index pml4e pdpte pde pte =
     canonicalize
       (push_bit 39 (ucast (pml4e AND 0x1FF)) OR push_bit 30 (ucast (pdpte AND 0x1FF)) OR
        push_bit 21 (ucast (pde AND 0x1FF)) OR push_bit 12 (ucast (pte AND 0x1FF)))"

definition pml4e_index :: "vaddr_t \<Rightarrow> u16" where
  "pml4e_index addr = ucast (drop_bit 39 addr AND 0x1FF)"

definition pdpte_index :: "vaddr_t \<Rightarrow> u16" where
  "pdpte_index addr = ucast (drop_bit 30 addr AND 0x1FF)"

definition pde_index :: "vaddr_t \<Rightarrow> u16" where
  "pde_index addr = ucast (drop_bit 21 addr AND 0x1FF)"

definition pte_index :: "vaddr_t \<Rightarrow> u16" where
  "pte_index addr = ucast (drop_bit 12 addr AND 0x1FF)"

lemmas index_defs = pml4e_index_def pdpte_index_def pde_index_def pte_index_def

section \<open>Page table entries and the page walk\<close>

text \<open>\<open>generic_page_entry\<close>: the union of the word and its bit fields.\<close>

definition entry_present :: "u64 \<Rightarrow> bool" where
  "entry_present data = bit data 0"

definition entry_addr :: "u64 \<Rightarrow> paddr_t" where
  "entry_addr data = push_bit 12 (take_bit 40 (drop_bit 12 data))"

definition walk_entry :: "(paddr_t \<Rightarrow> u64) \<Rightarrow> paddr_t \<Rightarrow> u16 \<Rightarrow> paddr_t option" where
  "walk_entry m table i =
     (let e = m (table + 8 * ucast i) in if entry_present e then Some (entry_addr e) else None)"

fun walk_path :: "(paddr_t \<Rightarrow> u64) \<Rightarrow> paddr_t \<Rightarrow> u16 list \<Rightarrow> paddr_t option" where
  "walk_path m table [] = Some table"
| "walk_path m table (i # is) = Option.bind (walk_entry m table i) (\<lambda>t. walk_path m t is)"

definition indices :: "vaddr_t \<Rightarrow> u16 list" where
  "indices virt = [pml4e_index virt, pdpte_index virt, pde_index virt, pte_index virt]"

definition translate :: "(paddr_t \<Rightarrow> u64) \<Rightarrow> paddr_t \<Rightarrow> vaddr_t \<Rightarrow> paddr_t option" where
  "translate m cr3 virt = map_option (\<lambda>page. page + take_bit 12 virt) (walk_path m cr3 (indices virt))"

section \<open>\<open>mmu.cc\<close>\<close>

record mmu =
  mm_pmm :: pmm
  mm_mem :: "paddr_t \<Rightarrow> u64"
  mm_cr3 :: paddr_t

definition read_virt :: "mmu \<Rightarrow> vaddr_t \<Rightarrow> u64 exec" where
  "read_virt s virt =
     (case translate (mm_mem s) (mm_cr3 s) virt of None \<Rightarrow> Inl PageFault | Some a \<Rightarrow> Inr (mm_mem s a))"

definition write_virt :: "mmu \<Rightarrow> vaddr_t \<Rightarrow> u64 \<Rightarrow> mmu exec" where
  "write_virt s virt data =
     (case translate (mm_mem s) (mm_cr3 s) virt of None \<Rightarrow> Inl PageFault
      | Some a \<Rightarrow> Inr (s\<lparr>mm_mem := (mm_mem s)(a := data)\<rparr>))"

text \<open>
  One \<open>if(!entry->f.present)\<close> block of \<open>map_single_page\<close>: the status is \<open>OK\<close> when the
  function goes on and an error when it returns.
\<close>

definition ensure_table :: "mmu \<Rightarrow> vaddr_t \<Rightarrow> u64 \<Rightarrow> vaddr_t \<Rightarrow> (mmu \<times> vaddr_t \<times> E) exec" where
  "ensure_table s entry flags pt_pages =
     bindE (read_virt s entry) (\<lambda>e.
     if entry_present e then Inr (s, pt_pages, OK)
     else bindE (alloc_phys_page_single (mm_pmm s)) (\<lambda>(p, ec).
          let s = s\<lparr>mm_pmm := p\<rparr> in
          case ec of
            Inl err \<Rightarrow> Inr (s, pt_pages, err)
          | Inr page \<Rightarrow>
            bindE (push_back_unsafe (pm_links (mm_pmm s)) pt_pages page) (\<lambda>(l, pt_pages).
            let s = s\<lparr>mm_pmm := (mm_pmm s)\<lparr>pm_links := l\<rparr>\<rparr> in
            bindE (write_virt s entry (paddr (mm_pmm s) page OR 1 OR flags)) (\<lambda>s.
            Inr (s, pt_pages, OK)))))"

definition table_entry :: "vaddr_t \<Rightarrow> u16 \<Rightarrow> vaddr_t" where
  "table_entry table i = table + 8 * ucast i"

definition map_single_page ::
  "mmu \<Rightarrow> paddr_t \<Rightarrow> vaddr_t \<Rightarrow> u64 \<Rightarrow> vaddr_t \<Rightarrow> (mmu \<times> vaddr_t \<times> E) exec" where
  "map_single_page s phys virt flags pt_pages =
     guardE (phys mod page_size64 = 0) AssertFailed
     (guardE (virt mod page_size64 = 0) AssertFailed
      (let pml4e_idx = pml4e_index virt; pdpte_idx = pdpte_index virt;
           pde_idx = pde_index virt; pte_idx = pte_index virt;
           pml4 = virt_from_index 511 511 511 511;
           pdpt = virt_from_index 511 511 511 pml4e_idx;
           pd = virt_from_index 511 511 pdpte_idx pml4e_idx;
           pt = virt_from_index 511 pde_idx pdpte_idx pml4e_idx
       in bindE (ensure_table s (table_entry pml4 pml4e_idx) flags pt_pages) (\<lambda>(s, pt_pages, ec).
          if ec \<noteq> OK then Inr (s, pt_pages, ec)
          else bindE (ensure_table s (table_entry pdpt pdpte_idx) flags pt_pages) (\<lambda>(s, pt_pages, ec).
          if ec \<noteq> OK then Inr (s, pt_pages, ec)
          else bindE (ensure_table s (table_entry pd pde_idx) flags pt_pages) (\<lambda>(s, pt_pages, ec).
          if ec \<noteq> OK then Inr (s, pt_pages, ec)
          else bindE (write_virt s (table_entry pt pte_idx) (phys OR 1 OR flags)) (\<lambda>s.
               Inr (s, pt_pages, OK)))))))"

text \<open>
  The loop of \<open>map_pages\<close>. Both the variable \<open>ec\<close> and the temporary that \<open>map_single_page\<close>
  returns are \<open>Result<void>\<close> objects; the temporary is destroyed at the end of the assignment,
  and \<open>ec\<close> when the function returns.
\<close>

fun map_pages_loop ::
  "nat \<Rightarrow> mmu \<Rightarrow> iterator \<Rightarrow> iterator \<Rightarrow> vaddr_t \<Rightarrow> u64 \<Rightarrow> vaddr_t \<Rightarrow> result_void \<Rightarrow> (mmu \<times> result_void) exec"
where
  "map_pages_loop 0 s it e virt flags pt_pages ec = Inl OutOfFuel"
| "map_pages_loop (Suc fuel) s it e virt flags pt_pages ec =
     (if it = e then bindE (void_destroy ec) (\<lambda>_. Inr (s, void_of_error OK))
      else bindE (map_single_page s (paddr (mm_pmm s) (it_list it)) virt flags pt_pages)
             (\<lambda>(s, pt_pages, err).
           let temporary = void_of_error err; ec = temporary in
           bindE (void_destroy temporary) (\<lambda>_.
           let (ec, ok) = void_bool ec in
           if \<not> ok
           then bindE (free_phys_pages fuel (mm_pmm s) pt_pages) (\<lambda>(p, pt_pages).
                bindE (void_destroy ec) (\<lambda>_. Inr (s\<lparr>mm_pmm := p\<rparr>, ec)))
           else bindE (it_incr (pm_links (mm_pmm s)) it) (\<lambda>it.
                map_pages_loop fuel s it e (virt + page_size64) flags pt_pages ec))))"

definition map_pages :: "nat \<Rightarrow> mmu \<Rightarrow> vaddr_t \<Rightarrow> vaddr_t \<Rightarrow> u64 \<Rightarrow> (mmu \<times> result_void) exec" where
  "map_pages fuel s pages virt flags =
     map_pages_loop fuel s (list_begin pages) (list_end pages) virt flags nullptr (void_of_error OK)"

section \<open>Indices and addresses correspond\<close>

lemma mask9: "(0x1FF :: 'a::len word) = mask 9"
  by (simp add: mask_eq_exp_minus_1)

lemma bit_virt_from_index:
  assumes "n < 48"
  shows "bit (virt_from_index a b c d) n \<longleftrightarrow>
    (if n < 12 then False else if n < 21 then bit d (n - 12) else if n < 30 then bit c (n - 21)
     else if n < 39 then bit b (n - 30) else bit a (n - 39))"
  using assms unfolding virt_from_index_def canonicalize_def mask9
  by (auto simp: bit_simps)

lemma bit_virt_from_index_high:
  assumes "48 \<le> n" and "n < 64"
  shows "bit (virt_from_index a b c d) n \<longleftrightarrow> bit a 8"
  using assms unfolding virt_from_index_def canonicalize_def mask9
  by (auto simp: bit_simps)

definition index_ok :: "u16 \<Rightarrow> bool" where
  "index_ok i \<longleftrightarrow> i < 512"

lemma index_ok_iff: "index_ok i \<longleftrightarrow> take_bit 9 i = i"
proof -
  have "index_ok i \<longleftrightarrow> unat i < 2 ^ 9" by (simp add: index_ok_def word_less_nat_alt)
  also have "\<dots> \<longleftrightarrow> take_bit 9 (unat i) = unat i" by (rule take_bit_nat_eq_self_iff [symmetric])
  also have "\<dots> \<longleftrightarrow> take_bit 9 i = i" by (simp add: word_unat_eq_iff unsigned_take_bit_eq)
  finally show ?thesis .
qed

lemma index_ok_bit: "index_ok i \<Longrightarrow> bit i n \<Longrightarrow> n < 9"
  by (metis index_ok_iff bit_take_bit_iff)

lemma index_ok_index [simp]:
  "index_ok (pml4e_index v)" "index_ok (pdpte_index v)" "index_ok (pde_index v)" "index_ok (pte_index v)"
  unfolding index_ok_iff index_defs mask9 by (auto intro!: bit_eqI simp: bit_simps)

lemma bit_index:
  "bit (pml4e_index v) n \<longleftrightarrow> n < 9 \<and> bit v (39 + n)"
  "bit (pdpte_index v) n \<longleftrightarrow> n < 9 \<and> bit v (30 + n)"
  "bit (pde_index v) n \<longleftrightarrow> n < 9 \<and> bit v (21 + n)"
  "bit (pte_index v) n \<longleftrightarrow> n < 9 \<and> bit v (12 + n)"
  unfolding index_defs mask9 by (auto simp: bit_simps add.commute)

lemma index_of_virt:
  assumes "index_ok a" and "index_ok b" and "index_ok c" and "index_ok d"
    and "\<And>n. 12 \<le> n \<Longrightarrow> n < 48 \<Longrightarrow> bit v n = bit (virt_from_index a b c d) n"
  shows "indices v = [a, b, c, d]"
proof -
  have "pml4e_index v = a" by (rule bit_eqI)
    (use assms in \<open>auto simp: bit_index bit_virt_from_index dest: index_ok_bit [of a]\<close>)
  moreover have "pdpte_index v = b" by (rule bit_eqI)
    (use assms in \<open>auto simp: bit_index bit_virt_from_index dest: index_ok_bit [of b]\<close>)
  moreover have "pde_index v = c" by (rule bit_eqI)
    (use assms in \<open>auto simp: bit_index bit_virt_from_index dest: index_ok_bit [of c]\<close>)
  moreover have "pte_index v = d" by (rule bit_eqI)
    (use assms in \<open>auto simp: bit_index bit_virt_from_index dest: index_ok_bit [of d]\<close>)
  ultimately show ?thesis by (simp add: indices_def)
qed

text \<open>\<open>off\<close> is the offset of a page table entry in its page.\<close>

lemma bit_table_entry:
  assumes "index_ok i" and "\<And>n. n < 12 \<Longrightarrow> \<not> bit table n"
  shows "bit (table_entry table i) n \<longleftrightarrow> bit table n \<or> bit (push_bit 3 (ucast i) :: u64) n"
proof -
  have "8 * ucast i = (push_bit 3 (ucast i) :: u64)" by (simp add: push_bit_eq_mult)
  moreover have "\<not> (bit table n \<and> bit (push_bit 3 (ucast i) :: u64) n)" for n
    using assms(2) [of n] index_ok_bit [OF assms(1), of "n - 3"] by (cases "n < 12") (auto simp: bit_simps)
  then have "table AND push_bit 3 (ucast i) = 0" by (auto intro!: bit_eqI simp: bit_and_iff)
  ultimately have "table_entry table i = table OR push_bit 3 (ucast i)"
    by (simp add: table_entry_def disjunctive_add_eq_or)
  then show ?thesis by (simp add: bit_or_iff)
qed

lemma translate_table_entry:
  assumes "index_ok a" and "index_ok b" and "index_ok c" and "index_ok d" and "index_ok i"
  shows "translate m cr3 (table_entry (virt_from_index a b c d) i) =
    map_option (\<lambda>page. page + 8 * ucast i) (walk_path m cr3 [a, b, c, d])"
proof -
  let ?v = "virt_from_index a b c d"
  have bits: "bit (table_entry ?v i) n \<longleftrightarrow> bit ?v n \<or> bit (push_bit 3 (ucast i) :: u64) n" for n
    by (rule bit_table_entry [OF assms(5)]) (simp add: bit_virt_from_index)
  have "indices (table_entry ?v i) = [a, b, c, d]"
    by (rule index_of_virt [OF assms(1-4)])
      (auto simp: bits bit_simps dest: index_ok_bit [OF assms(5)])
  moreover have "take_bit 12 (table_entry ?v i) = push_bit 3 (ucast i)"
    by (rule bit_eqI)
      (auto simp: bits bit_simps bit_virt_from_index dest: index_ok_bit [OF assms(5)])
  moreover have "push_bit 3 (ucast i) = (8 * ucast i :: u64)" by (simp add: push_bit_eq_mult)
  ultimately show ?thesis by (simp only: translate_def)
qed

lemma bit_virt:
  "n < 64 \<Longrightarrow> bit (virt_from_index a b c d) n \<longleftrightarrow>
    (if n < 12 then False else if n < 21 then bit d (n - 12) else if n < 30 then bit c (n - 21)
     else if n < 39 then bit b (n - 30) else if n < 48 then bit a (n - 39) else bit a 8)"
  by (simp add: bit_virt_from_index bit_virt_from_index_high)

lemma page_aligned_bits: "v mod page_size64 = 0 \<longleftrightarrow> (\<forall>n < 12. \<not> bit v n)"
proof -
  have "v mod page_size64 = take_bit 12 v" by (simp add: take_bit_eq_mod)
  then show ?thesis by (auto simp: bit_eq_iff bit_simps dest: bit_imp_le_length)
qed

lemma virt_page_aligned: "virt_from_index a b c d mod page_size64 = 0"
  by (simp add: page_aligned_bits bit_virt del: page_size64_eq)

lemma virt_canonical: "canonicalize (virt_from_index a b c d) = virt_from_index a b c d"
  by (rule bit_eqI) (auto simp: canonicalize_def [of "virt_from_index a b c d"] bit_signed_drop_bit_iff bit_push_bit_iff bit_virt)

lemma virt_of_indices:
  assumes "canonicalize v = v" and "v mod page_size64 = 0"
  shows "virt_from_index (pml4e_index v) (pdpte_index v) (pde_index v) (pte_index v) = v"
proof -
  have high: "bit v n \<longleftrightarrow> bit v 47" if "48 \<le> n" "n < 64" for n
    using that arg_cong [OF assms(1), of "\<lambda>w. bit w n"] by (simp add: canonicalize_def bit_simps)
  have low: "\<not> bit v n" if "n < 12" for n
    using page_aligned_bits [of v] assms(2) that by (simp del: page_size64_eq)
  have "bit (virt_from_index (pml4e_index v) (pdpte_index v) (pde_index v) (pte_index v)) n = bit v n"
    if "n < 64" for n
    using that low [of n] high [of n] by (simp add: bit_virt bit_index less_diff_conv2)
  then show ?thesis by (intro bit_eqI) simp
qed

text \<open>
  C29. The conversions between virtual addresses and table indices are inverse to each other:
  the four indices of \<open>virt_from_index\<close> are those it was given (below 512), and rebuilding an
  address from its indices gives the address itself when it is canonical and page-aligned.
\<close>

theorem index_round_trip:
  "(a < 512 \<and> b < 512 \<and> c < 512 \<and> d < 512 \<longrightarrow>
     (let v = virt_from_index a b c d
      in pml4e_index v = a \<and> pdpte_index v = b \<and> pde_index v = c \<and> pte_index v = d \<and>
         canonicalize v = v \<and> v mod page_size64 = 0)) \<and>
   (canonicalize v = v \<and> v mod page_size64 = 0 \<longrightarrow>
     virt_from_index (pml4e_index v) (pdpte_index v) (pde_index v) (pte_index v) = v)"
proof (intro conjI impI)
  assume "a < 512 \<and> b < 512 \<and> c < 512 \<and> d < 512"
  then have "indices (virt_from_index a b c d) = [a, b, c, d]"
    by (intro index_of_virt) (simp_all add: index_ok_def)
  then show "let v = virt_from_index a b c d
      in pml4e_index v = a \<and> pdpte_index v = b \<and> pde_index v = c \<and> pte_index v = d \<and>
         canonicalize v = v \<and> v mod page_size64 = 0"
    using virt_canonical virt_page_aligned by (simp add: indices_def Let_def)
next
  assume "canonicalize v = v \<and> v mod page_size64 = 0"
  then show "virt_from_index (pml4e_index v) (pdpte_index v) (pde_index v) (pte_index v) = v"
    by (elim conjE) (rule virt_of_indices)
qed

theorem index_round_trip_witness:
  "pdpte_index (virt_from_index 511 510 1 2) = 510 \<and>
   virt_from_index (pml4e_index 0xFFFFFFFF80001000) (pdpte_index 0xFFFFFFFF80001000)
     (pde_index 0xFFFFFFFF80001000) (pte_index 0xFFFFFFFF80001000) = 0xFFFFFFFF80001000"
proof -
  have "canonicalize 0xFFFFFFFF80001000 = 0xFFFFFFFF80001000" by code_simp
  then show ?thesis
    using index_round_trip [of 511 510 1 2 "0xFFFFFFFF80001000"] by (simp add: Let_def)
qed

section \<open>The recursive mapping\<close>

text \<open>What \<open>(511, ...)\<close> addresses reach when PML4[511] is the PML4 itself (the comment of \<open>mmu.cc\<close>).\<close>

definition recursive_pml4 :: "mmu \<Rightarrow> bool" where
  "recursive_pml4 s \<longleftrightarrow> walk_entry (mm_mem s) (mm_cr3 s) 511 = Some (mm_cr3 s)"

lemma index_ok_511 [simp]: "index_ok 511"
  by (simp add: index_ok_def)

definition virt_path :: "mmu \<Rightarrow> u16 list \<Rightarrow> paddr_t option" where
  "virt_path s is = walk_path (mm_mem s) (mm_cr3 s) is"

lemma translate_recursive:
  assumes "recursive_pml4 s" and "index_ok b" and "index_ok c" and "index_ok d" and "index_ok i"
  shows "translate (mm_mem s) (mm_cr3 s) (table_entry (virt_from_index 511 b c d) i) =
    map_option (\<lambda>page. page + 8 * ucast i) (virt_path s [b, c, d])"
  using assms by (simp add: translate_table_entry recursive_pml4_def virt_path_def)

lemma virt_path_511:
  assumes "recursive_pml4 s"
  shows "virt_path s (511 # is) = virt_path s is"
  using assms by (simp add: recursive_pml4_def virt_path_def)

lemma ensure_table_present:
  assumes "translate (mm_mem s) (mm_cr3 s) entry = Some a" and "entry_present (mm_mem s a)"
  shows "ensure_table s entry flags pt_pages = Inr (s, pt_pages, OK)"
  using assms by (simp add: ensure_table_def read_virt_def)

text \<open>The entry at the end of a path of tables, and that it is present.\<close>

lemma walk_path_snoc:
  "walk_path m t (is @ [i]) = Option.bind (walk_path m t is) (\<lambda>t. walk_entry m t i)"
  by (induction "is" arbitrary: t) (auto split: bind_split)

lemma ensure_table_recursive:
  assumes "recursive_pml4 s" and "index_ok b" and "index_ok c" and "index_ok d" and "index_ok i"
    and "virt_path s [b, c, d, i] \<noteq> None"
  shows "ensure_table s (table_entry (virt_from_index 511 b c d) i) flags pt_pages = Inr (s, pt_pages, OK)"
proof -
  obtain t where t: "virt_path s [b, c, d] = Some t" "walk_entry (mm_mem s) t i \<noteq> None"
    using assms(6) walk_path_snoc [of "mm_mem s" "mm_cr3 s" "[b, c, d]" i]
    by (auto simp: virt_path_def split: bind_splits)
  show ?thesis
    by (rule ensure_table_present)
      (use t translate_recursive [OF assms(1-5)] in \<open>auto simp: walk_entry_def Let_def split: if_splits\<close>)
qed

lemma map_single_page_writes:
  assumes "recursive_pml4 s" and "phys mod page_size64 = 0" and "virt mod page_size64 = 0"
    and "indices virt = [i4, i3, i2, i1]"
    and "virt_path s [i4, i3] \<noteq> None" and "virt_path s [i3, i4, i2] \<noteq> None"
    and "virt_path s [i2, i3, i4] = Some table"
  shows "map_single_page s phys virt flags pt_pages =
      Inr (s\<lparr>mm_mem := (mm_mem s)(table + 8 * ucast i1 := phys OR 1 OR flags)\<rparr>, pt_pages, OK)"
proof -
  have i: "pml4e_index virt = i4" "pdpte_index virt = i3" "pde_index virt = i2" "pte_index virt = i1"
    using assms(4) by (simp_all add: indices_def)
  have ok: "index_ok i4" "index_ok i3" "index_ok i2" "index_ok i1"
    using index_ok_index [of virt] by (simp_all add: i)
  note ens = ensure_table_recursive [OF assms(1)]
  have "ensure_table s (table_entry (virt_from_index 511 511 511 511) i4) flags pt_pages = Inr (s, pt_pages, OK)"
    by (rule ens) (use assms(1,5) ok in \<open>simp_all add: virt_path_511, simp add: virt_path_def split: bind_splits\<close>)
  moreover have "ensure_table s (table_entry (virt_from_index 511 511 511 i4) i3) flags pt_pages = Inr (s, pt_pages, OK)"
    by (rule ens) (use assms(1,5) ok in \<open>simp_all add: virt_path_511\<close>)
  moreover have "ensure_table s (table_entry (virt_from_index 511 511 i3 i4) i2) flags pt_pages = Inr (s, pt_pages, OK)"
    by (rule ens) (use assms(1,6) ok in \<open>simp_all add: virt_path_511\<close>)
  moreover have "translate (mm_mem s) (mm_cr3 s) (table_entry (virt_from_index 511 i2 i3 i4) i1) = Some (table + 8 * ucast i1)"
    using translate_recursive [OF assms(1) ok(3,2,1,4)] assms(7) by simp
  ultimately show ?thesis
    using assms(2,3) by (simp add: map_single_page_def i write_virt_def Let_def del: page_size64_eq)
qed

text \<open>
  C30. \<open>map_single_page\<close> uses the table indices of \<open>virt\<close> in the opposite order at the two lower
  levels. With the recursive mapping in place and the tables it looks at present, it writes
  exactly one word, the entry for \<open>phys\<close> in the table that the processor uses for the address
  with the PML4 and page directory indices of \<open>virt\<close> exchanged; that word belongs to \<open>virt\<close>
  itself when the two indices are equal.
\<close>

theorem map_single_page_target:
  assumes "recursive_pml4 s" and "phys mod page_size64 = 0" and "virt mod page_size64 = 0"
    and "canonicalize virt = virt" and "indices virt = [i4, i3, i2, i1]"
    and "virt_path s [i4, i3] \<noteq> None" and "virt_path s [i3, i4, i2] \<noteq> None"
    and "virt_path s [i2, i3, i4] = Some table"
  shows "map_single_page s phys virt flags pt_pages =
      Inr (s\<lparr>mm_mem := (mm_mem s)(table + 8 * ucast i1 := phys OR 1 OR flags)\<rparr>, pt_pages, OK) \<and>
    (let virt' = virt_from_index i2 i3 i4 i1
     in indices virt' = [i2, i3, i4, i1] \<and> (i2 = i4 \<longrightarrow> virt' = virt) \<and>
        (translate (mm_mem s) (mm_cr3 s) virt' =
           (if entry_present (mm_mem s (table + 8 * ucast i1))
            then Some (entry_addr (mm_mem s (table + 8 * ucast i1))) else None)))"
proof -
  have i: "pml4e_index virt = i4" "pdpte_index virt = i3" "pde_index virt = i2" "pte_index virt = i1"
    using assms(5) by (simp_all add: indices_def)
  have ok: "index_ok i4" "index_ok i3" "index_ok i2" "index_ok i1"
    using index_ok_index [of virt] by (simp_all add: i)
  note map = map_single_page_writes [OF assms(1,2,3,5,6,7,8)]
  have idx: "indices (virt_from_index i2 i3 i4 i1) = [i2, i3, i4, i1]"
    by (rule index_of_virt [OF ok(3,2,1,4)]) simp
  have "take_bit 12 (virt_from_index i2 i3 i4 i1) = 0"
    using virt_page_aligned [of i2 i3 i4 i1] by (simp add: take_bit_eq_mod)
  then have "translate (mm_mem s) (mm_cr3 s) (virt_from_index i2 i3 i4 i1) = walk_entry (mm_mem s) table i1"
    using assms(8) walk_path_snoc [of "mm_mem s" "mm_cr3 s" "[i2, i3, i4]" i1]
    by (simp add: translate_def idx virt_path_def option.map_ident)
  moreover have "i2 = i4 \<longrightarrow> virt_from_index i2 i3 i4 i1 = virt"
    using virt_of_indices [OF assms(4,3)] i by metis
  ultimately show ?thesis using map [of flags pt_pages] idx by (simp add: walk_entry_def Let_def)
qed

text \<open>
  Page tables at 0x1000 to 0x7000 for an address with the indices 1, 2, 3 and 4: the path the
  processor takes and the two paths \<open>map_single_page\<close> takes.
\<close>

definition example_mmu :: mmu where
  "example_mmu = \<lparr>mm_pmm = \<lparr>pm_links = \<lparr>nexts = (\<lambda>_. 0), prevs = (\<lambda>_. 0)\<rparr>, pm_free = 0, pm_rsrv = 0,
       pm_total = 0, pm_arr = 0\<rparr>,
     mm_mem = (\<lambda>_. 0)(0x1FF8 := 0x1003, 0x1008 := 0x2003, 0x1010 := 0x3003, 0x1018 := 0x4003,
       0x2010 := 0x8003, 0x3008 := 0x5003, 0x5018 := 0x9003, 0x4010 := 0x6003, 0x6008 := 0x7003),
     mm_cr3 = 0x1000\<rparr>"

lemma example_indices: "indices (virt_from_index 1 2 3 4) = [1, 2, 3, 4]"
  by (rule index_of_virt) (simp_all add: index_ok_def)

lemma example_paths:
  assumes "mm_mem s = mm_mem example_mmu" and "mm_cr3 s = mm_cr3 example_mmu"
  shows "recursive_pml4 s" "virt_path s [1, 2] \<noteq> None" "virt_path s [2, 1, 3] \<noteq> None"
    "virt_path s [3, 2, 1] = Some 0x7000"
  using assms
  by (simp_all add: recursive_pml4_def virt_path_def walk_entry_def example_mmu_def entry_present_def
      entry_addr_def take_bit_eq_mod drop_bit_eq_div bit_0 push_bit_eq_mult)

theorem map_single_page_target_witness:
  "map_single_page example_mmu 0xA000 (virt_from_index 1 2 3 4) 2 0 =
     Inr (example_mmu\<lparr>mm_mem := (mm_mem example_mmu)(0x7020 := 0xA003)\<rparr>, 0, OK)"
proof -
  have "(0xA000 :: u64) OR 1 OR 2 = 0xA003" by code_simp
  then show ?thesis
    using map_single_page_target [OF example_paths(1) _ virt_page_aligned virt_canonical example_indices example_paths(2-4),
        where s = example_mmu and phys = "0xA000" and flags = 2 and pt_pages = 0]
    by simp
qed

text \<open>
  \<open>map_pages\<close> never returns to its caller: the results of \<open>map_single_page\<close> are destroyed
  without having been checked, which panics after the first page; for an empty list of pages
  the initial result is destroyed unchecked instead.
\<close>

theorem map_pages_panics:
  "(\<forall>s'. map_pages fuel s pages virt flags \<noteq> Inr s') \<and>
   (pages = nullptr \<and> 0 < fuel \<longrightarrow> map_pages fuel s pages virt flags = Inl Panicked) \<and>
   (pages \<noteq> nullptr \<and> 0 < fuel \<and>
      map_single_page s (paddr (mm_pmm s) pages) virt flags nullptr = Inr (s', pt, err) \<longrightarrow>
    map_pages fuel s pages virt flags = Inl Panicked)"
proof -
  have armed: "void_destroy (void_of_error e) = Inl Panicked" for e
    by (simp add: void_destroy_def void_of_error_def)
  show ?thesis
    by (cases fuel) (auto simp: map_pages_def armed Let_def exec_simps list_begin_def list_end_def)
qed

theorem map_pages_panics_witness:
  "map_pages 1 (example_mmu\<lparr>mm_pmm := (mm_pmm example_mmu)\<lparr>pm_arr := 0x1FEC0\<rparr>\<rparr>) 0x20000
     (virt_from_index 1 2 3 4) 2 = Inl Panicked"
proof -
  let ?s = "example_mmu\<lparr>mm_pmm := (mm_pmm example_mmu)\<lparr>pm_arr := 0x1FEC0\<rparr>\<rparr>"
  let ?v = "virt_from_index 1 2 3 4"
  have "paddr (mm_pmm ?s) 0x20000 = 0xA000"
    unfolding paddr_def example_mmu_def by simp
  moreover obtain s' where "map_single_page ?s 0xA000 ?v 2 nullptr = Inr (s', nullptr, OK)"
    using map_single_page_writes [OF example_paths(1) _ virt_page_aligned example_indices example_paths(2-4),
        where s = ?s and phys = "0xA000" and flags = 2 and pt_pages = nullptr]
    by simp
  ultimately show ?thesis using map_pages_panics [of 1 ?s "0x20000" ?v 2] by simp
qed

end
