(* ===== verification/Loader_Mem.thy ===== *)
theory Loader_Mem
  imports Loader_Multiboot Arch_Paging
begin

text \<open>
  \<open>loader/x86-64-multiboot2/mem.cc\<close>: the early allocator over the memory map, the page frame
  database it sets up, and the page tables of the loader.

  The loader runs in 32-bit mode with paging off: pointers are truncated to 32 bits
  (\<open>as_ptr\<close>), and a pointer is a physical address. Page table words are words of physical
  memory. The addresses of the linker symbols are in the initial reserved ranges. Log output
  is added in \<open>Loader_Entry\<close>.
\<close>

section \<open>State\<close>

record range =
  rg_begin :: u64
  rg_end :: u64

record loader =
  ld_pmm :: pmm
  ld_mem :: "paddr_t \<Rightarrow> u64"
  ld_reserved :: "range list"
  ld_mmap :: u32
  ld_it :: u32
  ld_sz_bytes :: paddr_t
  ld_sz_pgs :: paddr_t
  ld_pml4 :: paddr_t

definition as_ptr :: "u64 \<Rightarrow> vaddr_t" where
  "as_ptr a = ucast (ucast a :: u32)"

definition initial_reserved :: "u64 \<Rightarrow> u64 \<Rightarrow> range list" where
  "initial_reserved loader_begin loader_end =
     [\<lparr>rg_begin = 0, rg_end = page_size64 - 1\<rparr>, \<lparr>rg_begin = loader_begin, rg_end = loader_end - 1\<rparr>,
      \<lparr>rg_begin = 0, rg_end = 0\<rparr>, \<lparr>rg_begin = 0, rg_end = 0\<rparr>]"

section \<open>The early allocator\<close>

definition is_in :: "u32 \<Rightarrow> range \<Rightarrow> bool" where
  "is_in ptr r \<longleftrightarrow> rg_begin r \<le> ucast ptr \<and> ucast ptr < rg_end r"

definition is_page_reserved :: "range list \<Rightarrow> u64 \<Rightarrow> bool" where
  "is_page_reserved rs page \<longleftrightarrow>
     list_ex (\<lambda>r. is_in (ucast (page * page_size64)) r \<or> is_in (ucast ((page + 1) * page_size64)) r) rs"

lemma unat_incr:
  fixes i :: u64
  assumes "i < stop"
  shows "unat (i + 1) = Suc (unat i)"
proof -
  have "unat i < unat stop" using assms by (simp add: word_less_nat_alt)
  moreover have "unat stop < 2 ^ 64" using unsigned_less [of stop] by simp
  ultimately have "unat i + 1 < 2 ^ LENGTH(64)" by simp
  then show ?thesis by (subst unat_plus_no_wrap) simp_all
qed

text \<open>The inner loop of \<open>search_run\<close>, then the outer one.\<close>

function run_free :: "range list \<Rightarrow> u64 \<Rightarrow> u64 \<Rightarrow> bool" where
  "run_free rs i stop =
     (if i < stop then (if is_page_reserved rs i then False else run_free rs (i + 1) stop) else True)"
  by pat_completeness auto
termination
  by (relation "measure (\<lambda>(rs, i, stop). unat stop - unat i)")
    (auto simp: unat_incr word_less_nat_alt)

function search_from :: "range list \<Rightarrow> u64 \<Rightarrow> u64 \<Rightarrow> u64 \<Rightarrow> paddr_t option" where
  "search_from rs pages ptr stop =
     (if ptr < stop
      then (if run_free rs ptr (ptr + pages) then Some (ptr * page_size64)
            else search_from rs pages (ptr + 1) stop)
      else None)"
  by pat_completeness auto
termination
  by (relation "measure (\<lambda>(rs, pages, ptr, stop). unat stop - unat ptr)")
    (auto simp: unat_incr word_less_nat_alt)

declare run_free.simps [simp del] search_from.simps [simp del]

definition search_run :: "range list \<Rightarrow> u64 \<Rightarrow> paddr_t \<Rightarrow> paddr_t \<Rightarrow> paddr_t option" where
  "search_run rs pages base limit =
     (let base = base div page_size64; limit = limit div page_size64
      in search_from rs pages base (limit - pages))"

text \<open>The loop over the entries that are not available memory; the iterator \<open>0\<close> is \<open>end()\<close>.\<close>

fun skip_unavailable :: "nat \<Rightarrow> boot_info \<Rightarrow> u32 \<Rightarrow> u32 \<Rightarrow> u32 exec" where
  "skip_unavailable 0 b mmap it = Inl OutOfFuel"
| "skip_unavailable (Suc fuel) b mmap it =
     (if entry_type b it \<noteq> MEMORY_AVAILABLE
      then bindE (mmap_incr b mmap it) (\<lambda>it.
           guardE (it \<noteq> 0) AssertFailed (skip_unavailable fuel b mmap it))
      else Inr it)"

fun early_pmm_alloc_cts :: "nat \<Rightarrow> boot_info \<Rightarrow> loader \<Rightarrow> u64 \<Rightarrow> nat \<Rightarrow> (loader \<times> paddr_t) exec" where
  "early_pmm_alloc_cts fuel b s pages 0 = Inl AssertFailed"
| "early_pmm_alloc_cts fuel b s pages (Suc slimit) =
     guardE (ld_it s \<noteq> 0) AssertFailed
     (bindE (skip_unavailable fuel b (ld_mmap s) (ld_it s)) (\<lambda>it.
      let s = s\<lparr>ld_it := it\<rparr>;
          page_bas = page_align_up (entry_base b it);
          page_lim = page_align_down (entry_base b it + entry_len b it)
      in case search_run (ld_reserved s) pages page_bas page_lim of
           Some result \<Rightarrow> Inr (s, result)
         | None \<Rightarrow> bindE (mmap_incr b (ld_mmap s) it) (\<lambda>it.
                   early_pmm_alloc_cts fuel b (s\<lparr>ld_it := it\<rparr>) pages slimit)))"

section \<open>The page frame database\<close>

definition page_at :: "vaddr_t \<Rightarrow> u64 \<Rightarrow> vaddr_t" where
  "page_at arr i = as_ptr (arr + i * sizeof_Page)"

text \<open>\<open>memset(p, 0, n)\<close> on the list links and on the page table words that lie in the range.\<close>

definition in_area :: "vaddr_t \<Rightarrow> u64 \<Rightarrow> u64 \<Rightarrow> bool" where
  "in_area p n a \<longleftrightarrow> a - p < n"

definition clear_memory :: "vaddr_t \<Rightarrow> u64 \<Rightarrow> loader \<Rightarrow> loader" where
  "clear_memory p n s =
     s\<lparr>ld_pmm := (ld_pmm s)\<lparr>pm_links :=
         \<lparr>nexts = (\<lambda>a. if in_area p n a then 0 else nexts (pm_links (ld_pmm s)) a),
          prevs = (\<lambda>a. if in_area p n a then 0 else prevs (pm_links (ld_pmm s)) a)\<rparr>\<rparr>,
       ld_mem := (\<lambda>a. if in_area p n a then 0 else ld_mem s a)\<rparr>"

text \<open>The loop that sorts the pages into the two lists: \<open>left\<close> pages from page \<open>i\<close> on.\<close>

fun init_pfndb :: "nat \<Rightarrow> range list \<Rightarrow> u64 \<Rightarrow> pmm \<Rightarrow> pmm exec" where
  "init_pfndb 0 rs i s = Inr s"
| "init_pfndb (Suc left) rs i s =
     bindE (if is_page_reserved rs i
            then bindE (push_back_unsafe (pm_links s) (pm_rsrv s) (page_at (pm_arr s) i)) (\<lambda>(l, r).
                 Inr (s\<lparr>pm_links := l, pm_rsrv := r\<rparr>))
            else bindE (push_back_unsafe (pm_links s) (pm_free s) (page_at (pm_arr s) i)) (\<lambda>(l, r).
                 Inr (s\<lparr>pm_links := l, pm_free := r\<rparr>)))
       (\<lambda>s. init_pfndb left rs (i + 1) s)"

definition largest_phys_addr :: "nat \<Rightarrow> boot_info \<Rightarrow> u32 \<Rightarrow> paddr_t exec" where
  "largest_phys_addr fuel b mmap =
     for_entries fuel b mmap (mmap_entries mmap)
       (\<lambda>e largest. if entry_type b e \<noteq> MEMORY_AVAILABLE then largest
                    else ebl_max largest (entry_base b e + entry_len b e)) 0"

text \<open>
  The parts of \<open>bootstrap_pmm\<close>: the reserved ranges and the iterator, the allocation of the database,
  its initialisation, and the check of the sizes.
\<close>

definition reserve_boot :: "boot_info \<Rightarrow> loader \<Rightarrow> range \<Rightarrow> u32 \<Rightarrow> loader exec" where
  "reserve_boot b s res mmap =
     bindE (tag_size b mmap) (\<lambda>sz.
     Inr (s\<lparr>ld_reserved := (ld_reserved s)
                  [2 := \<lparr>rg_begin = ucast mmap, rg_end = ucast mmap + ucast sz - 1\<rparr>, 3 := res],
             ld_mmap := mmap, ld_it := mmap_entries mmap\<rparr>))"

definition alloc_pfndb :: "nat \<Rightarrow> boot_info \<Rightarrow> u32 \<Rightarrow> loader \<Rightarrow> loader exec" where
  "alloc_pfndb fuel b mmap s =
     bindE (largest_phys_addr fuel b mmap) (\<lambda>largest.
     let total = page_align_down largest div page_size64;
         s = s\<lparr>ld_pmm := (ld_pmm s)\<lparr>pm_total := total\<rparr>, ld_sz_bytes := total * sizeof_Page,
               ld_sz_pgs := page_align_up (total * sizeof_Page) div page_size64\<rparr> in
     bindE (early_pmm_alloc_cts fuel b s (ld_sz_pgs s) 10) (\<lambda>(s, arr).
     Inr (s\<lparr>ld_pmm := (ld_pmm s)\<lparr>pm_arr := as_ptr arr\<rparr>\<rparr>)))"

definition bootstrap_alloc :: "nat \<Rightarrow> boot_info \<Rightarrow> loader \<Rightarrow> range \<Rightarrow> u32 \<Rightarrow> loader exec" where
  "bootstrap_alloc fuel b s res mmap = bindE (reserve_boot b s res mmap) (alloc_pfndb fuel b mmap)"

definition pfndb_ranges :: "loader \<Rightarrow> range list" where
  "pfndb_ranges s = (ld_reserved s)
     [2 := \<lparr>rg_begin = pm_arr (ld_pmm s), rg_end = pm_arr (ld_pmm s) + ld_sz_bytes s\<rparr>]"

definition fill_pfndb :: "loader \<Rightarrow> loader exec" where
  "fill_pfndb s =
     (let s = clear_memory (pm_arr (ld_pmm s)) (as_ptr (ld_sz_bytes s)) s;
          s = s\<lparr>ld_reserved := pfndb_ranges s\<rparr> in
      bindE (init_pfndb (unat (pm_total (ld_pmm s))) (ld_reserved s) 0 (ld_pmm s)) (\<lambda>p. Inr (s\<lparr>ld_pmm := p\<rparr>)))"

definition verify_pfndb :: "nat \<Rightarrow> loader \<Rightarrow> loader exec" where
  "verify_pfndb fuel s =
     (let p = ld_pmm s in
      bindE (list_size fuel (pm_links p) (pm_free p)) (\<lambda>x.
      bindE (list_size fuel (pm_links p) (pm_rsrv p)) (\<lambda>y.
      guardE (x + y = pm_total p) AssertFailed (Inr s))))"

definition bootstrap_pmm :: "nat \<Rightarrow> boot_info \<Rightarrow> loader \<Rightarrow> range \<Rightarrow> u32 \<Rightarrow> loader exec" where
  "bootstrap_pmm fuel b s res mmap =
     bindE (bootstrap_alloc fuel b s res mmap) (\<lambda>s. bindE (fill_pfndb s) (verify_pfndb fuel))"

section \<open>The page tables\<close>

definition pmm_alloc_page :: "loader \<Rightarrow> (loader \<times> paddr_t) exec" where
  "pmm_alloc_page s =
     bindE (pop_front_unsafe (pm_links (ld_pmm s)) (pm_free (ld_pmm s))) (\<lambda>(l, r, node).
     let p = (ld_pmm s)\<lparr>pm_links := l, pm_free := r\<rparr> in
     guardE (node \<noteq> nullptr) AssertFailed
     (bindE (push_back_unsafe (pm_links p) (pm_rsrv p) node) (\<lambda>(l, r).
      let p = p\<lparr>pm_links := l, pm_rsrv := r\<rparr>;
          i = scast (signed_drop_bit 5 (ucast node - ucast (pm_arr p) :: u32)) :: u64 in
      guardE (page_at (pm_arr p) i = node) AssertFailed
      (let page = i * page_size64
       in Inr (clear_memory (as_ptr page) page_size64 (s\<lparr>ld_pmm := p\<rparr>), page)))))"

text \<open>One level of \<open>map_page\<close>: the entry, filled with a new table if it is not present, leads to the next table.\<close>

definition next_table :: "loader \<Rightarrow> paddr_t \<Rightarrow> u16 \<Rightarrow> u64 \<Rightarrow> (loader \<times> paddr_t) exec" where
  "next_table s table i flags =
     (let e = table + 8 * ucast i in
      bindE (if entry_present (ld_mem s e) then Inr s
             else bindE (pmm_alloc_page s) (\<lambda>(s, page).
                  Inr (s\<lparr>ld_mem := (ld_mem s)(e := page OR 1 OR flags)\<rparr>))) (\<lambda>s.
      Inr (s, ld_mem s e AND 0xFFFFF800)))"

definition map_page :: "loader \<Rightarrow> paddr_t \<Rightarrow> vaddr_t \<Rightarrow> u64 \<Rightarrow> loader exec" where
  "map_page s phys virt flags =
     guardE (phys mod page_size64 = 0) AssertFailed
     (guardE (virt mod page_size64 = 0) AssertFailed
      (bindE (next_table s (ld_pml4 s) (pml4e_index virt) flags) (\<lambda>(s, pdpt).
       bindE (next_table s pdpt (pdpte_index virt) flags) (\<lambda>(s, pd).
       bindE (next_table s pd (pde_index virt) flags) (\<lambda>(s, pt).
       let pte = pt + 8 * ucast (pte_index virt) in
       Inr (if entry_present (ld_mem s pte) then s
            else s\<lparr>ld_mem := (ld_mem s)(pte := phys OR 1 OR flags)\<rparr>))))))"

definition setup_paging :: "loader \<Rightarrow> (loader \<times> u64) exec" where
  "setup_paging s =
     bindE (pmm_alloc_page s) (\<lambda>(s, page).
     let s = clear_memory (as_ptr page) page_size64 (s\<lparr>ld_pml4 := as_ptr page\<rparr>);
         s = s\<lparr>ld_mem := (ld_mem s)(ld_pml4 s + 8 * 511 := ld_pml4 s OR 3)\<rparr>
     in Inr (s, ld_pml4 s))"

section \<open>The search for a run of pages\<close>






section \<open>The database sorts all pages into the two lists\<close>

lemma pmm_push_rsrv:
  assumes "pmm_inv s fs rs" and "n \<notin> set fs" and "n \<notin> set rs" and "n \<noteq> nullptr"
  shows "\<exists>l r. push_back_unsafe (pm_links s) (pm_rsrv s) n = Inr (l, r) \<and>
    pmm_inv (s\<lparr>pm_links := l, pm_rsrv := r\<rparr>) fs (rs @ [n])"
proof -
  have h: "ilist (pm_links s) (pm_free s) fs" "ilist (pm_links s) (pm_rsrv s) rs" and d: "set fs \<inter> set rs = {}"
    using assms(1) by (auto simp: pmm_inv_def)
  obtain l r where l: "push_back_unsafe (pm_links s) (pm_rsrv s) n = Inr (l, r)" "ilist l r (rs @ [n])"
    "same_links (insert n (set rs)) (pm_links s) l"
    using push_back_ilist [OF h(2) assms(3,4)] by blast
  have "ilist l (pm_free s) fs"
    by (rule ilist_frame [OF h(1) l(3)]) (use assms(2) d in auto)
  then show ?thesis using l assms(2) d by (auto simp: pmm_inv_def)
qed

lemma pmm_push_free:
  assumes "pmm_inv s fs rs" and "n \<notin> set fs" and "n \<notin> set rs" and "n \<noteq> nullptr"
  shows "\<exists>l r. push_back_unsafe (pm_links s) (pm_free s) n = Inr (l, r) \<and>
    pmm_inv (s\<lparr>pm_links := l, pm_free := r\<rparr>) (fs @ [n]) rs"
proof -
  have h: "ilist (pm_links s) (pm_free s) fs" "ilist (pm_links s) (pm_rsrv s) rs" and d: "set fs \<inter> set rs = {}"
    using assms(1) by (auto simp: pmm_inv_def)
  obtain l r where l: "push_back_unsafe (pm_links s) (pm_free s) n = Inr (l, r)" "ilist l r (fs @ [n])"
    "same_links (insert n (set fs)) (pm_links s) l"
    using push_back_ilist [OF h(1) assms(2,4)] by blast
  have "ilist l (pm_rsrv s) rs"
    by (rule ilist_frame [OF h(2) l(3)]) (use assms(3) d in auto)
  then show ?thesis using l assms(3) d by (auto simp: pmm_inv_def)
qed

fun page_nums :: "u64 \<Rightarrow> nat \<Rightarrow> u64 list" where
  "page_nums i 0 = []"
| "page_nums i (Suc n) = i # page_nums (i + 1) n"

lemma page_nums_eq: "page_nums i n = map (\<lambda>k. i + of_nat k) [0..<n]"
proof (induction n arbitrary: i)
  case (Suc n)
  have "map (\<lambda>k. i + of_nat k) [0..<Suc n] = i # map (\<lambda>k. i + 1 + of_nat k) [0..<n]"
    by (simp only: upt_conv_Cons [of 0 "Suc n"] map_Suc_upt [symmetric] list.map map_map zero_less_Suc simp_thms if_True)
      (simp add: algebra_simps)
  then show ?case using Suc by simp
qed simp

definition free_nodes :: "range list \<Rightarrow> vaddr_t \<Rightarrow> u64 \<Rightarrow> nat \<Rightarrow> vaddr_t list" where
  "free_nodes rs arr i n = map (page_at arr) (filter (\<lambda>i. \<not> is_page_reserved rs i) (page_nums i n))"

definition rsrv_nodes :: "range list \<Rightarrow> vaddr_t \<Rightarrow> u64 \<Rightarrow> nat \<Rightarrow> vaddr_t list" where
  "rsrv_nodes rs arr i n = map (page_at arr) (filter (is_page_reserved rs) (page_nums i n))"

lemma init_pfndb_sorts:
  assumes "pmm_inv s fs rs" and "distinct (map (page_at (pm_arr s)) (page_nums i n))"
    and "set (map (page_at (pm_arr s)) (page_nums i n)) \<inter> (set fs \<union> set rs \<union> {nullptr}) = {}"
  shows "\<exists>s'. init_pfndb n R i s = Inr s' \<and> pm_arr s' = pm_arr s \<and> pm_total s' = pm_total s \<and>
    pmm_inv s' (fs @ free_nodes R (pm_arr s) i n) (rs @ rsrv_nodes R (pm_arr s) i n)"
  using assms
proof (induction n arbitrary: s i fs rs)
  case 0
  then show ?case by (simp add: free_nodes_def rsrv_nodes_def)
next
  case (Suc n)
  let ?p = "page_at (pm_arr s) i"
  have p: "?p \<notin> set fs" "?p \<notin> set rs" "?p \<noteq> nullptr" using Suc.prems(3) by auto
  have d: "distinct (map (page_at (pm_arr s)) (page_nums (i + 1) n))"
    "?p \<notin> set (map (page_at (pm_arr s)) (page_nums (i + 1) n))"
    using Suc.prems(2) by simp_all
  have e: "set (map (page_at (pm_arr s)) (page_nums (i + 1) n)) \<inter> (set fs \<union> set rs \<union> {nullptr}) = {}"
    using Suc.prems(3) by simp
  show ?case
  proof (cases "is_page_reserved R i")
    case True
    obtain l r where l: "push_back_unsafe (pm_links s) (pm_rsrv s) ?p = Inr (l, r)"
      "pmm_inv (s\<lparr>pm_links := l, pm_rsrv := r\<rparr>) fs (rs @ [?p])"
      using pmm_push_rsrv [OF Suc.prems(1) p] by blast
    have "set (map (page_at (pm_arr s)) (page_nums (i + 1) n)) \<inter> (set fs \<union> set (rs @ [?p]) \<union> {nullptr}) = {}"
      using d(2) e by simp
    then show ?thesis
      using Suc.IH [OF l(2), of "i + 1"] d(1) l(1) True by (simp add: free_nodes_def rsrv_nodes_def)
  next
    case False
    obtain l r where l: "push_back_unsafe (pm_links s) (pm_free s) ?p = Inr (l, r)"
      "pmm_inv (s\<lparr>pm_links := l, pm_free := r\<rparr>) (fs @ [?p]) rs"
      using pmm_push_free [OF Suc.prems(1) p] by blast
    have "set (map (page_at (pm_arr s)) (page_nums (i + 1) n)) \<inter> (set (fs @ [?p]) \<union> set rs \<union> {nullptr}) = {}"
      using d(2) e by simp
    then show ?thesis
      using Suc.IH [OF l(2), of "i + 1"] d(1) l(1) False by (simp add: free_nodes_def rsrv_nodes_def)
  qed
qed

lemma unat_as_ptr: "unat a < 2 ^ 32 \<Longrightarrow> unat (as_ptr a) = unat a"
  by (simp add: as_ptr_def unat_ucast_widen unsigned_ucast_eq unsigned_take_bit_eq take_bit_nat_eq_self)

lemma unat_page_at:
  assumes "unat arr + n * 32 < 2 ^ 32" and "k < n"
  shows "unat (page_at arr (of_nat k)) = unat arr + k * 32"
proof -
  have k: "unat arr + k * 32 < 2 ^ 32" using assms by linarith
  then have "unat (arr + of_nat k * sizeof_Page) = unat arr + k * 32"
    by (simp add: sizeof_Page_def unat_word_ariths unat_of_nat)
  then show ?thesis using k by (simp add: page_at_def unat_as_ptr)
qed

lemma page_at_distinct:
  assumes "unat arr + n * 32 < 2 ^ 32"
  shows "distinct (map (page_at arr) (page_nums 0 n))"
proof -
  have "inj_on (\<lambda>k. page_at arr (of_nat k)) {0..<n}"
  proof (rule inj_onI)
    fix j k assume jk: "j \<in> {0..<n}" "k \<in> {0..<n}" and eq: "page_at arr (of_nat j) = page_at arr (of_nat k)"
    have "unat arr + j * 32 = unat arr + k * 32"
      using unat_page_at [OF assms, of j] unat_page_at [OF assms, of k] jk eq by (simp only: atLeastLessThan_iff)
    then show "j = k" by simp
  qed
  then show ?thesis by (simp add: page_nums_eq distinct_map comp_def)
qed

lemma page_at_nonnull:
  assumes "unat arr + n * 32 < 2 ^ 32" and "arr \<noteq> 0"
  shows "nullptr \<notin> set (map (page_at arr) (page_nums 0 n))"
proof -
  have "page_at arr (of_nat k) \<noteq> nullptr" if "k < n" for k
    using unat_page_at [OF assms(1) that] assms(2) by (auto simp: unat_eq_zero)
  then show ?thesis by (auto simp: page_nums_eq)
qed

lemma nodes_lengths: "length (free_nodes R arr i n) + length (rsrv_nodes R arr i n) = n"
proof -
  have "length (page_nums i n) = n" by (simp add: page_nums_eq)
  then show ?thesis
    using sum_length_filter_compl [of "\<lambda>i. is_page_reserved R i" "page_nums i n"]
    by (simp add: free_nodes_def rsrv_nodes_def)
qed

lemma early_alloc_keeps:
  "early_pmm_alloc_cts fuel b s pages k = Inr (s', p) \<Longrightarrow>
    ld_pmm s' = ld_pmm s \<and> ld_sz_bytes s' = ld_sz_bytes s \<and> ld_sz_pgs s' = ld_sz_pgs s \<and> ld_reserved s' = ld_reserved s"
proof (induction k arbitrary: s)
  case (Suc k)
  from Suc.prems obtain it where
    "(let s = s\<lparr>ld_it := it\<rparr>; page_bas = page_align_up (entry_base b it);
          page_lim = page_align_down (entry_base b it + entry_len b it)
      in case search_run (ld_reserved s) pages page_bas page_lim of
           Some result \<Rightarrow> Inr (s, result)
         | None \<Rightarrow> bindE (mmap_incr b (ld_mmap s) it) (\<lambda>it. early_pmm_alloc_cts fuel b (s\<lparr>ld_it := it\<rparr>) pages k)) = Inr (s', p)"
    by (simp only: early_pmm_alloc_cts.simps guardE_eq_Inr bindE_eq_Inr) blast
  then show ?case by (auto simp: bindE_eq_Inr Let_def split: option.splits dest: Suc.IH)
qed simp

lemma bootstrap_alloc_sizes:
  assumes "bootstrap_alloc fuel b s res mmap = Inr s1"
  shows "ld_sz_bytes s1 = pm_total (ld_pmm s1) * sizeof_Page"
    and "ld_sz_pgs s1 = page_align_up (pm_total (ld_pmm s1) * sizeof_Page) div page_size64"
    and "length (ld_reserved s1) = length (ld_reserved s)"
  using assms by (auto simp: bootstrap_alloc_def reserve_boot_def alloc_pfndb_def exec_simps Let_def dest!: early_alloc_keeps)

lemma bootstrap_alloc_ranges:
  assumes "bootstrap_alloc fuel b s res mmap = Inr s1"
  shows "\<exists>r. ld_reserved s1 = (ld_reserved s)[2 := r, 3 := res] \<and> ld_sz_bytes s1 = pm_total (ld_pmm s1) * sizeof_Page"
  using assms by (auto simp: bootstrap_alloc_def reserve_boot_def alloc_pfndb_def exec_simps Let_def dest!: early_alloc_keeps)

text \<open>\<open>bootstrap_pmm\<close> from the allocation of the database on.\<close>

lemma bootstrap_pmm_lists:
  assumes "bootstrap_alloc fuel b s res mmap = Inr s1" and "pm_free (ld_pmm s1) = nullptr"
    and "pm_rsrv (ld_pmm s1) = nullptr" and "pm_arr (ld_pmm s1) \<noteq> 0"
    and "unat (pm_arr (ld_pmm s1)) + unat (pm_total (ld_pmm s1)) * 32 < 2 ^ 32"
    and "unat (pm_total (ld_pmm s1)) < fuel"
  shows "\<exists>s'. bootstrap_pmm fuel b s res mmap = Inr s' \<and> ld_reserved s' = pfndb_ranges s1 \<and>
    pm_total (ld_pmm s') = pm_total (ld_pmm s1) \<and> pm_arr (ld_pmm s') = pm_arr (ld_pmm s1) \<and> ld_sz_pgs s' = ld_sz_pgs s1 \<and>
    pmm_inv (ld_pmm s') (free_nodes (pfndb_ranges s1) (pm_arr (ld_pmm s1)) 0 (unat (pm_total (ld_pmm s1))))
      (rsrv_nodes (pfndb_ranges s1) (pm_arr (ld_pmm s1)) 0 (unat (pm_total (ld_pmm s1))))"
proof -
  define n where "n = unat (pm_total (ld_pmm s1))"
  define arr where "arr = pm_arr (ld_pmm s1)"
  define s2 where "s2 = clear_memory arr (as_ptr (ld_sz_bytes s1)) s1"
  define R where "R = pfndb_ranges s1"
  have s2: "pm_arr (ld_pmm s2) = arr" "pm_total (ld_pmm s2) = pm_total (ld_pmm s1)" "pfndb_ranges s2 = R"
    "pmm_inv (ld_pmm s2) [] []"
    using assms(2,3) by (simp_all add: s2_def clear_memory_def arr_def pfndb_ranges_def R_def pmm_inv_def)
  have bound: "unat arr + n * 32 < 2 ^ 32" using assms(5) by (simp add: n_def arr_def)
  obtain p where p: "init_pfndb n R 0 (ld_pmm s2) = Inr p" "pm_total p = pm_total (ld_pmm s1)" "pm_arr p = arr"
    "pmm_inv p (free_nodes R arr 0 n) (rsrv_nodes R arr 0 n)"
    using init_pfndb_sorts [OF s2(4), of 0 n R] page_at_distinct [OF bound] page_at_nonnull [OF bound] assms(4)
    by (auto simp: s2 arr_def)
  have len: "length (free_nodes R arr 0 n) + length (rsrv_nodes R arr 0 n) = n" by (rule nodes_lengths)
  then have "length (free_nodes R arr 0 n) < fuel" "length (rsrv_nodes R arr 0 n) < fuel"
    using assms(6) by (simp_all add: n_def)
  then have sizes: "list_size fuel (pm_links p) (pm_free p) = Inr (of_nat (length (free_nodes R arr 0 n)))"
    "list_size fuel (pm_links p) (pm_rsrv p) = Inr (of_nat (length (rsrv_nodes R arr 0 n)))"
    using p(4) by (simp_all add: pmm_inv_def list_size_ilist)
  have "of_nat (length (free_nodes R arr 0 n)) + of_nat (length (rsrv_nodes R arr 0 n)) = pm_total p"
    using len by (simp only: of_nat_add [symmetric]) (simp add: n_def p(2))
  then have "bootstrap_pmm fuel b s res mmap = Inr (s2\<lparr>ld_reserved := R, ld_pmm := p\<rparr>)"
    using assms(1) p(1) sizes
    by (simp add: bootstrap_pmm_def fill_pfndb_def verify_pfndb_def Let_def arr_def [symmetric] s2_def [symmetric] s2 n_def [symmetric])
  then show ?thesis
    using p(2-4) by (simp add: R_def [symmetric] n_def [symmetric] arr_def [symmetric] s2_def clear_memory_def)
qed

text \<open>The reserved pages, without the code's test: one of the two end points of the page, as a
  32-bit address, lies in one of the ranges.\<close>

definition end_point_in :: "range list \<Rightarrow> nat \<Rightarrow> bool" where
  "end_point_in R i \<longleftrightarrow> (\<exists>r \<in> set R. \<exists>x \<in> {4096 * i, 4096 * (i + 1)}.
     unat (rg_begin r) \<le> x mod 2 ^ 32 \<and> x mod 2 ^ 32 < unat (rg_end r))"

lemma is_page_reserved_end_point:
  assumes "i < 2 ^ 32"
  shows "is_page_reserved R (of_nat i) \<longleftrightarrow> end_point_in R i"
proof -
  have low: "unat (ucast (ucast (of_nat k * page_size64 :: u64) :: u32) :: u64) = 4096 * k mod 2 ^ 32" if "k \<le> 2 ^ 32" for k
  proof -
    have "unat (of_nat k * page_size64 :: u64) = 4096 * k" using that by (simp add: unat_word_ariths unat_of_nat)
    then show ?thesis by (simp add: unat_ucast_widen unsigned_ucast_eq unsigned_take_bit_eq take_bit_eq_mod unat_mod_distrib del: page_size64_eq)
  qed
  have "is_in (ucast (of_nat k * page_size64 :: u64)) r \<longleftrightarrow>
      unat (rg_begin r) \<le> 4096 * k mod 2 ^ 32 \<and> 4096 * k mod 2 ^ 32 < unat (rg_end r)" if "k \<le> 2 ^ 32" for k r
    by (simp only: is_in_def word_le_nat_alt word_less_nat_alt low [OF that])
  note one = this [of i] this [of "Suc i"]
  have suc: "(of_nat i + 1) * page_size64 = (of_nat (Suc i) * page_size64 :: u64)" by simp
  show ?thesis
    using assms unfolding is_page_reserved_def list_ex_iff suc end_point_in_def by (simp add: one del: of_nat_Suc page_size64_eq)
qed

text \<open>
  C9. Let the loader's table of reserved ranges be the initial one, both lists be empty, and let the
  allocation have found a place for the page frame database that is not at 0 and ends below 4 GiB.
  Then, with fuel for each page, \<open>bootstrap_pmm\<close> succeeds, its final assertion included, and the
  table of ranges holds page 0, the loader, the database and the module. Every physical page is in
  exactly one of the two lists, in ascending order: in the reserved list the pages of which the
  first byte or the first byte after them lies in one of these half-open ranges (as 32-bit
  addresses), in the free list all others. The entry of page \<open>i\<close> is \<open>32 * i\<close> bytes into the database.
\<close>

theorem bootstrap_pmm_sorts:
  assumes "bootstrap_alloc fuel b s res mmap = Inr s1" and "ld_reserved s = initial_reserved first_byte end_byte"
    and "pm_free (ld_pmm s1) = nullptr" and "pm_rsrv (ld_pmm s1) = nullptr" and "pm_arr (ld_pmm s1) \<noteq> 0"
    and "unat (pm_arr (ld_pmm s1)) + unat (pm_total (ld_pmm s1)) * 32 < 2 ^ 32"
    and "unat (pm_total (ld_pmm s1)) < fuel"
  shows "\<exists>s'. bootstrap_pmm fuel b s res mmap = Inr s' \<and> pm_total (ld_pmm s') = pm_total (ld_pmm s1) \<and>
    (let arr = pm_arr (ld_pmm s1); n = unat (pm_total (ld_pmm s1));
         R = [\<lparr>rg_begin = 0, rg_end = 4095\<rparr>, \<lparr>rg_begin = first_byte, rg_end = end_byte - 1\<rparr>,
              \<lparr>rg_begin = arr, rg_end = arr + of_nat (32 * n)\<rparr>, res];
         nodes = \<lambda>P. map (\<lambda>i. arr + of_nat (32 * i)) (filter P [0..<n])
     in ld_reserved s' = R \<and> pmm_inv (ld_pmm s') (nodes (\<lambda>i. \<not> end_point_in R i)) (nodes (end_point_in R)))"
proof -
  define n where "n = unat (pm_total (ld_pmm s1))"
  define arr where "arr = pm_arr (ld_pmm s1)"
  have bound: "unat arr + n * 32 < 2 ^ 32" using assms(6) by (simp add: n_def arr_def)
  have R: "pfndb_ranges s1 = [\<lparr>rg_begin = 0, rg_end = 4095\<rparr>, \<lparr>rg_begin = first_byte, rg_end = end_byte - 1\<rparr>,
      \<lparr>rg_begin = arr, rg_end = arr + of_nat (32 * n)\<rparr>, res]" (is "_ = ?R")
    using bootstrap_alloc_ranges [OF assms(1)] assms(2)
    by (auto simp: pfndb_ranges_def initial_reserved_def arr_def n_def sizeof_Page_def mult.commute)
  have entry: "page_at arr (of_nat i) = arr + of_nat (32 * i)" if "i < n" for i
  proof (rule word_unat_eq_iff [THEN iffD2])
    have "unat arr + 32 * i < 2 ^ 32" using bound that by linarith
    then have "unat (arr + of_nat (32 * i)) = unat arr + 32 * i" by (simp add: unat_word_ariths unat_of_nat del: of_nat_mult)
    then show "unat (page_at arr (of_nat i)) = unat (arr + of_nat (32 * i))"
      using unat_page_at [OF bound that] by simp
  qed
  have nodes: "map (page_at arr) (filter P (page_nums 0 n)) = map (\<lambda>i. arr + of_nat (32 * i)) (filter Q [0..<n])"
    if "\<And>i. i < n \<Longrightarrow> P (of_nat i) = Q i" for P Q
  proof -
    have "filter (\<lambda>i. P (of_nat i)) [0..<n] = filter Q [0..<n]" by (rule filter_cong) (simp_all add: that)
    then show ?thesis using entry by (simp add: page_nums_eq filter_map comp_def)
  qed
  have "is_page_reserved ?R (of_nat i) = end_point_in ?R i" if "i < n" for i
    using that bound by (intro is_page_reserved_end_point) linarith
  then have "free_nodes ?R arr 0 n = map (\<lambda>i. arr + of_nat (32 * i)) (filter (\<lambda>i. \<not> end_point_in ?R i) [0..<n])"
    "rsrv_nodes ?R arr 0 n = map (\<lambda>i. arr + of_nat (32 * i)) (filter (end_point_in ?R) [0..<n])"
    unfolding free_nodes_def rsrv_nodes_def by (intro nodes; simp)+
  with bootstrap_pmm_lists [OF assms(1,3-7)] show ?thesis
    unfolding Let_def R n_def [symmetric] arr_def [symmetric] by metis
qed

text \<open>A machine with eight pages, the loader in page 1, the memory map in page 2 and the kernel module in page 7.\<close>

definition example_boot :: boot_info where
  "example_boot = (\<lambda>_. 0)(0x2000 := 6, 0x2004 := 40, 0x2008 := 24, 0x2018 := 0x8000, 0x2020 := 1)"

definition example_loader :: loader where
  "example_loader = \<lparr>ld_pmm = \<lparr>pm_links = \<lparr>nexts = (\<lambda>_. 0), prevs = (\<lambda>_. 0)\<rparr>, pm_free = 0, pm_rsrv = 0,
       pm_total = 0, pm_arr = 0\<rparr>, ld_mem = (\<lambda>_. 0), ld_reserved = initial_reserved 0x1000 0x2000,
     ld_mmap = 0, ld_it = 0, ld_sz_bytes = 0, ld_sz_pgs = 0, ld_pml4 = 0\<rparr>"

definition example_ranges :: "range list" where
  "example_ranges = [\<lparr>rg_begin = 0, rg_end = 0xFFF\<rparr>, \<lparr>rg_begin = 0x1000, rg_end = 0x1FFF\<rparr>,
     \<lparr>rg_begin = 0x2000, rg_end = 0x2027\<rparr>, \<lparr>rg_begin = 0x7000, rg_end = 0x7FFF\<rparr>]"

lemma example_early_alloc:
  assumes "ld_it s = 0x2010" and "ld_mmap s = 0x2000" and "ld_reserved s = example_ranges"
  shows "early_pmm_alloc_cts 9 example_boot s 1 10 = Inr (s, 0x3000)"
proof -
  have "skip_unavailable 9 example_boot 0x2000 0x2010 = Inr 0x2010" by code_simp
  moreover have "page_align_up (entry_base example_boot 0x2010) = 0"
    "page_align_down (entry_base example_boot 0x2010 + entry_len example_boot 0x2010) = 0x8000" by code_simp+
  moreover have "search_run example_ranges 1 0 0x8000 = Some 0x3000" by code_simp
  moreover have "s\<lparr>ld_it := 0x2010\<rparr> = s" using assms(1) by simp
  ultimately have "early_pmm_alloc_cts 9 example_boot s 1 (Suc 9) = Inr (s, 0x3000)"
    using assms by (subst early_pmm_alloc_cts.simps(2)) (simp add: Let_def)
  then show ?thesis by simp
qed

lemma example_alloc:
  "\<exists>s1. bootstrap_alloc 9 example_boot example_loader \<lparr>rg_begin = 0x7000, rg_end = 0x7FFF\<rparr> 0x2000 = Inr s1 \<and>
     ld_pmm s1 = (ld_pmm example_loader)\<lparr>pm_total := 8, pm_arr := 0x3000\<rparr>"
proof -
  have "largest_phys_addr 9 example_boot 0x2000 = Inr 0x8000" by code_simp
  moreover have "page_align_down 0x8000 = 0x8000" "page_align_up 256 = 4096" by code_simp+
  moreover have "(ld_reserved example_loader)[2 := \<lparr>rg_begin = 0x2000, rg_end = 0x2027\<rparr>,
      3 := \<lparr>rg_begin = 0x7000, rg_end = 0x7FFF\<rparr>] = example_ranges" by code_simp
  moreover have "tag_size example_boot 0x2000 = Inr 40" by code_simp
  ultimately show ?thesis
    by (simp add: bootstrap_alloc_def reserve_boot_def alloc_pfndb_def mmap_entries_def Let_def sizeof_Page_def example_early_alloc as_ptr_def)
qed

theorem bootstrap_pmm_sorts_witness:
  "\<exists>s'. bootstrap_pmm 9 example_boot example_loader \<lparr>rg_begin = 0x7000, rg_end = 0x7FFF\<rparr> 0x2000 = Inr s' \<and>
     pmm_inv (ld_pmm s') [0x3080, 0x30A0] [0x3000, 0x3020, 0x3040, 0x3060, 0x30C0, 0x30E0]"
proof -
  obtain s1 where s1: "bootstrap_alloc 9 example_boot example_loader \<lparr>rg_begin = 0x7000, rg_end = 0x7FFF\<rparr> 0x2000 = Inr s1"
    "ld_pmm s1 = (ld_pmm example_loader)\<lparr>pm_total := 8, pm_arr := 0x3000\<rparr>"
    using example_alloc by blast
  have "ld_reserved example_loader = initial_reserved 0x1000 0x2000" by (simp add: example_loader_def)
  from bootstrap_pmm_sorts [OF s1(1) this] s1(2) show ?thesis
    by (auto simp: example_loader_def upt_rec [of _ 8] end_point_in_def Let_def)
qed

end
