(* ===== verification/Loader_Paging.thy ===== *)
theory Loader_Paging
  imports Loader_Mem "HOL-Library.Sublist"
begin

text \<open>
  The page tables that \<open>map_page\<close> of \<open>loader/x86-64-multiboot2/mem.cc\<close> builds, as a refinement:
  the abstract state is the partial function from virtual to physical addresses that the page
  walk of the processor computes, and \<open>map_page\<close> adds one page to it and changes nothing else.

  \<open>T k\<close> is the set of the tables of level \<open>k\<close> (4 for the PML4, 1 for page tables).
  \<open>tables_wf\<close> says that they form a tree below the PML4, apart from its recursive entry 511.
\<close>

section \<open>Words of page tables\<close>

definition table_addr :: "paddr_t \<Rightarrow> bool" where
  "table_addr t \<longleftrightarrow> take_bit 12 t = 0 \<and> take_bit 32 t = t"

lemma table_addr_bits: "table_addr t \<longleftrightarrow> (\<forall>n. bit t n \<longrightarrow> 12 \<le> n \<and> n < 32)"
proof -
  have "n < 64" if "bit t n" for n using bit_imp_le_length [OF that] by simp
  then show ?thesis
    unfolding table_addr_def bit_eq_iff bit_simps by (auto simp: not_less)
qed

lemma aligned_uint: "take_bit 12 w = 0 \<longleftrightarrow> 4096 dvd uint w" for w :: u64
  by (simp add: word_uint_eq_iff take_bit_eq_mod uint_mod_distrib dvd_eq_mod_eq_0)

lemma aligned_diff:
  fixes t p :: u64
  assumes "take_bit 12 t = 0" and "take_bit 12 p = 0"
  shows "take_bit 12 (t - p) = 0"
proof -
  have "4096 dvd uint t - uint p" using assms by (simp add: aligned_uint)
  then have "4096 dvd (uint t - uint p) mod 2 ^ 64" by (simp add: dvd_mod_iff)
  then show ?thesis by (simp add: aligned_uint uint_word_ariths)
qed

lemma table_addr_low: "table_addr t \<Longrightarrow> n < 12 \<Longrightarrow> \<not> bit t n"
  by (auto simp: table_addr_bits)

lemma bit_slot:
  assumes "take_bit 12 t = 0" and "index_ok i"
  shows "bit (table_entry t i) n \<longleftrightarrow> (if n < 12 then 3 \<le> n \<and> bit i (n - 3) else bit t n)"
proof -
  have low: "\<not> bit t n" if "n < 12" for n
    using assms(1) that by (metis bit_0_eq bit_take_bit_iff bot_apply bot_bool_def)
  show ?thesis
    using bit_table_entry [OF assms(2), of t n] low index_ok_bit [OF assms(2), of "n - 3"]
    by (auto simp: bit_simps dest: bit_imp_le_length)
qed

lemma slot_inject:
  assumes "table_addr t" and "table_addr u" and "index_ok i" and "index_ok j"
    and "table_entry t i = table_entry u j"
  shows "t = u \<and> i = j"
proof
  have low: "take_bit 12 t = 0" "take_bit 12 u = 0" using assms(1,2) by (simp_all add: table_addr_def)
  note bits = bit_slot [OF low(1) assms(3)] bit_slot [OF low(2) assms(4)]
  have eq: "bit (table_entry t i) n = bit (table_entry u j) n" for n using assms(5) by simp
  show "t = u"
  proof (rule bit_eqI)
    fix n
    show "bit t n = bit u n"
      using eq [of n] bits table_addr_low [OF assms(1)] table_addr_low [OF assms(2)]
      by (cases "n < 12") auto
  qed
  show "i = j"
  proof (rule bit_eqI)
    fix n
    show "bit i n = bit j n"
      using eq [of "n + 3"] bits index_ok_bit [OF assms(3), of n] index_ok_bit [OF assms(4), of n]
      by (cases "n < 9") auto
  qed
qed

lemma less_pow2_iff: "w < 2 ^ 12 \<longleftrightarrow> take_bit 12 w = w" for w :: u64
proof -
  have "w < 2 ^ 12 \<longleftrightarrow> unat w < 2 ^ 12" by (simp add: word_less_nat_alt)
  also have "\<dots> \<longleftrightarrow> take_bit 12 (unat w) = unat w" by (rule take_bit_nat_eq_self_iff [symmetric])
  finally show ?thesis by (simp add: word_unat_eq_iff unsigned_take_bit_eq)
qed

lemma in_area_slot:
  assumes "table_addr p" and "table_addr t" and "index_ok i"
  shows "in_area p page_size64 (table_entry t i) \<longleftrightarrow> t = p"
proof -
  define d where "d = t - p"
  have d: "take_bit 12 d = 0" using assms(1,2) by (simp add: d_def table_addr_def aligned_diff)
  have "table_entry t i - p = table_entry d i" by (simp add: table_entry_def d_def)
  then have "in_area p page_size64 (table_entry t i) \<longleftrightarrow> table_entry d i < 2 ^ 12"
    by (simp add: in_area_def)
  also have "\<dots> \<longleftrightarrow> take_bit 12 (table_entry d i) = table_entry d i"
    by (rule less_pow2_iff)
  also have "\<dots> \<longleftrightarrow> d = 0"
    using bit_slot [OF d assms(3)] d by (auto simp: bit_eq_iff bit_simps split: if_splits)
  finally show ?thesis by (simp add: d_def)
qed

text \<open>The entries the loader writes: a page address, the present bit and flags below bit 11.\<close>

definition flags_ok :: "u64 \<Rightarrow> bool" where
  "flags_ok flags \<longleftrightarrow> take_bit 11 flags = flags"

lemma flags_ok_bit: "flags_ok flags \<Longrightarrow> bit flags n \<Longrightarrow> n < 11"
  unfolding flags_ok_def by (metis bit_take_bit_iff)

lemma entry_present_made: "entry_present (p OR 1 OR flags)"
  by (simp add: entry_present_def bit_simps)

lemma entry_addr_made:
  assumes "take_bit 12 p = 0" and "take_bit 52 p = p" and "flags_ok flags"
  shows "entry_addr (p OR 1 OR flags) = p"
proof (rule bit_eqI)
  fix n
  have "\<not> bit p n" if "n < 12"
    using assms(1) that by (metis bit_0_eq bit_take_bit_iff bot_apply bot_bool_def)
  moreover have "n < 52" if "bit p n"
    using assms(2) that by (metis bit_take_bit_iff)
  moreover have "n < 11" if "bit flags n" using that assms(3) by (rule flags_ok_bit [rotated])
  moreover have "n < 64" if "bit p n" using bit_imp_le_length [OF that] by simp
  ultimately show "bit (entry_addr (p OR 1 OR flags)) n = bit p n"
    by (cases "n < 12") (auto simp: entry_addr_def bit_simps)
qed

lemma entry_mask_made:
  assumes "table_addr p" and "flags_ok flags"
  shows "(p OR 1 OR flags) AND 0xFFFFF800 = p"
proof (rule bit_eqI)
  fix n
  have m: "(0xFFFFF800 :: u64) = push_bit 11 (mask 21)" by (simp add: mask_eq_exp_minus_1 push_bit_eq_mult)
  have "12 \<le> n \<and> n < 32" if "bit p n" using assms(1) that by (simp add: table_addr_bits)
  moreover have "n < 11" if "bit flags n" using that assms(2) by (rule flags_ok_bit [rotated])
  ultimately show "bit ((p OR 1 OR flags) AND 0xFFFFF800) n = bit p n"
    by (auto simp: m bit_simps)
qed

lemma table_addr_52: "table_addr p \<Longrightarrow> take_bit 12 p = 0 \<and> take_bit 52 p = p"
proof
  assume p: "table_addr p"
  then show "take_bit 12 p = 0" by (simp add: table_addr_def)
  have "n < 52" if "bit p n" for n using p that by (auto simp: table_addr_bits)
  then show "take_bit 52 p = p" by (intro bit_eqI) (auto simp: bit_take_bit_iff)
qed

section \<open>The tree of tables\<close>

definition usable :: "nat \<Rightarrow> u16 \<Rightarrow> bool" where
  "usable k i \<longleftrightarrow> index_ok i \<and> (k = 4 \<longrightarrow> i \<noteq> 511)"

definition wf_levels :: "(nat \<Rightarrow> paddr_t set) \<Rightarrow> bool" where
  "wf_levels T \<longleftrightarrow> (\<forall>k t. t \<in> T k \<longrightarrow> 0 < k \<and> k \<le> 4 \<and> table_addr t)"

definition wf_disjoint :: "(nat \<Rightarrow> paddr_t set) \<Rightarrow> bool" where
  "wf_disjoint T \<longleftrightarrow> (\<forall>j k t. t \<in> T j \<longrightarrow> t \<in> T k \<longrightarrow> j = k)"

definition wf_edges :: "(paddr_t \<Rightarrow> u64) \<Rightarrow> (nat \<Rightarrow> paddr_t set) \<Rightarrow> bool" where
  "wf_edges m T \<longleftrightarrow> (\<forall>k t i u. t \<in> T (Suc k) \<longrightarrow> 0 < k \<longrightarrow> usable (Suc k) i \<longrightarrow> walk_entry m t i = Some u \<longrightarrow>
     u \<in> T k \<and> m (table_entry t i) AND 0xFFFFF800 = u)"

definition wf_inject :: "(paddr_t \<Rightarrow> u64) \<Rightarrow> (nat \<Rightarrow> paddr_t set) \<Rightarrow> bool" where
  "wf_inject m T \<longleftrightarrow> (\<forall>k t t' i i' u. t \<in> T (Suc k) \<longrightarrow> t' \<in> T (Suc k) \<longrightarrow> 0 < k \<longrightarrow> usable (Suc k) i \<longrightarrow>
     usable (Suc k) i' \<longrightarrow> walk_entry m t i = Some u \<longrightarrow> walk_entry m t' i' = Some u \<longrightarrow> t = t' \<and> i = i')"

definition tables_wf :: "(paddr_t \<Rightarrow> u64) \<Rightarrow> (nat \<Rightarrow> paddr_t set) \<Rightarrow> bool" where
  "tables_wf m T \<longleftrightarrow> wf_levels T \<and> wf_disjoint T \<and> wf_edges m T \<and> wf_inject m T"

definition is_table :: "(nat \<Rightarrow> paddr_t set) \<Rightarrow> paddr_t \<Rightarrow> bool" where
  "is_table T t \<longleftrightarrow> (\<exists>k. t \<in> T k)"

lemma tables_wfD:
  assumes "tables_wf m T"
  shows "t \<in> T k \<Longrightarrow> 0 < k \<and> k \<le> 4 \<and> table_addr t"
    and "t \<in> T j \<Longrightarrow> t \<in> T k \<Longrightarrow> j = k"
    and "t \<in> T (Suc k) \<Longrightarrow> 0 < k \<Longrightarrow> usable (Suc k) i \<Longrightarrow> walk_entry m t i = Some u \<Longrightarrow>
      u \<in> T k \<and> m (table_entry t i) AND 0xFFFFF800 = u"
    and "t \<in> T (Suc k) \<Longrightarrow> t' \<in> T (Suc k) \<Longrightarrow> 0 < k \<Longrightarrow> usable (Suc k) i \<Longrightarrow> usable (Suc k) i' \<Longrightarrow>
      walk_entry m t i = Some u \<Longrightarrow> walk_entry m t' i' = Some u \<Longrightarrow> t = t' \<and> i = i'"
proof -
  have l: "wf_levels T" and d: "wf_disjoint T" and e: "wf_edges m T" and i: "wf_inject m T"
    using assms by (simp_all add: tables_wf_def)
  show "t \<in> T k \<Longrightarrow> 0 < k \<and> k \<le> 4 \<and> table_addr t" using l by (simp add: wf_levels_def)
  show "t \<in> T j \<Longrightarrow> t \<in> T k \<Longrightarrow> j = k" using d by (simp add: wf_disjoint_def)
  show "t \<in> T (Suc k) \<Longrightarrow> 0 < k \<Longrightarrow> usable (Suc k) i \<Longrightarrow> walk_entry m t i = Some u \<Longrightarrow>
      u \<in> T k \<and> m (table_entry t i) AND 0xFFFFF800 = u"
    using e [unfolded wf_edges_def, rule_format, of t k i u] by simp
  show "t \<in> T (Suc k) \<Longrightarrow> t' \<in> T (Suc k) \<Longrightarrow> 0 < k \<Longrightarrow> usable (Suc k) i \<Longrightarrow> usable (Suc k) i' \<Longrightarrow>
      walk_entry m t i = Some u \<Longrightarrow> walk_entry m t' i' = Some u \<Longrightarrow> t = t' \<and> i = i'"
    using i [unfolded wf_inject_def, rule_format, of t k t' i i' u] by simp
qed

lemma walk_entry_slot:
  "walk_entry m t i = (if entry_present (m (table_entry t i)) then Some (entry_addr (m (table_entry t i))) else None)"
  by (simp add: walk_entry_def table_entry_def Let_def)

text \<open>Index paths from a table of level \<open>k\<close>: the recursive entry is not on them.\<close>

fun path_ok :: "nat \<Rightarrow> u16 list \<Rightarrow> bool" where
  "path_ok k [] \<longleftrightarrow> True"
| "path_ok k (i # is) \<longleftrightarrow> usable k i \<and> path_ok (k - 1) is"

text \<open>Two paths to the same table are equal.\<close>

lemma walk_path_inject:
  assumes "tables_wf m T"
  shows "t \<in> T k \<Longrightarrow> t' \<in> T k \<Longrightarrow> length is < k \<Longrightarrow> length is = length js \<Longrightarrow> path_ok k is \<Longrightarrow>
    path_ok k js \<Longrightarrow> walk_path m t is = Some u \<Longrightarrow> walk_path m t' js = Some u \<Longrightarrow> t = t' \<and> is = js"
proof (induction "is" arbitrary: js t t' k)
  case Nil
  then show ?case by simp
next
  case (Cons i "is")
  obtain j js' where js: "js = j # js'" using Cons.prems(4) by (cases js) auto
  obtain k' where k: "k = Suc k'" "0 < k'" using Cons.prems(3) by (cases k) auto
  obtain v w where v: "walk_entry m t i = Some v" "walk_path m v is = Some u"
    "walk_entry m t' j = Some w" "walk_path m w js' = Some u"
    using Cons.prems(7,8) by (auto simp: js split: bind_splits)
  have uses: "usable (Suc k') i" "usable (Suc k') j" using Cons.prems(5,6) by (simp_all add: k js)
  have "v \<in> T k'" "w \<in> T k'"
    using tables_wfD(3) [OF assms] Cons.prems(1,2) v(1,3) uses k by blast+
  then have "v = w \<and> is = js'"
    using Cons.IH [of v k' w js'] Cons.prems(3-6) v(2,4) by (simp add: k js)
  then show ?case
    using tables_wfD(4) [OF assms _ _ k(2) uses, of t t'] Cons.prems(1,2) v(1,3) by (simp add: k js)
qed

lemma walk_path_level:
  assumes "tables_wf m T"
  shows "t \<in> T (n + length is) \<Longrightarrow> 0 < n \<Longrightarrow> path_ok (n + length is) is \<Longrightarrow> walk_path m t is = Some u \<Longrightarrow> u \<in> T n"
proof (induction "is" arbitrary: t)
  case (Cons i "is")
  obtain v where v: "walk_entry m t i = Some v" "walk_path m v is = Some u"
    using Cons.prems(4) by (auto split: bind_splits)
  have "v \<in> T (n + length is)"
    using tables_wfD(3) [OF assms, of t "n + length is" i v] Cons.prems(1-3) v(1) by simp
  then show ?case using Cons.IH [of v] Cons.prems(2,3) v(2) by simp
qed simp

text \<open>A walk reads only words of tables.\<close>

lemma walk_path_agree:
  assumes "tables_wf m T" and "\<And>x i. is_table T x \<Longrightarrow> index_ok i \<Longrightarrow> m' (table_entry x i) = m (table_entry x i)"
  shows "t \<in> T k \<Longrightarrow> length is \<le> k \<Longrightarrow> path_ok k is \<Longrightarrow> walk_path m' t is = walk_path m t is"
proof (induction "is" arbitrary: t k)
  case (Cons i "is")
  obtain k' where k: "k = Suc k'" using Cons.prems(2) by (cases k) auto
  have "is_table T t" "index_ok i" using Cons.prems(1,3) by (auto simp: is_table_def usable_def)
  then have same: "walk_entry m' t i = walk_entry m t i"
    using assms(2) [of t i] by (simp add: walk_entry_slot)
  show ?case
  proof (cases "is = [] \<or> walk_entry m t i = None")
    case False
    then obtain u where u: "walk_entry m t i = Some u" "0 < k'" using Cons.prems(2) k by (cases k') auto
    then have "u \<in> T k'" using tables_wfD(3) [OF assms(1), of t k' i u] Cons.prems(1,3) k by simp
    then show ?thesis using Cons.IH [of u k'] Cons.prems(2,3) u same by (simp add: k)
  qed (use same in \<open>auto split: bind_splits\<close>)
qed simp

section \<open>Adding an empty table\<close>

text \<open>
  The memory after a new page \<open>p\<close> was cleared and entered into an empty slot. No complete walk
  changes, because the new table is empty.
\<close>

definition add_table :: "(paddr_t \<Rightarrow> u64) \<Rightarrow> paddr_t \<Rightarrow> u16 \<Rightarrow> paddr_t \<Rightarrow> u64 \<Rightarrow> paddr_t \<Rightarrow> u64" where
  "add_table m t i p flags =
     (\<lambda>a. if in_area p page_size64 a then 0 else m a)(table_entry t i := p OR 1 OR flags)"

lemma add_table_slot:
  assumes "tables_wf m T" and "t \<in> T k" and "index_ok i" and "table_addr p" and "\<not> is_table T p"
    and "index_ok j"
  shows "add_table m t i p flags (table_entry t i) = p OR 1 OR flags"
    and "is_table T x \<Longrightarrow> (x, j) \<noteq> (t, i) \<Longrightarrow> add_table m t i p flags (table_entry x j) = m (table_entry x j)"
    and "add_table m t i p flags (table_entry p j) = 0"
proof -
  have t: "table_addr t" "t \<noteq> p" using tables_wfD(1) [OF assms(1,2)] assms(2,5) by (auto simp: is_table_def)
  show "add_table m t i p flags (table_entry t i) = p OR 1 OR flags" by (simp add: add_table_def)
  show "add_table m t i p flags (table_entry p j) = 0"
    using t slot_inject [OF assms(4) t(1) assms(6,3)] in_area_slot [OF assms(4,4,6)]
    by (auto simp: add_table_def simp del: page_size64_eq)
  assume x: "is_table T x" "(x, j) \<noteq> (t, i)"
  then have "table_addr x" "x \<noteq> p" using tables_wfD(1) [OF assms(1)] assms(5) by (auto simp: is_table_def)
  then show "add_table m t i p flags (table_entry x j) = m (table_entry x j)"
    using x(2) slot_inject [OF _ t(1) assms(6,3), of x] in_area_slot [OF assms(4) _ assms(6), of x]
    by (auto simp: add_table_def simp del: page_size64_eq)
qed

lemma add_table_other:
  assumes "tables_wf m T" and "t \<in> T k" and "index_ok i" and "table_addr p" and "\<not> is_table T p"
    and "x \<in> T l" and "(x, j) \<noteq> (t, i)" and "index_ok j"
  shows "walk_entry (add_table m t i p flags) x j = walk_entry m x j"
    and "add_table m t i p flags (table_entry x j) = m (table_entry x j)"
proof -
  have "is_table T x" using assms(6) by (auto simp: is_table_def)
  from add_table_slot(2) [OF assms(1-5,8) this assms(7)]
  show "add_table m t i p flags (table_entry x j) = m (table_entry x j)" .
  then show "walk_entry (add_table m t i p flags) x j = walk_entry m x j" by (simp add: walk_entry_slot)
qed

lemma add_table_entry:
  assumes "tables_wf m T" and "t \<in> T k" and "index_ok i" and "table_addr p" and "\<not> is_table T p"
    and "flags_ok flags"
  shows "walk_entry (add_table m t i p flags) t i = Some p"
  using add_table_slot(1) [OF assms(1-5,3)] entry_addr_made [OF _ _ assms(6), of p] table_addr_52 [OF assms(4)]
  by (simp add: walk_entry_slot entry_present_made)

lemma add_table_walk:
  assumes wf: "tables_wf m T" and t: "t \<in> T (Suc k)" "0 < k" "usable (Suc k) i" "walk_entry m t i = None"
    and p: "table_addr p" "\<not> is_table T p" and flags: "flags_ok flags"
  shows "x \<in> T n \<Longrightarrow> length is = n \<Longrightarrow> path_ok n is \<Longrightarrow>
    walk_path (add_table m t i p flags) x is = walk_path m x is"
proof (induction "is" arbitrary: x n)
  case (Cons j "is")
  obtain n' where n: "n = Suc n'" using Cons.prems(2) by (cases n) auto
  have ok: "index_ok i" "index_ok j" using t(3) Cons.prems(3) by (auto simp: usable_def)
  show ?case
  proof (cases "(x, j) = (t, i)")
    case True
    then have "n = Suc k" using tables_wfD(2) [OF wf] t(1) Cons.prems(1) by blast
    then obtain j' is' where "is": "is = j' # is'" using Cons.prems(2) t(2) by (cases "is") auto
    then have "index_ok j'" using Cons.prems(3) by (simp add: usable_def)
    from add_table_slot(3) [OF wf t(1) ok(1) p this]
    have empty: "walk_entry (add_table m t i p flags) p j' = None"
      by (simp add: walk_entry_slot entry_present_def)
    then show ?thesis using True t(4) add_table_entry [OF wf t(1) ok(1) p flags] by (simp add: "is")
  next
    case False
    then have same: "walk_entry (add_table m t i p flags) x j = walk_entry m x j"
      by (rule add_table_other(1) [OF wf t(1) ok(1) p Cons.prems(1) _ ok(2)])
    show ?thesis
    proof (cases "is = [] \<or> walk_entry m x j = None")
      case False
      then obtain u where u: "walk_entry m x j = Some u" "0 < n'" using Cons.prems(2) n by (cases n') auto
      then have "u \<in> T n'" using tables_wfD(3) [OF wf, of x n' j u] Cons.prems(1,3) n by simp
      then show ?thesis using Cons.IH [of u n'] Cons.prems(2,3) u same by (simp add: n)
    qed (use same in \<open>auto split: bind_splits\<close>)
  qed
qed simp

text \<open>What the tables contain after a new table was entered.\<close>

lemma add_table_view:
  assumes wf: "tables_wf m T" and t: "t \<in> T (Suc k)" "0 < k" "usable (Suc k) i" "walk_entry m t i = None"
    and p: "table_addr p" "\<not> is_table T p" and flags: "flags_ok flags"
  shows "\<And>x j. x \<in> (T(k := insert p (T k))) j \<Longrightarrow> x \<noteq> p \<Longrightarrow> x \<in> T j"
    and "\<And>j. index_ok j \<Longrightarrow> walk_entry (add_table m t i p flags) p j = None"
    and "walk_entry (add_table m t i p flags) t i = Some p"
    and "\<And>x j l. x \<in> T l \<Longrightarrow> (x, j) \<noteq> (t, i) \<Longrightarrow> index_ok j \<Longrightarrow>
      walk_entry (add_table m t i p flags) x j = walk_entry m x j \<and>
      add_table m t i p flags (table_entry x j) = m (table_entry x j)"
    and "add_table m t i p flags (table_entry t i) AND 0xFFFFF800 = p"
proof -
  have ok: "index_ok i" using t(3) by (simp add: usable_def)
  show "x \<in> T j" if "x \<in> (T(k := insert p (T k))) j" "x \<noteq> p" for x j using that by (auto split: if_splits)
  show "walk_entry (add_table m t i p flags) p j = None" if "index_ok j" for j
    using add_table_slot(3) [OF wf t(1) ok p that] by (simp add: walk_entry_slot entry_present_def)
  show "walk_entry (add_table m t i p flags) t i = Some p" by (rule add_table_entry [OF wf t(1) ok p flags])
  show "walk_entry (add_table m t i p flags) x j = walk_entry m x j \<and>
      add_table m t i p flags (table_entry x j) = m (table_entry x j)"
    if "x \<in> T l" "(x, j) \<noteq> (t, i)" "index_ok j" for x j l
    using add_table_other [OF wf t(1) ok p that] by simp
  show "add_table m t i p flags (table_entry t i) AND 0xFFFFF800 = p"
    using add_table_slot(1) [OF wf t(1) ok p ok] entry_mask_made [OF p(1) flags] by simp
qed

lemma add_table_edges:
  assumes wf: "tables_wf m T" and t: "t \<in> T (Suc k)" "0 < k" "usable (Suc k) i" "walk_entry m t i = None"
    and p: "table_addr p" "\<not> is_table T p" and flags: "flags_ok flags"
  shows "wf_edges (add_table m t i p flags) (T(k := insert p (T k)))" (is "wf_edges ?m ?T")
  unfolding wf_edges_def
proof (intro allI impI)
  note view = add_table_view [OF assms]
  fix l x j u assume x: "x \<in> ?T (Suc l)" and l: "0 < l" "usable (Suc l) j" and u: "walk_entry ?m x j = Some u"
  have j: "index_ok j" using l(2) by (simp add: usable_def)
  have "x \<noteq> p" using view(2) [OF j] u by auto
  then have xT: "x \<in> T (Suc l)" using x view(1) by blast
  show "u \<in> ?T l \<and> ?m (table_entry x j) AND 0xFFFFF800 = u"
  proof (cases "(x, j) = (t, i)")
    case True
    then have "l = k" using tables_wfD(2) [OF wf xT, of "Suc k"] t(1) by simp
    then show ?thesis using True u view(3,5) by simp
  next
    case False
    then show ?thesis using tables_wfD(3) [OF wf xT l, of u] view(4) [OF xT False j] u by auto
  qed
qed

lemma add_table_inject:
  assumes wf: "tables_wf m T" and t: "t \<in> T (Suc k)" "0 < k" "usable (Suc k) i" "walk_entry m t i = None"
    and p: "table_addr p" "\<not> is_table T p" and flags: "flags_ok flags"
  shows "wf_inject (add_table m t i p flags) (T(k := insert p (T k)))" (is "wf_inject ?m ?T")
  unfolding wf_inject_def
proof (intro allI impI)
  note view = add_table_view [OF assms]
  fix l x x' j j' u assume x: "x \<in> ?T (Suc l)" "x' \<in> ?T (Suc l)" and l: "0 < l" "usable (Suc l) j" "usable (Suc l) j'"
    and u: "walk_entry ?m x j = Some u" "walk_entry ?m x' j' = Some u"
  have j: "index_ok j" "index_ok j'" using l(2,3) by (simp_all add: usable_def)
  have "x \<noteq> p" "x' \<noteq> p" using view(2) [OF j(1)] view(2) [OF j(2)] u by auto
  then have xT: "x \<in> T (Suc l)" "x' \<in> T (Suc l)" using x view(1) by blast+
  have notp: "u \<noteq> p" if "(y, c) \<noteq> (t, i)" "y \<in> T (Suc l)" "usable (Suc l) c" "walk_entry ?m y c = Some u" for y c
  proof -
    have "index_ok c" using that(3) by (simp add: usable_def)
    then have "walk_entry m y c = Some u" using view(4) [OF that(2,1)] that(4) by simp
    then have "u \<in> T l" using tables_wfD(3) [OF wf that(2) l(1) that(3)] by simp
    then show ?thesis using p(2) by (auto simp: is_table_def)
  qed
  show "x = x' \<and> j = j'"
  proof (cases "(x, j) = (t, i) \<or> (x', j') = (t, i)")
    case True
    then have "u = p" using view(3) u by auto
    then have "(x, j) = (t, i)" "(x', j') = (t, i)"
      using notp [OF _ xT(1) l(2) u(1)] notp [OF _ xT(2) l(3) u(2)] by blast+
    then show ?thesis by simp
  next
    case False
    then have "walk_entry m x j = Some u" "walk_entry m x' j' = Some u"
      using view(4) [OF xT(1) _ j(1)] view(4) [OF xT(2) _ j(2)] u by auto
    then show ?thesis using tables_wfD(4) [OF wf xT l] by simp
  qed
qed

lemma add_table_wf:
  assumes wf: "tables_wf m T" and t: "t \<in> T (Suc k)" "0 < k" "usable (Suc k) i" "walk_entry m t i = None"
    and p: "table_addr p" "\<not> is_table T p" and flags: "flags_ok flags"
  shows "tables_wf (add_table m t i p flags) (T(k := insert p (T k)))" (is "tables_wf ?m ?T")
proof -
  have k4: "Suc k \<le> 4" using tables_wfD(1) [OF wf t(1)] by simp
  have new: "j = k" if "p \<in> ?T j" for j using that p(2) by (auto simp: is_table_def split: if_splits)
  have "wf_levels ?T"
    unfolding wf_levels_def using tables_wfD(1) [OF wf] t(2) k4 p(1) by (auto split: if_splits)
  moreover have "wf_disjoint ?T"
    unfolding wf_disjoint_def
  proof (intro allI impI)
    fix j l x assume x: "x \<in> ?T j" "x \<in> ?T l"
    show "j = l"
    proof (cases "x = p")
      case True
      then show ?thesis using x new by metis
    next
      case False
      then show ?thesis using x add_table_view(1) [OF assms] tables_wfD(2) [OF wf] by metis
    qed
  qed
  ultimately show ?thesis using add_table_edges [OF assms] add_table_inject [OF assms] by (simp add: tables_wf_def)
qed

section \<open>Entering a page into a page table\<close>

lemma set_entry_walk:
  assumes wf: "tables_wf m T" and root: "root \<in> T 4" and path: "path_ok 4 [i4, i3, i2, i1]"
    and pt: "walk_path m root [i4, i3, i2] = Some pt" "pt \<in> T 1"
    and other: "path_ok 4 [j4, j3, j2, j1]"
  shows "walk_path (m(table_entry pt i1 := e)) root [j4, j3, j2, j1] =
    (if [j4, j3, j2, j1] = [i4, i3, i2, i1] then (if entry_present e then Some (entry_addr e) else None)
     else walk_path m root [j4, j3, j2, j1])" (is "walk_path ?m root _ = _")
proof -
  have ok: "index_ok i1" "index_ok j1" using path other by (simp_all add: usable_def)
  have addr: "table_addr x" if "x \<in> T k" for x k using tables_wfD(1) [OF wf that] by simp
  have upper: "?m (table_entry x j) = m (table_entry x j)" if "x \<in> T k" "k \<noteq> 1" "index_ok j" for x j k
    using slot_inject [OF addr addr, of x k pt 1 j i1] that pt(2) ok tables_wfD(2) [OF wf] by auto
  have upper_walk: "walk_path ?m root [j4, j3, j2] = walk_path m root [j4, j3, j2]"
  proof -
    have step: "walk_entry ?m x j = walk_entry m x j" if "x \<in> T k" "k \<noteq> 1" "index_ok j" for x j k
      using upper [OF that] by (simp add: walk_entry_slot)
    have u: "usable (Suc 3) j4" "usable (Suc 2) j3" "usable (Suc 1) j2" using other by (simp_all add: eval_nat_numeral)
    have d: "v \<in> T 3" if "walk_entry m root j4 = Some v" for v
      using tables_wfD(3) [OF wf _ _ u(1) that] root by (simp add: eval_nat_numeral)
    have d': "w \<in> T 2" if "v \<in> T 3" "walk_entry m v j3 = Some w" for v w
      using tables_wfD(3) [OF wf _ _ u(2) that(2)] that(1) by (simp add: eval_nat_numeral)
    show ?thesis
      using step [OF root] step [of _ 3] step [of _ 2] d d' u by (auto simp: usable_def split: bind_splits)
  qed
  have unique: "walk_path m root [j4, j3, j2] = Some pt \<longleftrightarrow> [j4, j3, j2] = [i4, i3, i2]"
    using walk_path_inject [OF wf root root, of "[j4, j3, j2]" "[i4, i3, i2]" pt] pt(1) path other by auto
  have last: "walk_entry ?m x j1 = walk_entry m x j1" if "x \<noteq> pt \<or> j1 \<noteq> i1" "x \<in> T 1" for x
    using slot_inject [OF addr addr ok(2,1), of x 1 pt 1] that pt(2) by (auto simp: walk_entry_slot)
  have level: "x \<in> T 1" if "walk_path m root [j4, j3, j2] = Some x" for x
    using walk_path_level [OF wf, of root 1 "[j4, j3, j2]" x] that root other by (simp add: eval_nat_numeral)
  have snoc: "walk_path m' root [j4, j3, j2, j1] = Option.bind (walk_path m' root [j4, j3, j2]) (\<lambda>t. walk_entry m' t j1)" for m'
    using walk_path_snoc [of m' root "[j4, j3, j2]" j1] by simp
  show ?thesis
  proof (cases "walk_path m root [j4, j3, j2]")
    case None
    then show ?thesis using unique pt(1) unfolding snoc upper_walk by auto
  next
    case (Some x)
    show ?thesis
    proof (cases "x = pt \<and> j1 = i1")
      case True
      then have "[j4, j3, j2, j1] = [i4, i3, i2, i1]" using unique Some by simp
      then show ?thesis using True unfolding snoc upper_walk Some by (simp add: walk_entry_slot)
    next
      case False
      then have "[j4, j3, j2, j1] \<noteq> [i4, i3, i2, i1]" using unique Some by auto
      then show ?thesis using last [OF _ level [OF Some]] False unfolding snoc upper_walk Some by auto
    qed
  qed
qed

lemma set_entry_wf:
  assumes wf: "tables_wf m T" and pt: "pt \<in> T 1" and i: "index_ok i"
  shows "tables_wf (m(table_entry pt i := e)) T" (is "tables_wf ?m T")
proof -
  have addr: "table_addr x" if "x \<in> T k" for x k using tables_wfD(1) [OF wf that] by simp
  have same: "?m (table_entry x j) = m (table_entry x j)" if "x \<in> T (Suc k)" "0 < k" "usable (Suc k) j" for x j k
    using slot_inject [OF addr addr, of x "Suc k" pt 1 j i] that pt i tables_wfD(2) [OF wf that(1), of 1]
    by (auto simp: usable_def)
  then have walk: "walk_entry ?m x j = walk_entry m x j" if "x \<in> T (Suc k)" "0 < k" "usable (Suc k) j" for x j k
    using that by (simp add: walk_entry_slot)
  have "wf_edges ?m T"
    unfolding wf_edges_def
  proof (intro allI impI)
    fix k x j u assume x: "x \<in> T (Suc k)" "0 < k" "usable (Suc k) j" and u: "walk_entry ?m x j = Some u"
    then show "u \<in> T k \<and> ?m (table_entry x j) AND 0xFFFFF800 = u"
      using tables_wfD(3) [OF wf x, of u] same [OF x] walk [OF x] by simp
  qed
  moreover have "wf_inject ?m T"
    unfolding wf_inject_def
  proof (intro allI impI)
    fix k x x' j j' u assume x: "x \<in> T (Suc k)" "x' \<in> T (Suc k)" "0 < k" "usable (Suc k) j" "usable (Suc k) j'"
      and u: "walk_entry ?m x j = Some u" "walk_entry ?m x' j' = Some u"
    then show "x = x' \<and> j = j'"
      using tables_wfD(4) [OF wf x, of u] walk [OF x(1,3,4)] walk [OF x(2,3,5)] by simp
  qed
  ultimately show ?thesis using wf by (simp add: tables_wf_def)
qed

section \<open>The state of the loader\<close>

definition node_index :: "loader \<Rightarrow> vaddr_t \<Rightarrow> u64" where
  "node_index s node = scast (signed_drop_bit 5 (ucast node - ucast (pm_arr (ld_pmm s)) :: u32))"

definition page_of :: "loader \<Rightarrow> vaddr_t \<Rightarrow> paddr_t" where
  "page_of s node = node_index s node * page_size64"

lemma page_of_cong: "pm_arr (ld_pmm s') = pm_arr (ld_pmm s) \<Longrightarrow> page_of s' = page_of s"
  by (simp add: fun_eq_iff page_of_def node_index_def)

text \<open>
  The database lies below 4 GiB and describes at most \<open>2\<^sup>2\<^sup>0\<close> pages, each of them in one of the
  two lists; its own memory is not free.
\<close>

definition loader_inv :: "loader \<Rightarrow> nat \<Rightarrow> vaddr_t list \<Rightarrow> vaddr_t list \<Rightarrow> bool" where
  "loader_inv s n fs rs \<longleftrightarrow> pmm_inv (ld_pmm s) fs rs \<and>
     unat (pm_arr (ld_pmm s)) + n * 32 < 2 ^ 32 \<and> n \<le> 2 ^ 20 \<and>
     pm_total (ld_pmm s) = of_nat n \<and> length fs + length rs = n \<and>
     (\<forall>x \<in> set fs \<union> set rs. \<exists>k < n. x = page_at (pm_arr (ld_pmm s)) (of_nat k)) \<and>
     (\<forall>f \<in> set fs. \<forall>x \<in> set fs \<union> set rs. \<not> in_area (page_of s f) page_size64 x)"

lemma signed_drop_entry32:
  assumes "k < 2 ^ 20"
  shows "scast (signed_drop_bit 5 (of_nat k * 32 :: u32)) = (of_nat k :: u64)"
proof -
  have u: "uint (of_nat k * 32 :: u32) = int k * 32"
    using assms by (simp add: uint_word_arith_bintrs(3) take_bit_eq_mod unsigned_of_nat flip: of_nat_mod)
  have "sint (of_nat k * 32 :: u32) = int k * 32"
    by (subst sint_uint) (use u assms in \<open>simp add: signed_take_bit_int_eq_self\<close>)
  then have "sint (signed_drop_bit 5 (of_nat k * 32 :: u32)) = int k"
    by (simp add: sint_signed_drop_bit_eq drop_bit_eq_div)
  then show ?thesis by (simp add: scast_eq)
qed

lemma node_index_entry:
  assumes "unat arr + n * 32 < 2 ^ 32" and "n \<le> 2 ^ 20" and "k < n" and "pm_arr (ld_pmm s) = arr"
  shows "node_index s (page_at arr (of_nat k)) = of_nat k"
proof -
  have node: "unat (page_at arr (of_nat k)) = unat arr + k * 32" by (rule unat_page_at [OF assms(1,3)])
  have k: "unat arr + k * 32 < 2 ^ 32" using assms(1,3) by linarith
  have narrow: "unat (ucast w :: u32) = unat w" if "unat w < 2 ^ 32" for w :: u64
    using that by (simp add: unsigned_ucast_eq take_bit_nat_eq_self)
  have "unat (ucast (page_at arr (of_nat k)) - ucast arr :: u32) = k * 32"
    using node k by (subst unat_minus_no_wrap) (simp_all add: narrow)
  moreover have "unat (of_nat k * 32 :: u32) = k * 32"
    using k by (simp add: unat_word_ariths unat_of_nat)
  ultimately have "ucast (page_at arr (of_nat k)) - ucast arr = (of_nat k * 32 :: u32)"
    by (simp add: word_unat_eq_iff)
  then show ?thesis
    using assms(2,3) by (simp add: node_index_def assms(4) signed_drop_entry32)
qed

lemma loader_page_addr:
  assumes "loader_inv s n fs rs" and "f \<in> set fs \<union> set rs"
  shows "table_addr (page_of s f)" and "page_at (pm_arr (ld_pmm s)) (node_index s f) = f"
    and "as_ptr (page_of s f) = page_of s f"
proof -
  let ?arr = "pm_arr (ld_pmm s)"
  have b: "unat ?arr + n * 32 < 2 ^ 32" "n \<le> 2 ^ 20" and ex: "\<forall>x \<in> set fs \<union> set rs. \<exists>k < n. x = page_at ?arr (of_nat k)"
    using assms(1) by (simp_all add: loader_inv_def)
  obtain k where k: "k < n" "f = page_at ?arr (of_nat k)" using bspec [OF ex assms(2)] by blast
  have i: "node_index s f = of_nat k" using node_index_entry [OF b k(1) refl] k(2) by simp
  then show "page_at ?arr (node_index s f) = f" using k(2) by simp
  have u: "unat (page_of s f) = k * 4096" "k * 4096 < 2 ^ 32"
    using b(2) k(1) by (simp_all add: page_of_def i unat_word_ariths unat_of_nat)
  then show "as_ptr (page_of s f) = page_of s f" by (simp add: word_unat_eq_iff unat_as_ptr)
  have "take_bit 12 (page_of s f) = 0" by (simp add: take_bit_eq_mod word_unat_eq_iff unat_mod_distrib u)
  moreover have "take_bit 32 (page_of s f) = page_of s f"
    using u by (simp add: word_unat_eq_iff unsigned_take_bit_eq take_bit_nat_eq_self)
  ultimately show "table_addr (page_of s f)" by (simp add: table_addr_def)
qed

text \<open>Clearing a free page leaves the lists alone.\<close>

lemma pmm_inv_clear:
  assumes "pmm_inv (ld_pmm s) fs rs" and "\<forall>x \<in> set fs \<union> set rs. \<not> in_area p sz x"
  shows "pmm_inv (ld_pmm (clear_memory p sz s)) fs rs"
proof -
  have same: "same_links (- (set fs \<union> set rs)) (pm_links (ld_pmm s)) (pm_links (ld_pmm (clear_memory p sz s)))"
    using assms(2) by (simp add: same_links_def clear_memory_def)
  have h: "ilist (pm_links (ld_pmm s)) (pm_free (ld_pmm s)) fs" "ilist (pm_links (ld_pmm s)) (pm_rsrv (ld_pmm s)) rs"
    "set fs \<inter> set rs = {}" using assms(1) by (auto simp: pmm_inv_def)
  from ilist_frame [OF h(1) same] ilist_frame [OF h(2) same] h(3) show ?thesis
    by (simp add: pmm_inv_def) (simp add: clear_memory_def)
qed

lemma loader_inv_move:
  assumes "loader_inv s n (f # fs) rs" and "pmm_inv (ld_pmm s') fs (rs @ [f])"
    and arr: "pm_arr (ld_pmm s') = pm_arr (ld_pmm s)" and "pm_total (ld_pmm s') = pm_total (ld_pmm s)"
  shows "loader_inv s' n fs (rs @ [f])"
  using assms(1,2,4) unfolding loader_inv_def page_of_cong [OF arr] arr by auto

lemma pmm_alloc_page_takes:
  assumes "loader_inv s n (f # fs) rs"
  shows "\<exists>s'. pmm_alloc_page s = Inr (s', page_of s f) \<and> loader_inv s' n fs (rs @ [f]) \<and>
    ld_mem s' = (\<lambda>a. if in_area (page_of s f) page_size64 a then 0 else ld_mem s a) \<and>
    ld_pml4 s' = ld_pml4 s \<and> pm_arr (ld_pmm s') = pm_arr (ld_pmm s) \<and> page_of s' = page_of s"
proof -
  have inv: "pmm_inv (ld_pmm s) (f # fs) rs" using assms by (simp add: loader_inv_def)
  have h: "ilist (pm_links (ld_pmm s)) (pm_free (ld_pmm s)) (f # fs)" "ilist (pm_links (ld_pmm s)) (pm_rsrv (ld_pmm s)) rs"
    "set (f # fs) \<inter> set rs = {}" using inv by (auto simp: pmm_inv_def)
  obtain l r l' r' where m: "pop_front_unsafe (pm_links (ld_pmm s)) (pm_free (ld_pmm s)) = Inr (l, r, f)"
    "push_back_unsafe l (pm_rsrv (ld_pmm s)) f = Inr (l', r')" "ilist l' r fs" "ilist l' r' (rs @ [f])"
    using nodeq.move_to_back [OF h] by blast
  define s1 where "s1 = s\<lparr>ld_pmm := (ld_pmm s)\<lparr>pm_free := r, pm_links := l', pm_rsrv := r'\<rparr>\<rparr>"
  have f: "f \<noteq> nullptr" "f \<notin> set fs" using h(1) by (auto simp: ilist_Cons)
  note addr = loader_page_addr [OF assms, of f]
  let ?s' = "clear_memory (page_of s f) page_size64 s1"
  have arr: "pm_arr (ld_pmm s1) = pm_arr (ld_pmm s)" "pm_arr (ld_pmm ?s') = pm_arr (ld_pmm s)"
    by (simp_all add: s1_def clear_memory_def)
  have "pmm_alloc_page s = Inr (?s', page_of s f)"
    using m f addr(2,3) unfolding pmm_alloc_page_def
    by (simp add: Let_def node_index_def [symmetric] page_of_def [symmetric] s1_def del: page_size64_eq)
  moreover have "pmm_inv (ld_pmm s1) fs (rs @ [f])"
    using m(3,4) h(3) f(2) by (auto simp: pmm_inv_def s1_def)
  then have "pmm_inv (ld_pmm ?s') fs (rs @ [f])"
    by (rule pmm_inv_clear) (use assms in \<open>auto simp: loader_inv_def\<close>)
  then have "loader_inv ?s' n fs (rs @ [f])"
    by (rule loader_inv_move [OF assms _ arr(2)]) (simp add: s1_def clear_memory_def)
  moreover have "ld_mem ?s' = (\<lambda>a. if in_area (page_of s f) page_size64 a then 0 else ld_mem s a)"
    "ld_pml4 ?s' = ld_pml4 s"
    by (simp_all add: clear_memory_def s1_def fun_eq_iff del: page_size64_eq)
  ultimately show ?thesis using page_of_cong [OF arr(2)] arr(2) by blast
qed

section \<open>\<open>map_page\<close> adds one page to the address space\<close>

text \<open>The invariant of the loader once \<open>setup_paging\<close> has run.\<close>

definition paging_inv :: "loader \<Rightarrow> (nat \<Rightarrow> paddr_t set) \<Rightarrow> nat \<Rightarrow> vaddr_t list \<Rightarrow> vaddr_t list \<Rightarrow> bool" where
  "paging_inv s T n fs rs \<longleftrightarrow> loader_inv s n fs rs \<and> tables_wf (ld_mem s) T \<and> ld_pml4 s \<in> T 4 \<and>
     distinct (map (page_of s) fs) \<and> (\<forall>f \<in> set fs. \<not> is_table T (page_of s f))"

text \<open>Two states with the same complete walks, and the database at the same place.\<close>

definition same_walks :: "loader \<Rightarrow> loader \<Rightarrow> bool" where
  "same_walks s s' \<longleftrightarrow> ld_pml4 s' = ld_pml4 s \<and> pm_arr (ld_pmm s') = pm_arr (ld_pmm s) \<and>
     (\<forall>is. length is = 4 \<longrightarrow> path_ok 4 is \<longrightarrow> walk_path (ld_mem s') (ld_pml4 s) is = walk_path (ld_mem s) (ld_pml4 s) is)"

text \<open>The entry is not present: a new table is entered.\<close>

lemma next_table_new:
  assumes inv: "paging_inv s T n fs rs" and t: "t \<in> T (Suc k)" "0 < k" "usable (Suc k) i"
    and flags: "flags_ok flags" and "0 < length fs"
    and None: "walk_entry (ld_mem s) t i = None"
  shows "\<exists>s' T' fs' rs' u. next_table s t i flags = Inr (s', u) \<and> paging_inv s' T' n fs' rs' \<and>
    suffix fs' fs \<and> length fs \<le> Suc (length fs') \<and> same_walks s s' \<and> walk_entry (ld_mem s') t i = Some u \<and> u \<in> T' k \<and>
    (\<forall>j. T j \<subseteq> T' j) \<and>
    (\<forall>x j v. is_table T x \<longrightarrow> index_ok j \<longrightarrow> walk_entry (ld_mem s) x j = Some v \<longrightarrow> walk_entry (ld_mem s') x j = Some v)"
proof -
  have wf: "tables_wf (ld_mem s) T" and linv: "loader_inv s n fs rs" and root: "ld_pml4 s \<in> T 4"
    using inv by (simp_all add: paging_inv_def)
  obtain f fs' where fs: "fs = f # fs'" using assms(6) by (cases fs) auto
  let ?p = "page_of s f"
  have p: "table_addr ?p" "\<not> is_table T ?p"
    using inv loader_page_addr(1) [OF linv, of f] by (simp_all add: paging_inv_def fs)
  obtain s1 where s1: "pmm_alloc_page s = Inr (s1, ?p)" "loader_inv s1 n fs' (rs @ [f])"
    "ld_mem s1 = (\<lambda>a. if in_area ?p page_size64 a then 0 else ld_mem s a)" "ld_pml4 s1 = ld_pml4 s" "page_of s1 = page_of s"
    "pm_arr (ld_pmm s1) = pm_arr (ld_pmm s)"
    using pmm_alloc_page_takes [of s n f fs' rs] linv by (auto simp: fs simp del: page_size64_eq)
  define s' where "s' = s1\<lparr>ld_mem := add_table (ld_mem s) t i ?p flags\<rparr>"
  define T' where "T' = T(k := insert ?p (T k))"
  have ok: "index_ok i" using t(3) by (simp add: usable_def)
  have "\<not> entry_present (ld_mem s (table_entry t i))" using None by (simp add: walk_entry_slot split: if_splits)
  moreover have "add_table (ld_mem s) t i ?p flags (table_entry t i) AND 0xFFFFF800 = ?p"
    using entry_mask_made [OF p(1) flags] by (simp add: add_table_def)
  ultimately have "next_table s t i flags = Inr (s', ?p)"
    using s1(1,3) by (simp add: next_table_def Let_def table_entry_def [symmetric] s'_def add_table_def del: page_size64_eq)
  moreover have "paging_inv s' T' n fs' (rs @ [f])"
  proof -
    have "loader_inv s' n fs' (rs @ [f])" using s1(2) by (simp add: s'_def loader_inv_def page_of_def node_index_def)
    moreover have "tables_wf (ld_mem s') T'" using add_table_wf [OF wf t None p flags] by (simp add: s'_def T'_def)
    moreover have "ld_pml4 s' \<in> T' 4" using root s1(4) by (simp add: s'_def T'_def)
    moreover have "page_of s' = page_of s" using s1(5) by (simp add: s'_def fun_eq_iff page_of_def node_index_def)
    moreover have "page_of s x \<noteq> ?p" if "x \<in> set fs'" for x
    proof -
      have "?p \<notin> page_of s ` set fs'" using inv by (simp add: paging_inv_def fs)
      then show ?thesis using that by (metis imageI)
    qed
    ultimately show ?thesis using inv by (auto simp: paging_inv_def fs T'_def is_table_def)
  qed
  moreover have "same_walks s s'"
    using add_table_walk [OF wf t None p flags root] s1(4,6) by (simp add: same_walks_def s'_def)
  moreover have "walk_entry (ld_mem s') t i = Some ?p"
    using add_table_entry [OF wf t(1) ok p flags] by (simp add: s'_def)
  moreover have "walk_entry (ld_mem s') x j = Some v" if "is_table T x" "index_ok j" "walk_entry (ld_mem s) x j = Some v" for x j v
  proof -
    have "\<exists>l. x \<in> T l" using that(1) by (simp add: is_table_def)
    then obtain l where "x \<in> T l" by blast
    moreover have "(x, j) \<noteq> (t, i)" using that(3) None by auto
    ultimately show ?thesis using add_table_other(1) [OF wf t(1) ok p _ _ that(2)] that(3) by (simp add: s'_def)
  qed
  ultimately show ?thesis
    by (intro exI [of _ s'] exI [of _ T'] exI [of _ fs'] exI [of _ "rs @ [f]"] exI [of _ ?p]) (auto simp: fs T'_def suffix_ConsI)
qed

lemma next_table_step:
  assumes inv: "paging_inv s T n fs rs" and t: "t \<in> T (Suc k)" "0 < k" "usable (Suc k) i"
    and flags: "flags_ok flags" and "0 < length fs"
  shows "\<exists>s' T' fs' rs' u. next_table s t i flags = Inr (s', u) \<and> paging_inv s' T' n fs' rs' \<and>
    suffix fs' fs \<and> length fs \<le> Suc (length fs') \<and> same_walks s s' \<and> walk_entry (ld_mem s') t i = Some u \<and> u \<in> T' k \<and>
    (\<forall>j. T j \<subseteq> T' j) \<and>
    (\<forall>x j v. is_table T x \<longrightarrow> index_ok j \<longrightarrow> walk_entry (ld_mem s) x j = Some v \<longrightarrow> walk_entry (ld_mem s') x j = Some v)"
proof (cases "walk_entry (ld_mem s) t i")
  case (Some u)
  have wf: "tables_wf (ld_mem s) T" using inv by (simp add: paging_inv_def)
  have "entry_present (ld_mem s (table_entry t i))" using Some by (simp add: walk_entry_slot split: if_splits)
  moreover have u: "u \<in> T k" "ld_mem s (table_entry t i) AND 0xFFFFF800 = u" using tables_wfD(3) [OF wf t Some] by simp_all
  ultimately have "next_table s t i flags = Inr (s, u)"
    by (simp add: next_table_def Let_def table_entry_def [symmetric])
  then show ?thesis using inv u(1) Some by (intro exI [of _ s] exI [of _ T] exI [of _ fs] exI [of _ rs] exI [of _ u])
    (simp add: same_walks_def)
qed (rule next_table_new [OF assms])

lemma same_walks_trans: "same_walks s s' \<Longrightarrow> same_walks s' s'' \<Longrightarrow> same_walks s s''"
  by (simp add: same_walks_def)

lemma path_ok_indices:
  assumes "pml4e_index v \<noteq> 511"
  shows "path_ok 4 (indices v)" "length (indices v) = 4"
  using assms by (simp_all add: indices_def usable_def)

text \<open>The three tables on the way down, found or created.\<close>

lemma map_page_tables:
  assumes inv: "paging_inv s T n fs rs" and "pml4e_index virt \<noteq> 511" and flags: "flags_ok flags" and "3 \<le> length fs"
  shows "\<exists>s' T' fs' rs' pdpt pd pt s1 s2. next_table s (ld_pml4 s) (pml4e_index virt) flags = Inr (s1, pdpt) \<and>
    next_table s1 pdpt (pdpte_index virt) flags = Inr (s2, pd) \<and> next_table s2 pd (pde_index virt) flags = Inr (s', pt) \<and>
    paging_inv s' T' n fs' rs' \<and> suffix fs' fs \<and> length fs \<le> length fs' + 3 \<and> same_walks s s' \<and> pt \<in> T' 1 \<and>
    walk_path (ld_mem s') (ld_pml4 s) [pml4e_index virt, pdpte_index virt, pde_index virt] = Some pt"
proof -
  have uses: "usable (Suc 3) (pml4e_index virt)" "usable (Suc 2) (pdpte_index virt)" "usable (Suc 1) (pde_index virt)"
    using assms(2) by (simp_all add: usable_def)
  have k: "0 < (3 :: nat)" "0 < (2 :: nat)" "0 < (1 :: nat)" by simp_all
  have root: "ld_pml4 s \<in> T (Suc 3)" using inv by (simp add: paging_inv_def eval_nat_numeral)
  have l0: "0 < length fs" using assms(4) by linarith
  from next_table_step [OF inv root k(1) uses(1) flags l0]
  obtain s1 T1 fs1 rs1 pdpt where 1: "next_table s (ld_pml4 s) (pml4e_index virt) flags = Inr (s1, pdpt)"
    "paging_inv s1 T1 n fs1 rs1" "length fs \<le> Suc (length fs1)" "same_walks s s1"
    "walk_entry (ld_mem s1) (ld_pml4 s) (pml4e_index virt) = Some pdpt" "pdpt \<in> T1 3" "\<forall>j. T j \<subseteq> T1 j"
    and suf1: "suffix fs1 fs"
    by blast
  have t1: "pdpt \<in> T1 (Suc 2)" using 1(6) by (simp add: eval_nat_numeral)
  have l1: "0 < length fs1" using 1(3) assms(4) by linarith
  from next_table_step [OF 1(2) t1 k(2) uses(2) flags l1]
  obtain s2 T2 fs2 rs2 pd where 2: "next_table s1 pdpt (pdpte_index virt) flags = Inr (s2, pd)"
    "paging_inv s2 T2 n fs2 rs2" "length fs1 \<le> Suc (length fs2)" "same_walks s1 s2"
    "walk_entry (ld_mem s2) pdpt (pdpte_index virt) = Some pd" "pd \<in> T2 2" "\<forall>j. T1 j \<subseteq> T2 j"
    "\<forall>x j v. is_table T1 x \<longrightarrow> index_ok j \<longrightarrow> walk_entry (ld_mem s1) x j = Some v \<longrightarrow> walk_entry (ld_mem s2) x j = Some v"
    and suf2: "suffix fs2 fs1"
    by blast
  have t2: "pd \<in> T2 (Suc 1)" using 2(6) by (simp add: eval_nat_numeral)
  have l2: "0 < length fs2" using 1(3) 2(3) assms(4) by linarith
  from next_table_step [OF 2(2) t2 k(3) uses(3) flags l2]
  obtain s3 T3 fs3 rs3 pt where 3: "next_table s2 pd (pde_index virt) flags = Inr (s3, pt)"
    "paging_inv s3 T3 n fs3 rs3" "length fs2 \<le> Suc (length fs3)" "same_walks s2 s3"
    "walk_entry (ld_mem s3) pd (pde_index virt) = Some pt" "pt \<in> T3 1"
    "\<forall>x j v. is_table T2 x \<longrightarrow> index_ok j \<longrightarrow> walk_entry (ld_mem s2) x j = Some v \<longrightarrow> walk_entry (ld_mem s3) x j = Some v"
    and suf3: "suffix fs3 fs2"
    by blast
  have tabs: "is_table T1 (ld_pml4 s)" "is_table T2 (ld_pml4 s)" "is_table T2 pdpt"
    using root 1(6,7) 2(7) unfolding is_table_def by blast+
  have "walk_entry (ld_mem s3) (ld_pml4 s) (pml4e_index virt) = Some pdpt"
    by (rule 3(7) [rule_format, OF tabs(2) _ 2(8) [rule_format, OF tabs(1) _ 1(5)]]) simp_all
  moreover have "walk_entry (ld_mem s3) pdpt (pdpte_index virt) = Some pd"
    by (rule 3(7) [rule_format, OF tabs(3) _ 2(5)]) simp
  ultimately have "walk_path (ld_mem s3) (ld_pml4 s) [pml4e_index virt, pdpte_index virt, pde_index virt] = Some pt"
    using 3(5) by simp
  moreover have "same_walks s s3" using 1(4) 2(4) 3(4) by (blast intro: same_walks_trans)
  moreover have "length fs \<le> length fs3 + 3" using 1(3) 2(3) 3(3) by simp
  moreover have "suffix fs3 fs" using suf1 suf2 suf3 by (blast intro: suffix_order.trans)
  ultimately show ?thesis using 1(1) 2(1) 3(1,2,6) by blast
qed

lemma map_page_step:
  assumes "paging_inv s T n fs rs" and "3 \<le> length fs" and "flags_ok flags"
    and "phys mod page_size64 = 0" and "take_bit 52 phys = phys" and "virt mod page_size64 = 0"
    and "pml4e_index virt \<noteq> 511"
  shows "\<exists>s' T' fs' rs'. map_page s phys virt flags = Inr s' \<and> paging_inv s' T' n fs' rs' \<and>
    suffix fs' fs \<and> length fs \<le> length fs' + 3 \<and> ld_pml4 s' = ld_pml4 s \<and> pm_arr (ld_pmm s') = pm_arr (ld_pmm s) \<and>
    (\<forall>v. pml4e_index v \<noteq> 511 \<longrightarrow> translate (ld_mem s') (ld_pml4 s') v =
       (if indices v = indices virt \<and> translate (ld_mem s) (ld_pml4 s) virt = None
        then Some (phys + take_bit 12 v) else translate (ld_mem s) (ld_pml4 s) v))"
proof -
  obtain s' T' fs' rs' pdpt pd pt s1 s2 where d: "next_table s (ld_pml4 s) (pml4e_index virt) flags = Inr (s1, pdpt)"
    "next_table s1 pdpt (pdpte_index virt) flags = Inr (s2, pd)" "next_table s2 pd (pde_index virt) flags = Inr (s', pt)"
    and inv: "paging_inv s' T' n fs' rs'" and len: "suffix fs' fs" "length fs \<le> length fs' + 3" and same: "same_walks s s'"
    and pt: "pt \<in> T' 1" "walk_path (ld_mem s') (ld_pml4 s) [pml4e_index virt, pdpte_index virt, pde_index virt] = Some pt"
    using map_page_tables [OF assms(1,7,3,2)] by blast
  let ?slot = "table_entry pt (pte_index virt)"
  let ?m = "(ld_mem s')(?slot := phys OR 1 OR flags)"
  have wf: "tables_wf (ld_mem s') T'" and root: "ld_pml4 s \<in> T' 4" and pml4: "ld_pml4 s' = ld_pml4 s"
    and arr: "pm_arr (ld_pmm s') = pm_arr (ld_pmm s)"
    using inv same by (simp_all add: paging_inv_def same_walks_def)
  have low: "take_bit 12 phys = 0" using assms(4) by (simp add: take_bit_eq_mod)
  have old: "translate (ld_mem s') (ld_pml4 s) v = translate (ld_mem s) (ld_pml4 s) v" if "pml4e_index v \<noteq> 511" for v
    using same path_ok_indices [OF that] by (simp add: same_walks_def translate_def)
  have "indices virt = [pml4e_index virt, pdpte_index virt, pde_index virt] @ [pte_index virt]" by (simp add: indices_def)
  then have "walk_path (ld_mem s') (ld_pml4 s) (indices virt) = walk_entry (ld_mem s') pt (pte_index virt)"
    using pt(2) by (simp only: walk_path_snoc bind.bind_lunit)
  then have vt: "translate (ld_mem s') (ld_pml4 s) virt = None \<longleftrightarrow> \<not> entry_present (ld_mem s' ?slot)"
    by (simp add: translate_def walk_entry_slot)
  have map: "map_page s phys virt flags = Inr (if entry_present (ld_mem s' ?slot) then s' else s'\<lparr>ld_mem := ?m\<rparr>)"
    using d assms(4,6) by (simp add: map_page_def Let_def table_entry_def del: page_size64_eq)
  show ?thesis
  proof (cases "entry_present (ld_mem s' ?slot)")
    case True
    then have "translate (ld_mem s) (ld_pml4 s) virt \<noteq> None" using vt old [OF assms(7)] by simp
    then show ?thesis using True map inv len old pml4 arr by (intro exI [of _ s'] exI [of _ T'] exI [of _ fs'] exI [of _ rs']) auto
  next
    case False
    have new: "walk_path ?m (ld_pml4 s) (indices v) =
        (if indices v = indices virt then Some phys else walk_path (ld_mem s') (ld_pml4 s) (indices v))"
      if "pml4e_index v \<noteq> 511" for v
      using set_entry_walk [OF wf root _ pt(2,1), of "pte_index virt"] path_ok_indices(1) [OF assms(7)] path_ok_indices(1) [OF that]
        entry_addr_made [OF low assms(5,3)] entry_present_made
      by (simp add: indices_def)
    have trans: "translate ?m (ld_pml4 s) v = (if indices v = indices virt then Some (phys + take_bit 12 v)
        else translate (ld_mem s) (ld_pml4 s) v)" if "pml4e_index v \<noteq> 511" for v
      using new [OF that] old [OF that] by (simp add: translate_def)
    have "paging_inv (s'\<lparr>ld_mem := ?m\<rparr>) T' n fs' rs'"
    proof -
      have "page_of (s'\<lparr>ld_mem := ?m\<rparr>) = page_of s'" by (rule page_of_cong) simp
      then show ?thesis
        using inv set_entry_wf [OF wf pt(1)] by (simp add: paging_inv_def loader_inv_def)
    qed
    moreover have "translate (ld_mem s) (ld_pml4 s) virt = None" using False vt old [OF assms(7)] by simp
    ultimately show ?thesis using False map len trans pml4 arr
      by (intro exI [of _ "s'\<lparr>ld_mem := ?m\<rparr>"] exI [of _ T'] exI [of _ fs'] exI [of _ rs']) simp
  qed
qed

text \<open>
  C2. \<open>map_page\<close> refines the insertion of one page into the address space: from page tables that
  form a tree, with three free pages, it succeeds, keeps the tables a tree, uses at most three
  free pages, and afterwards the processor translates the addresses of the page \<open>virt\<close> to
  \<open>phys\<close> (or as before, if the page was already mapped) and every other address outside the
  recursive window exactly as before.
\<close>

theorem map_page_refines:
  assumes "paging_inv s T n fs rs" and "3 \<le> length fs" and "flags_ok flags"
    and "phys mod page_size64 = 0" and "take_bit 52 phys = phys" and "virt mod page_size64 = 0"
    and "pml4e_index virt \<noteq> 511"
  shows "\<exists>s' T' fs' rs'. map_page s phys virt flags = Inr s' \<and> paging_inv s' T' n fs' rs' \<and>
    length fs \<le> length fs' + 3 \<and> ld_pml4 s' = ld_pml4 s \<and> pm_arr (ld_pmm s') = pm_arr (ld_pmm s) \<and>
    (\<forall>v. pml4e_index v \<noteq> 511 \<longrightarrow> translate (ld_mem s') (ld_pml4 s') v =
       (if indices v = indices virt \<and> translate (ld_mem s) (ld_pml4 s) virt = None
        then Some (phys + take_bit 12 v) else translate (ld_mem s) (ld_pml4 s) v))"
  using map_page_step [OF assms] by blast

text \<open>An empty PML4 at 0x8000, and six free pages.\<close>

definition example_nodes :: "vaddr_t list" where
  "example_nodes = [0x10020, 0x10040, 0x10060, 0x10080, 0x100A0, 0x100C0]"

definition example_paging :: loader where
  "example_paging = example_loader\<lparr>ld_pmm := (ld_pmm example_loader)\<lparr>
     pm_links := \<lparr>nexts = id(0x10020 := 0x10040, 0x10040 := 0x10060, 0x10060 := 0x10080, 0x10080 := 0x100A0,
         0x100A0 := 0x100C0, 0x100C0 := 0x10020),
       prevs = id(0x10020 := 0x100C0, 0x10040 := 0x10020, 0x10060 := 0x10040, 0x10080 := 0x10060,
         0x100A0 := 0x10080, 0x100C0 := 0x100A0)\<rparr>,
     pm_free := 0x10020, pm_rsrv := 0x10000, pm_total := 7, pm_arr := 0x10000\<rparr>, ld_pml4 := 0x8000\<rparr>"

lemma example_paging_inv:
  "paging_inv example_paging ((\<lambda>_. {})(4 := {0x8000})) 7 example_nodes [0x10000]"
proof -
  have pages: "page_of example_paging 0x10020 = 0x1000" "page_of example_paging 0x10040 = 0x2000"
    "page_of example_paging 0x10060 = 0x3000" "page_of example_paging 0x10080 = 0x4000"
    "page_of example_paging 0x100A0 = 0x5000" "page_of example_paging 0x100C0 = 0x6000"
    by (simp_all add: page_of_def node_index_def example_paging_def)
  have inv: "pmm_inv (ld_pmm example_paging) example_nodes [0x10000]"
    by (simp add: pmm_inv_def ilist_def cyc_def example_paging_def example_loader_def example_nodes_def)
  have nodes: "0x10000 # example_nodes = map (\<lambda>k. page_at 0x10000 (of_nat k)) [0, 1, 2, 3, 4, 5, 6]"
    by (simp add: example_nodes_def page_at_def as_ptr_def sizeof_Page_def)
  have "\<exists>k < 7. x = page_at (pm_arr (ld_pmm example_paging)) (of_nat k)" if "x \<in> set (0x10000 # example_nodes)" for x
  proof -
    obtain k where "k \<in> set [0, 1, 2, 3, 4, 5, 6 :: nat]" "x = page_at 0x10000 (of_nat k)"
      using \<open>x \<in> set (0x10000 # example_nodes)\<close> unfolding nodes set_map by blast
    then show ?thesis by (intro exI [of _ k]) (auto simp: example_paging_def)
  qed
  moreover have "\<forall>f \<in> set example_nodes. \<forall>x \<in> set (0x10000 # example_nodes). \<not> in_area (page_of example_paging f) page_size64 x"
    by (simp add: example_nodes_def pages in_area_def)
  ultimately have "loader_inv example_paging 7 example_nodes [0x10000]"
    using inv by (simp add: loader_inv_def) (simp add: example_paging_def example_nodes_def)
  moreover have "tables_wf (ld_mem example_paging) ((\<lambda>_. {})(4 := {0x8000}))"
  proof -
    have "walk_entry (ld_mem example_paging) t i = None" for t i
      by (simp add: walk_entry_def entry_present_def example_paging_def example_loader_def)
    moreover have "table_addr 0x8000" by (simp add: table_addr_def)
    ultimately show ?thesis by (auto simp: tables_wf_def wf_levels_def wf_disjoint_def wf_edges_def wf_inject_def split: if_splits)
  qed
  moreover have "ld_pml4 example_paging = 0x8000" by (simp add: example_paging_def)
  ultimately show ?thesis
    by (simp add: paging_inv_def is_table_def) (simp add: example_nodes_def pages)
qed

lemma example_paging_unmapped: "translate (ld_mem example_paging) (ld_pml4 example_paging) v = None"
  by (simp add: translate_def indices_def walk_entry_def entry_present_def example_paging_def example_loader_def)

theorem map_page_refines_witness:
  "\<exists>s'. map_page example_paging 0x5000 0x401000 3 = Inr s' \<and>
     translate (ld_mem s') (ld_pml4 s') 0x401234 = Some 0x5234"
proof -
  have "indices 0x401234 = indices 0x401000" "pml4e_index 0x401000 = 0" "pml4e_index 0x401234 = 0" by code_simp+
  moreover have "flags_ok 3" by (simp add: flags_ok_def)
  moreover have "3 \<le> length example_nodes" by (simp add: example_nodes_def)
  ultimately show ?thesis
    using map_page_refines [OF example_paging_inv, of 3 "0x5000" "0x401000"] by (auto simp: example_paging_unmapped)
qed

section \<open>\<open>setup_paging\<close> establishes the invariant\<close>

lemma setup_paging_step:
  assumes "loader_inv s n (f # fs) rs" and "distinct (map (page_of s) (f # fs))"
  shows "\<exists>s'. setup_paging s = Inr (s', page_of s f) \<and> ld_pml4 s' = page_of s f \<and>
    paging_inv s' ((\<lambda>_. {})(4 := {page_of s f})) n fs (rs @ [f]) \<and>
    walk_entry (ld_mem s') (ld_pml4 s') 511 = Some (ld_pml4 s') \<and>
    (\<forall>v. pml4e_index v \<noteq> 511 \<longrightarrow> translate (ld_mem s') (ld_pml4 s') v = None)"
proof -
  let ?p = "page_of s f"
  obtain s1 where s1: "pmm_alloc_page s = Inr (s1, ?p)" "loader_inv s1 n fs (rs @ [f])"
    "ld_mem s1 = (\<lambda>a. if in_area ?p page_size64 a then 0 else ld_mem s a)" "page_of s1 = page_of s"
    using pmm_alloc_page_takes [OF assms(1)] by blast
  have p: "table_addr ?p" "as_ptr ?p = ?p" using loader_page_addr [OF assms(1), of f] by simp_all
  define s2 where "s2 = clear_memory ?p page_size64 (s1\<lparr>ld_pml4 := ?p\<rparr>)"
  define s' where "s' = s2\<lparr>ld_mem := (ld_mem s2)(table_entry ?p 511 := ?p OR 1 OR 2)\<rparr>"
  have arr: "pm_arr (ld_pmm s') = pm_arr (ld_pmm s1)" by (simp add: s'_def s2_def clear_memory_def)
  have total: "pm_total (ld_pmm s2) = pm_total (ld_pmm s1)" by (simp add: s2_def clear_memory_def)
  have pml4': "ld_pml4 s2 = ?p" by (simp add: s2_def clear_memory_def)
  have "setup_paging s = Inr (s', ?p)"
    by (simp add: setup_paging_def s1(1) p(2) Let_def s2_def [symmetric] pml4' s'_def table_entry_def del: page_size64_eq)
  moreover have pml4: "ld_pml4 s' = ?p" by (simp add: s'_def s2_def clear_memory_def)
  have slot: "ld_mem s' (table_entry ?p i) = (if i = 511 then ?p OR 1 OR 2 else 0)" if "index_ok i" for i
    using slot_inject [OF p(1) p(1) that, of 511] in_area_slot [OF p(1) p(1) that]
    by (auto simp: s'_def s2_def clear_memory_def simp del: page_size64_eq)
  have rec: "walk_entry (ld_mem s') ?p 511 = Some ?p"
    using slot [of 511] entry_addr_made [of ?p 2] entry_present_made [of ?p 2] table_addr_52 [OF p(1)]
    by (simp add: walk_entry_slot flags_ok_def)
  have none: "walk_entry (ld_mem s') ?p i = None" if "usable 4 i" for i
    using slot [of i] that by (auto simp: walk_entry_slot entry_present_def usable_def)
  have "tables_wf (ld_mem s') ((\<lambda>_. {})(4 := {?p}))"
    using none p(1) by (auto simp: tables_wf_def wf_levels_def wf_disjoint_def wf_edges_def wf_inject_def split: if_splits)
  moreover have "pmm_inv (ld_pmm s1) fs (rs @ [f])" using s1(2) by (simp add: loader_inv_def)
  then have "pmm_inv (ld_pmm s2) fs (rs @ [f])"
    unfolding s2_def by (intro pmm_inv_clear) (use assms(1) in \<open>auto simp: loader_inv_def\<close>)
  then have "loader_inv s' n fs (rs @ [f])"
    using s1(2) unfolding loader_inv_def page_of_cong [OF arr] arr by (simp add: s'_def total)
  moreover have "?p \<notin> page_of s ` set fs" using assms(2) by simp
  then have "\<not> is_table ((\<lambda>_. {})(4 := {?p})) (page_of s x)" if "x \<in> set fs" for x
    using that by (auto simp: is_table_def split: if_splits) (metis imageI)
  ultimately have "paging_inv s' ((\<lambda>_. {})(4 := {?p})) n fs (rs @ [f])"
    using assms(2) s1(4) pml4 by (simp add: paging_inv_def page_of_cong [OF arr])
  moreover have "translate (ld_mem s') ?p v = None" if "pml4e_index v \<noteq> 511" for v
    using none [of "pml4e_index v"] that by (simp add: translate_def indices_def usable_def)
  ultimately show ?thesis
    using \<open>setup_paging s = Inr (s', ?p)\<close> pml4 rec by auto
qed

text \<open>
  \<open>setup_paging\<close> starts an address space with nothing mapped: it takes the first free page
  as the PML4, maps no address outside the recursive window, makes entry 511 point to the PML4
  itself, and establishes the invariant under which \<open>map_page\<close> is correct.
\<close>

theorem setup_paging_empty:
  assumes "loader_inv s n (f # fs) rs" and "distinct (map (page_of s) (f # fs))"
  shows "\<exists>s'. setup_paging s = Inr (s', page_of s f) \<and> ld_pml4 s' = page_of s f \<and>
    paging_inv s' ((\<lambda>_. {})(4 := {page_of s f})) n fs (rs @ [f]) \<and>
    walk_entry (ld_mem s') (ld_pml4 s') 511 = Some (ld_pml4 s') \<and>
    (\<forall>v. pml4e_index v \<noteq> 511 \<longrightarrow> translate (ld_mem s') (ld_pml4 s') v = None)"
  by (rule setup_paging_step [OF assms])

theorem setup_paging_empty_witness:
  "\<exists>s'. setup_paging example_paging = Inr (s', 0x1000) \<and> translate (ld_mem s') (ld_pml4 s') 0x401000 = None"
proof -
  have "loader_inv example_paging 7 example_nodes [0x10000]" "distinct (map (page_of example_paging) example_nodes)"
    using example_paging_inv by (simp_all add: paging_inv_def)
  then have inv: "loader_inv example_paging 7 (0x10020 # tl example_nodes) [0x10000]"
    "distinct (map (page_of example_paging) (0x10020 # tl example_nodes))"
    by (simp_all add: example_nodes_def)
  have "page_of example_paging 0x10020 = 0x1000"
    by (simp add: page_of_def node_index_def example_paging_def)
  moreover have "pml4e_index 0x401000 = 0" by code_simp
  ultimately show ?thesis using setup_paging_empty [OF inv] by auto
qed

end
