(* ===== verification/Lib_Elf.thy ===== *)
theory Lib_Elf
  imports Ebl_String Ebl_Status
begin

text \<open>
  \<open>lib/elf\<close>: the header structures of \<open>sysv_elf_abi.h\<close>, the context of \<open>elf.h\<close> and the parsers of
  \<open>parser.cc\<close>, \<open>elf64_parser.cc\<close> and \<open>elf32_parser.cc\<close>.

  An image is a range of byte memory; each structure is a record with the function that reads
  it from its address (little-endian, System V layout). String literals of the code are
  arguments: the addresses of \<open>.null\<close>, \<open>.symtab\<close> and \<open>.strtab\<close>. Loops that compare strings
  carry the fuel of \<open>strcmp\<close>. The argument \<open>pt\<close> converts the 64-bit sum of a \<open>uintptr_t\<close> and an offset to a
  pointer: the identity where pointers have 64 bits, the truncation to 32 bits in the loader.
\<close>

section \<open>Structures\<close>

definition rd16 :: "mem \<Rightarrow> vaddr_t \<Rightarrow> u16" where
  "rd16 m a = ucast (load_le m a 2)"

definition rd32 :: "mem \<Rightarrow> vaddr_t \<Rightarrow> u32" where
  "rd32 m a = ucast (load_le m a 4)"

definition rd64 :: "mem \<Rightarrow> vaddr_t \<Rightarrow> u64" where
  "rd64 m a = load_le m a 8"

definition EI_CLASS :: vaddr_t where
  "EI_CLASS = 4"

record elf64_ehdr =
  e_type :: u16
  e_machine :: u16
  e_version :: u32
  e_entry :: u64
  e_phoff :: u64
  e_shoff :: u64
  e_flags :: u32
  e_ehsize :: u16
  e_phentsize :: u16
  e_phnum :: u16
  e_shentsize :: u16
  e_shnum :: u16
  e_shstrndx :: u16

definition read_ehdr :: "mem \<Rightarrow> vaddr_t \<Rightarrow> elf64_ehdr" where
  "read_ehdr m a = \<lparr>e_type = rd16 m (a + 16), e_machine = rd16 m (a + 18), e_version = rd32 m (a + 20),
     e_entry = rd64 m (a + 24), e_phoff = rd64 m (a + 32), e_shoff = rd64 m (a + 40),
     e_flags = rd32 m (a + 48), e_ehsize = rd16 m (a + 52), e_phentsize = rd16 m (a + 54),
     e_phnum = rd16 m (a + 56), e_shentsize = rd16 m (a + 58), e_shnum = rd16 m (a + 60),
     e_shstrndx = rd16 m (a + 62)\<rparr>"

record elf64_phdr =
  p_type :: u32
  p_flags :: u32
  p_offset :: u64
  p_vaddr :: u64
  p_paddr :: u64
  p_filesz :: u64
  p_memsz :: u64
  p_align :: u64

definition sizeof_phdr :: u64 where
  "sizeof_phdr = 56"

definition read_phdr :: "mem \<Rightarrow> vaddr_t \<Rightarrow> elf64_phdr" where
  "read_phdr m a = \<lparr>p_type = rd32 m a, p_flags = rd32 m (a + 4), p_offset = rd64 m (a + 8),
     p_vaddr = rd64 m (a + 16), p_paddr = rd64 m (a + 24), p_filesz = rd64 m (a + 32),
     p_memsz = rd64 m (a + 40), p_align = rd64 m (a + 48)\<rparr>"

definition PT_LOAD :: u32 where
  "PT_LOAD = 1"

record elf64_shdr =
  sh_name :: u32
  sh_type :: u32
  sh_flags :: u64
  sh_addr :: u64
  sh_offset :: u64
  sh_size :: u64
  sh_link :: u32
  sh_info :: u32
  sh_addralign :: u64
  sh_entsize :: u64

definition sizeof_shdr :: u64 where
  "sizeof_shdr = 64"

definition read_shdr :: "mem \<Rightarrow> vaddr_t \<Rightarrow> elf64_shdr" where
  "read_shdr m a = \<lparr>sh_name = rd32 m a, sh_type = rd32 m (a + 4), sh_flags = rd64 m (a + 8),
     sh_addr = rd64 m (a + 16), sh_offset = rd64 m (a + 24), sh_size = rd64 m (a + 32),
     sh_link = rd32 m (a + 40), sh_info = rd32 m (a + 44), sh_addralign = rd64 m (a + 48),
     sh_entsize = rd64 m (a + 56)\<rparr>"

record elf64_sym =
  st_name :: u32
  st_info :: u8
  st_other :: u8
  st_shndx :: u16
  st_value :: u64
  st_size :: u64

definition sizeof_sym :: u64 where
  "sizeof_sym = 24"

definition read_sym :: "mem \<Rightarrow> vaddr_t \<Rightarrow> elf64_sym" where
  "read_sym m a = \<lparr>st_name = rd32 m a, st_info = m (a + 4), st_other = m (a + 5), st_shndx = rd16 m (a + 6),
     st_value = rd64 m (a + 8), st_size = rd64 m (a + 16)\<rparr>"

section \<open>The context\<close>

record elf_context =
  cx_img :: vaddr_t
  cx_shdr :: vaddr_t
  cx_phdr :: vaddr_t
  cx_symtab :: vaddr_t
  cx_strtab :: vaddr_t
  cx_is_64bits :: bool

definition shdr_at :: "vaddr_t \<Rightarrow> nat \<Rightarrow> vaddr_t" where
  "shdr_at shdr i = shdr + of_nat i * sizeof_shdr"

definition read_section64 :: "(u64 \<Rightarrow> vaddr_t) \<Rightarrow> mem \<Rightarrow> vaddr_t \<Rightarrow> vaddr_t \<Rightarrow> u16 \<Rightarrow> vaddr_t" where
  "read_section64 pt m img shdr idx = pt (img + sh_offset (read_shdr m (shdr_at shdr (unat idx))))"

text \<open>The loop of \<open>find_section\<close>: \<open>left\<close> sections from section \<open>i\<close> on.\<close>

fun find_section_loop ::
  "nat \<Rightarrow> mem \<Rightarrow> vaddr_t \<Rightarrow> vaddr_t \<Rightarrow> vaddr_t \<Rightarrow> vaddr_t \<Rightarrow> nat \<Rightarrow> nat \<Rightarrow> vaddr_t exec" where
  "find_section_loop fuel m null_lit sh_str shdr name 0 i = Inr nullptr"
| "find_section_loop fuel m null_lit sh_str shdr name (Suc left) i =
     bindE (if m name = 0 then bindE (strcmp fuel m null_lit name) (\<lambda>c. Inr (c = 0)) else Inr False) (\<lambda>hit.
     if hit then Inr (shdr_at shdr i)
     else bindE (strcmp fuel m (sh_str + ucast (sh_name (read_shdr m (shdr_at shdr i)))) name) (\<lambda>c.
          if c = 0 then Inr (shdr_at shdr i)
          else find_section_loop fuel m null_lit sh_str shdr name left (Suc i)))"

definition find_section :: "(u64 \<Rightarrow> vaddr_t) \<Rightarrow> nat \<Rightarrow> mem \<Rightarrow> vaddr_t \<Rightarrow> elf_context \<Rightarrow> vaddr_t \<Rightarrow> vaddr_t exec" where
  "find_section pt fuel m null_lit ctx name =
     (let hdr = read_ehdr m (cx_img ctx);
          sh_str = read_section64 pt m (cx_img ctx) (cx_shdr ctx) (e_shstrndx hdr)
      in find_section_loop fuel m null_lit sh_str (cx_shdr ctx) name (unat (e_shnum hdr)) 0)"

record literals =
  lit_null :: vaddr_t
  lit_symtab :: vaddr_t
  lit_strtab :: vaddr_t

definition load64 :: "(u64 \<Rightarrow> vaddr_t) \<Rightarrow> nat \<Rightarrow> mem \<Rightarrow> literals \<Rightarrow> elf_context \<Rightarrow> vaddr_t \<Rightarrow> (elf_context \<times> E) exec" where
  "load64 pt fuel m lits ctx hdr =
     (let ctx = ctx\<lparr>cx_img := hdr, cx_shdr := pt (hdr + e_shoff (read_ehdr m hdr)),
                    cx_phdr := pt (hdr + e_phoff (read_ehdr m hdr))\<rparr> in
      bindE (find_section pt fuel m (lit_null lits) ctx (lit_symtab lits)) (\<lambda>symtab.
      let ctx = ctx\<lparr>cx_symtab := symtab\<rparr> in
      bindE (find_section pt fuel m (lit_null lits) ctx (lit_strtab lits)) (\<lambda>strtab.
      Inr (ctx\<lparr>cx_strtab := strtab\<rparr>, OK))))"

definition load32 :: "elf_context \<Rightarrow> elf_context \<times> E" where
  "load32 ctx = (ctx, NOT_IMPLEMENTED)"

definition is_valid_elf :: "mem \<Rightarrow> vaddr_t \<Rightarrow> bool" where
  "is_valid_elf m h \<longleftrightarrow> m h = 0x7F \<and> m (h + 1) = 0x45 \<and> m (h + 2) = 0x4C \<and> m (h + 3) = 0x46"

definition elf_load :: "(u64 \<Rightarrow> vaddr_t) \<Rightarrow> nat \<Rightarrow> mem \<Rightarrow> literals \<Rightarrow> elf_context \<Rightarrow> vaddr_t \<Rightarrow> (elf_context \<times> E) exec" where
  "elf_load pt fuel m lits ctx img =
     (if \<not> is_valid_elf m img then Inr (ctx, INVALID)
      else if m (img + EI_CLASS) = 1 then Inr (load32 (ctx\<lparr>cx_is_64bits := False\<rparr>))
      else if m (img + EI_CLASS) = 2 then load64 pt fuel m lits (ctx\<lparr>cx_is_64bits := True\<rparr>) img
      else Inr (ctx, INVALID))"

text \<open>The range \<open>get_header<elf64_phdr_t>()\<close>: the addresses its iterator visits.\<close>

definition get_phdrs :: "mem \<Rightarrow> elf_context \<Rightarrow> vaddr_t list" where
  "get_phdrs m ctx =
     map (\<lambda>i. cx_phdr ctx + of_nat i * sizeof_phdr) [0..<unat (e_phnum (read_ehdr m (cx_img ctx)))]"

section \<open>Symbols\<close>

definition num_syms :: "mem \<Rightarrow> elf_context \<Rightarrow> nat" where
  "num_syms m ctx = unat (sh_size (read_shdr m (cx_symtab ctx)) div sizeof_sym)"

definition sym_at :: "(u64 \<Rightarrow> vaddr_t) \<Rightarrow> mem \<Rightarrow> elf_context \<Rightarrow> nat \<Rightarrow> vaddr_t" where
  "sym_at pt m ctx i = pt (sh_offset (read_shdr m (cx_symtab ctx)) + cx_img ctx) + of_nat i * sizeof_sym"

text \<open>The common loop of \<open>get_symbol_name\<close> and \<open>get_symbol_addr\<close>, which keeps the best symbol and its value.\<close>

fun best_symbol :: "mem \<Rightarrow> vaddr_t \<Rightarrow> vaddr_t list \<Rightarrow> vaddr_t \<Rightarrow> u64 \<Rightarrow> vaddr_t \<times> u64" where
  "best_symbol m addr [] best val = (best, val)"
| "best_symbol m addr (s # ss) best val =
     (if val < st_value (read_sym m s) \<and> st_value (read_sym m s) \<le> addr
      then best_symbol m addr ss s (st_value (read_sym m s))
      else best_symbol m addr ss best val)"

definition get_symbol_addr :: "(u64 \<Rightarrow> vaddr_t) \<Rightarrow> mem \<Rightarrow> elf_context \<Rightarrow> vaddr_t \<Rightarrow> u64 exec" where
  "get_symbol_addr pt m ctx addr =
     guardE (cx_symtab ctx \<noteq> nullptr) NullDeref
     (Inr (snd (best_symbol m addr (map (sym_at pt m ctx) [0..<num_syms m ctx]) nullptr 0)))"

definition get_symbol_name :: "(u64 \<Rightarrow> vaddr_t) \<Rightarrow> mem \<Rightarrow> elf_context \<Rightarrow> vaddr_t \<Rightarrow> vaddr_t exec" where
  "get_symbol_name pt m ctx addr =
     guardE (cx_symtab ctx \<noteq> nullptr) NullDeref
     (let best = fst (best_symbol m addr (map (sym_at pt m ctx) [0..<num_syms m ctx]) nullptr 0)
      in if best = nullptr then Inr nullptr
         else guardE (cx_strtab ctx \<noteq> nullptr) NullDeref
           (Inr (pt (sh_offset (read_shdr m (cx_strtab ctx)) + cx_img ctx) + ucast (st_name (read_sym m best)))))"

section \<open>Comparing names\<close>

definition str_eq :: "mem \<Rightarrow> vaddr_t \<Rightarrow> vaddr_t \<Rightarrow> bool" where
  "str_eq m a b \<longleftrightarrow> (\<exists>n. cstr m a n \<and> (\<forall>i \<le> n. m (a + of_nat i) = m (b + of_nat i)))"

lemma strcmp_str_eq:
  assumes "cstr m a n" and "n < fuel"
  shows "\<exists>c. strcmp fuel m a b = Inr c \<and> (c = 0 \<longleftrightarrow> str_eq m a b)"
proof -
  define k where "k = (LEAST k. m (a + of_nat k) = 0 \<or> m (a + of_nat k) \<noteq> m (b + of_nat k))"
  have n0: "m (a + of_nat n) = 0" using assms(1) by (simp add: cstr_def)
  have stop: "m (a + of_nat k) = 0 \<or> m (a + of_nat k) \<noteq> m (b + of_nat k)"
    unfolding k_def by (rule LeastI [of _ n]) (use n0 in simp)
  have "k \<le> n" unfolding k_def by (rule Least_le) (use n0 in simp)
  have before: "m (a + of_nat i) = m (b + of_nat i) \<and> m (a + of_nat i) \<noteq> 0" if "i < k" for i
    using not_less_Least [of i "\<lambda>k. m (a + of_nat k) = 0 \<or> m (a + of_nat k) \<noteq> m (b + of_nat k)"] that
    unfolding k_def by blast
  have cmp: "strcmp fuel m a b = Inr (uint (m (a + of_nat k)) - uint (m (b + of_nat k)))"
  proof (rule strcmp_first_diff [OF _ stop])
    show "\<forall>i < k. m (a + of_nat i) = m (b + of_nat i) \<and> m (a + of_nat i) \<noteq> 0" using before by blast
    show "k < fuel" using \<open>k \<le> n\<close> assms(2) by simp
  qed
  have "uint (m (a + of_nat k)) - uint (m (b + of_nat k)) = 0 \<longleftrightarrow> m (a + of_nat k) = m (b + of_nat k)"
    by (simp add: word_uint_eq_iff)
  also have "\<dots> \<longleftrightarrow> str_eq m a b"
  proof
    assume eq: "m (a + of_nat k) = m (b + of_nat k)"
    then have "cstr m a k" unfolding cstr_def using stop before by metis
    then show "str_eq m a b" unfolding str_eq_def using before eq by (metis le_less)
  next
    assume "str_eq m a b"
    then obtain l where l: "cstr m a l" "\<forall>i \<le> l. m (a + of_nat i) = m (b + of_nat i)"
      by (auto simp: str_eq_def)
    have "k \<le> l" unfolding k_def by (rule Least_le) (use l(1) in \<open>simp add: cstr_def\<close>)
    then show "m (a + of_nat k) = m (b + of_nat k)" using l(2) by simp
  qed
  finally show ?thesis using cmp by blast
qed

section \<open>Properties\<close>

definition section_name :: "(u64 \<Rightarrow> vaddr_t) \<Rightarrow> mem \<Rightarrow> elf_context \<Rightarrow> nat \<Rightarrow> vaddr_t" where
  "section_name pt m ctx i =
     read_section64 pt m (cx_img ctx) (cx_shdr ctx) (e_shstrndx (read_ehdr m (cx_img ctx))) +
       ucast (sh_name (read_shdr m (shdr_at (cx_shdr ctx) i)))"

lemma null_check_fails:
  assumes "m null_lit \<noteq> 0" and "0 < fuel"
  shows "(if m name = 0 then bindE (strcmp fuel m null_lit name) (\<lambda>c. Inr (c = 0)) else Inr False) = Inr False"
  using assms by (cases fuel) (auto simp: word_uint_eq_iff)

lemma find_section_loop_first:
  assumes "m null_lit \<noteq> 0"
    and "\<And>j. i \<le> j \<Longrightarrow> j < i + left \<Longrightarrow> \<exists>n < fuel. cstr m (sh_str + ucast (sh_name (read_shdr m (shdr_at shdr j)))) n"
  shows "find_section_loop fuel m null_lit sh_str shdr name left i =
    Inr (case filter (\<lambda>j. str_eq m (sh_str + ucast (sh_name (read_shdr m (shdr_at shdr j)))) name) [i..<i + left]
         of [] \<Rightarrow> nullptr | j # _ \<Rightarrow> shdr_at shdr j)"
  using assms(2)
proof (induction left arbitrary: i)
  case (Suc left)
  obtain n where n: "n < fuel" "cstr m (sh_str + ucast (sh_name (read_shdr m (shdr_at shdr i)))) n"
    using Suc.prems [of i] by auto
  have IH: "find_section_loop fuel m null_lit sh_str shdr name left (Suc i) =
    Inr (case filter (\<lambda>j. str_eq m (sh_str + ucast (sh_name (read_shdr m (shdr_at shdr j)))) name) [Suc i..<Suc i + left]
         of [] \<Rightarrow> nullptr | j # _ \<Rightarrow> shdr_at shdr j)"
    by (rule Suc.IH) (use Suc.prems in simp)
  obtain c where c: "strcmp fuel m (sh_str + ucast (sh_name (read_shdr m (shdr_at shdr i)))) name = Inr c"
    "c = 0 \<longleftrightarrow> str_eq m (sh_str + ucast (sh_name (read_shdr m (shdr_at shdr i)))) name"
    using strcmp_str_eq [OF n(2,1)] by blast
  have "[i..<i + Suc left] = i # [Suc i..<Suc i + left]" by (simp add: upt_conv_Cons)
  moreover have "0 < fuel" using n(1) by simp
  ultimately show ?case
    using IH c null_check_fails [where m = m and null_lit = null_lit and fuel = fuel and name = name] assms(1) by (simp del: upt_Suc)
qed simp

text \<open>
  \<open>find_section\<close> returns the header of the first section whose name is the given string, and
  null if there is none. (Its test for the name \<open>.null\<close> never succeeds, since it asks for a
  string that is both empty and equal to \<open>.null\<close>.)
\<close>

theorem find_section_first:
  assumes "m null_lit \<noteq> 0"
    and "\<forall>i < unat (e_shnum (read_ehdr m (cx_img ctx))). \<exists>n < fuel. cstr m (section_name pt m ctx i) n"
  shows "find_section pt fuel m null_lit ctx name =
    Inr (case filter (\<lambda>i. str_eq m (section_name pt m ctx i) name) [0..<unat (e_shnum (read_ehdr m (cx_img ctx)))]
         of [] \<Rightarrow> nullptr | i # _ \<Rightarrow> shdr_at (cx_shdr ctx) i)"
  using find_section_loop_first [where m = m and null_lit = null_lit and i = 0 and fuel = fuel and name = name and
      left = "unat (e_shnum (read_ehdr m (cx_img ctx)))" and shdr = "cx_shdr ctx" and
      sh_str = "read_section64 pt m (cx_img ctx) (cx_shdr ctx) (e_shstrndx (read_ehdr m (cx_img ctx)))"] assms
  by (simp add: find_section_def Let_def section_name_def)

section \<open>Symbol lookup\<close>

lemma best_symbol_ge: "v0 \<le> snd (best_symbol m addr ss s0 v0)"
proof (induction ss arbitrary: s0 v0)
  case (Cons a ss)
  show ?case
    using Cons.IH [of v0 s0] Cons.IH [of "st_value (read_sym m a)" a] by (auto intro: order.trans less_imp_le)
qed simp

lemma best_symbol_max:
  "s \<in> set ss \<Longrightarrow> st_value (read_sym m s) \<le> addr \<Longrightarrow> st_value (read_sym m s) \<le> snd (best_symbol m addr ss s0 v0)"
proof (induction ss arbitrary: s0 v0)
  case (Cons a ss)
  show ?case
  proof (cases "s = a")
    case True
    then show ?thesis
      using best_symbol_ge [of v0 m addr ss s0] best_symbol_ge [of "st_value (read_sym m a)" m addr ss a] Cons.prems(2)
      by (auto simp: not_less intro: order.trans)
  qed (use Cons in auto)
qed simp

lemma best_symbol_hit:
  "let (s', v') = best_symbol m addr ss s0 v0
   in (s' = s0 \<and> v' = v0) \<or> (s' \<in> set ss \<and> st_value (read_sym m s') = v' \<and> v' \<le> addr \<and> v0 < v')"
proof (induction ss arbitrary: s0 v0)
  case (Cons a ss)
  show ?case
    using Cons.IH [of s0 v0] Cons.IH [of a "st_value (read_sym m a)"]
    by (auto simp: Let_def split: prod.splits if_splits intro: order.strict_trans)
qed simp

text \<open>
  C31. The symbol lookups, for a symbol table none of whose entries is at address 0. When the section
  \<open>.symtab\<close> was found, \<open>get_symbol_addr\<close> returns the highest symbol value that does not exceed the
  address (0 if there is none), and \<open>get_symbol_name\<close> the name of a symbol with that value, or null
  if there is none. When there is such a symbol but \<open>.strtab\<close> was not found, \<open>get_symbol_name\<close>
  dereferences null, and without \<open>.symtab\<close> both do.
\<close>

theorem symbol_lookup:
  assumes "\<forall>i < num_syms m ctx. sym_at pt m ctx i \<noteq> nullptr"
  shows "if cx_symtab ctx = nullptr
    then get_symbol_addr pt m ctx addr = Inl NullDeref \<and> get_symbol_name pt m ctx addr = Inl NullDeref
    else \<exists>v. get_symbol_addr pt m ctx addr = Inr v \<and>
      (\<forall>i < num_syms m ctx. st_value (read_sym m (sym_at pt m ctx i)) \<le> addr \<longrightarrow>
         st_value (read_sym m (sym_at pt m ctx i)) \<le> v) \<and>
      (if v = 0 then get_symbol_name pt m ctx addr = Inr nullptr
       else \<exists>i < num_syms m ctx. st_value (read_sym m (sym_at pt m ctx i)) = v \<and> v \<le> addr \<and>
         get_symbol_name pt m ctx addr =
           (if cx_strtab ctx = nullptr then Inl NullDeref
            else Inr (pt (sh_offset (read_shdr m (cx_strtab ctx)) + cx_img ctx) +
                      ucast (st_name (read_sym m (sym_at pt m ctx i))))))"
proof (cases "cx_symtab ctx = nullptr")
  case False
  obtain s' v' where b: "best_symbol m addr (map (sym_at pt m ctx) [0..<num_syms m ctx]) nullptr 0 = (s', v')"
    by fastforce
  have spec: "s' = nullptr \<and> v' = 0 \<or> s' \<in> set (map (sym_at pt m ctx) [0..<num_syms m ctx]) \<and>
      st_value (read_sym m s') = v' \<and> v' \<le> addr \<and> 0 < v'"
    using best_symbol_hit [of m addr "map (sym_at pt m ctx) [0..<num_syms m ctx]" nullptr 0] by (simp add: b)
  have max: "\<forall>i < num_syms m ctx. st_value (read_sym m (sym_at pt m ctx i)) \<le> addr \<longrightarrow>
      st_value (read_sym m (sym_at pt m ctx i)) \<le> v'"
    using best_symbol_max [of _ "map (sym_at pt m ctx) [0..<num_syms m ctx]" m addr nullptr 0] by (simp add: b)
  have addr: "get_symbol_addr pt m ctx addr = Inr v'" using False b by (simp add: get_symbol_addr_def)
  show ?thesis
  proof (cases "v' = 0")
    case True
    then have "s' = nullptr" using spec by auto
    then show ?thesis using False True addr max b by (simp add: get_symbol_name_def)
  next
    case nz: False
    then obtain i where i: "i < num_syms m ctx" "s' = sym_at pt m ctx i" "st_value (read_sym m s') = v'" "v' \<le> addr"
      using spec by auto
    then have "get_symbol_name pt m ctx addr = (if cx_strtab ctx = nullptr then Inl NullDeref
        else Inr (pt (sh_offset (read_shdr m (cx_strtab ctx)) + cx_img ctx) + ucast (st_name (read_sym m s'))))"
      using False b assms by (simp add: get_symbol_name_def guardE_def)
    then show ?thesis using False nz addr max i by auto
  qed
qed (simp add: get_symbol_addr_def get_symbol_name_def)

text \<open>An image at 0x1000 with one section, whose header is at 0x2000 and whose contents are at 0x3000.\<close>

definition example_elf :: mem where
  "example_elf = (\<lambda>_. 0)(0x1000 := 0x7F, 0x1001 := 0x45, 0x1002 := 0x4C, 0x1003 := 0x46, 0x1004 := 1,
     0x103C := 1, 0x2019 := 0x20, 0x2020 := 24, 0x3000 := 0x61, 0x3008 := 5, 0x4000 := 0x61, 0x5000 := 0x2E)"

definition example_context :: elf_context where
  "example_context = \<lparr>cx_img = 0x1000, cx_shdr = 0x2000, cx_phdr = 0, cx_symtab = 0x2000, cx_strtab = 0x6000,
     cx_is_64bits = True\<rparr>"

theorem find_section_first_witness:
  "find_section id 2 example_elf 0x5000 example_context 0x4000 = Inr 0x2000"
proof -
  have n: "unat (e_shnum (read_ehdr example_elf (cx_img example_context))) = 1" by code_simp
  have name: "section_name id example_elf example_context 0 = 0x3000" by code_simp
  have "cstr example_elf 0x3000 1" "\<forall>i \<le> 1. example_elf (0x3000 + of_nat i) = example_elf (0x4000 + of_nat i)"
    by (auto simp: cstr_def example_elf_def le_Suc_eq)
  then have "str_eq example_elf 0x3000 0x4000" "\<exists>n < 2. cstr example_elf 0x3000 n"
    by (auto simp: str_eq_def intro: exI [of _ 1])
  moreover have "example_elf 0x5000 \<noteq> 0" "shdr_at (cx_shdr example_context) 0 = 0x2000" by code_simp+
  ultimately show ?thesis
    using find_section_first [where pt = id and m = example_elf and null_lit = "0x5000" and fuel = 2 and ctx = example_context
        and name = "0x4000"] by (simp add: n name)
qed

theorem symbol_lookup_witness:
  "\<exists>v name. get_symbol_addr id example_elf example_context 10 = Inr v \<and>
     get_symbol_name id example_elf example_context 10 = Inr name \<and> 5 \<le> v \<and>
     get_symbol_name id example_elf (example_context\<lparr>cx_strtab := nullptr\<rparr>) 10 = Inl NullDeref"
proof -
  have n: "num_syms example_elf example_context = 1" by code_simp
  have s: "sym_at id example_elf example_context 0 = 0x3000" by code_simp
  have v: "st_value (read_sym example_elf 0x3000) = 5" by code_simp
  have c: "cx_symtab example_context \<noteq> nullptr" "cx_strtab example_context \<noteq> nullptr" by code_simp+
  have n': "num_syms example_elf (example_context\<lparr>cx_strtab := nullptr\<rparr>) = 1"
    "sym_at id example_elf (example_context\<lparr>cx_strtab := nullptr\<rparr>) 0 = 0x3000" by code_simp+
  show ?thesis
    using symbol_lookup [of example_elf example_context id 10]
      symbol_lookup [of example_elf "example_context\<lparr>cx_strtab := nullptr\<rparr>" id 10] c by (auto simp: n n' s v split: if_splits)
qed

text \<open>
  \<open>elf::Context::load\<close> rejects an image without the ELF magic or with an unknown class as
  \<open>INVALID\<close>, a 32-bit image as \<open>NOT_IMPLEMENTED\<close>, and leaves the pointers of the context alone in
  these cases; a 64-bit image with terminated section names is accepted with \<open>OK\<close>, with the
  tables at the offsets the header gives and the symbol and string tables found by name.
\<close>

theorem elf_load_outcomes:
  "(\<not> is_valid_elf m img \<or> m (img + EI_CLASS) \<notin> {1, 2} \<longrightarrow> elf_load pt fuel m lits ctx img = Inr (ctx, INVALID)) \<and>
   (is_valid_elf m img \<and> m (img + EI_CLASS) = 1 \<longrightarrow>
      elf_load pt fuel m lits ctx img = Inr (ctx\<lparr>cx_is_64bits := False\<rparr>, NOT_IMPLEMENTED)) \<and>
   (is_valid_elf m img \<and> m (img + EI_CLASS) = 2 \<and> m (lit_null lits) \<noteq> 0 \<and>
      (\<forall>i < unat (e_shnum (read_ehdr m img)). \<exists>n < fuel.
         cstr m (section_name pt m (ctx\<lparr>cx_img := img, cx_shdr := pt (img + e_shoff (read_ehdr m img))\<rparr>) i) n) \<longrightarrow>
    (\<exists>ctx'. elf_load pt fuel m lits ctx img = Inr (ctx', OK) \<and> cx_is_64bits ctx' \<and> cx_img ctx' = img \<and>
       cx_shdr ctx' = pt (img + e_shoff (read_ehdr m img)) \<and> cx_phdr ctx' = pt (img + e_phoff (read_ehdr m img)) \<and>
       find_section pt fuel m (lit_null lits) ctx' (lit_symtab lits) = Inr (cx_symtab ctx') \<and>
       find_section pt fuel m (lit_null lits) ctx' (lit_strtab lits) = Inr (cx_strtab ctx')))"
proof -
  have fs: "find_section pt fuel m l c name = find_section pt fuel m l c' name"
    if "cx_img c = cx_img c'" "cx_shdr c = cx_shdr c'" for l c c' name
    using that by (simp add: find_section_def)
  have total: "\<exists>r. find_section pt fuel m (lit_null lits) c name = Inr r"
    if "m (lit_null lits) \<noteq> 0" "cx_img c = img"
      "\<forall>i < unat (e_shnum (read_ehdr m img)). \<exists>n < fuel. cstr m (section_name pt m c i) n" for c name
    using find_section_loop_first [where m = m and null_lit = "lit_null lits" and i = 0 and fuel = fuel and name = name and
      left = "unat (e_shnum (read_ehdr m (cx_img c)))" and shdr = "cx_shdr c" and
      sh_str = "read_section64 pt m (cx_img c) (cx_shdr c) (e_shstrndx (read_ehdr m (cx_img c)))"] that
    by (simp add: find_section_def Let_def section_name_def)
  show ?thesis
  proof (intro conjI impI)
    assume a: "is_valid_elf m img \<and> m (img + EI_CLASS) = 2 \<and> m (lit_null lits) \<noteq> 0 \<and>
      (\<forall>i < unat (e_shnum (read_ehdr m img)). \<exists>n < fuel.
         cstr m (section_name pt m (ctx\<lparr>cx_img := img, cx_shdr := pt (img + e_shoff (read_ehdr m img))\<rparr>) i) n)"
    define c where "c = ctx\<lparr>cx_is_64bits := True, cx_img := img, cx_shdr := pt (img + e_shoff (read_ehdr m img)),
      cx_phdr := pt (img + e_phoff (read_ehdr m img))\<rparr>"
    have names: "\<forall>i < unat (e_shnum (read_ehdr m img)). \<exists>n < fuel. cstr m (section_name pt m c i) n"
      using a by (simp add: section_name_def c_def)
    have img: "cx_img c = img" by (simp add: c_def)
    obtain r1 r2 where r: "find_section pt fuel m (lit_null lits) c (lit_symtab lits) = Inr r1"
      "find_section pt fuel m (lit_null lits) c (lit_strtab lits) = Inr r2"
      using total [OF _ img names] a by blast
    define c' where "c' = c\<lparr>cx_symtab := r1, cx_strtab := r2\<rparr>"
    have "find_section pt fuel m (lit_null lits) (c\<lparr>cx_symtab := r1\<rparr>) (lit_strtab lits) = Inr r2"
      using r(2) fs [of "c\<lparr>cx_symtab := r1\<rparr>" c] by simp
    then have "elf_load pt fuel m lits ctx img = Inr (c', OK)"
      using a r(1) by (simp add: elf_load_def load64_def Let_def c_def c'_def)
    moreover have "find_section pt fuel m (lit_null lits) c' name = find_section pt fuel m (lit_null lits) c name" for name
      by (rule fs) (simp_all add: c'_def)
    ultimately show "\<exists>ctx'. elf_load pt fuel m lits ctx img = Inr (ctx', OK) \<and> cx_is_64bits ctx' \<and> cx_img ctx' = img \<and>
       cx_shdr ctx' = pt (img + e_shoff (read_ehdr m img)) \<and> cx_phdr ctx' = pt (img + e_phoff (read_ehdr m img)) \<and>
       find_section pt fuel m (lit_null lits) ctx' (lit_symtab lits) = Inr (cx_symtab ctx') \<and>
       find_section pt fuel m (lit_null lits) ctx' (lit_strtab lits) = Inr (cx_strtab ctx')"
      using r by (intro exI [of _ c']) (simp add: c'_def c_def)
  qed (auto simp: elf_load_def load32_def)
qed

theorem elf_load_outcomes_witness:
  "elf_load id 2 example_elf \<lparr>lit_null = 0x5000, lit_symtab = 0x4000, lit_strtab = 0x4000\<rparr> example_context 0x1000 =
     Inr (example_context\<lparr>cx_is_64bits := False\<rparr>, NOT_IMPLEMENTED)"
proof -
  have "is_valid_elf example_elf 0x1000" "example_elf (0x1000 + EI_CLASS) = 1" by code_simp+
  then show ?thesis
    using elf_load_outcomes [where pt = id and m = example_elf and img = "0x1000" and fuel = 2 and ctx = example_context
        and lits = "\<lparr>lit_null = 0x5000, lit_symtab = 0x4000, lit_strtab = 0x4000\<rparr>"] by simp
qed

end
