(* ===== verification/Loader_Main.thy ===== *)
theory Loader_Main
  imports Loader_Paging Lib_Elf
begin

text \<open>
  \<open>main\<close> of \<open>loader/x86-64-multiboot2/main.cc\<close>: finding the kernel module and the memory map,
  setting up the page tables, loading the segments of the kernel, mapping the page frame
  database at its kernel address, relocating its lists, and the \<open>LoaderState\<close> of
  \<open>core/include/loaderabi.h\<close> that is handed to the kernel.

  Its output is added in \<open>Loader_Entry\<close>, the switch to long mode in \<open>Loader_Switch\<close>. The bytes of physical memory
  (for the command line, the ELF image and the copies of segments) are kept beside the loader
  state, whose memory holds page table words only; the boot information is read through its
  own view of 32-bit words. The address of the literal \<open>"cxkernel"\<close> is an argument.
\<close>

section \<open>The kernel's part of the address space\<close>

definition kernel_pml4_idx :: u16 where
  "kernel_pml4_idx = pml4e_index 0xFFFF800000000000"

definition kernel_base :: vaddr_t where
  "kernel_base = virt_from_index kernel_pml4_idx 0 0 0"

definition kernel_limit :: vaddr_t where
  "kernel_limit = virt_from_index (kernel_pml4_idx + 1) 0 0 0"

definition kernel_stack_limit :: vaddr_t where
  "kernel_stack_limit = kernel_limit - page_size64"

definition kernel_stack_base :: vaddr_t where
  "kernel_stack_base = kernel_stack_limit + page_size64 - 8"

definition kernel_pfndb_base :: vaddr_t where
  "kernel_pfndb_base = virt_from_index (kernel_pml4_idx + 2) 0 0 0"

definition kernel_slab_base :: vaddr_t where
  "kernel_slab_base = virt_from_index (kernel_pml4_idx + 3) 0 0 0"

section \<open>Mapping\<close>

text \<open>The loops that map consecutive pages: the identity map, a segment in place, the database.\<close>

fun map_each ::
  "('s \<Rightarrow> paddr_t \<Rightarrow> vaddr_t \<Rightarrow> u64 \<Rightarrow> 's exec) \<Rightarrow> nat \<Rightarrow> 's \<Rightarrow> paddr_t \<Rightarrow> vaddr_t \<Rightarrow> u64 \<Rightarrow> 's exec" where
  "map_each mapper 0 s phys virt flags = Inr s"
| "map_each mapper (Suc k) s phys virt flags =
     bindE (mapper s phys virt flags) (\<lambda>s. map_each mapper k s (phys + page_size64) (virt + page_size64) flags)"

definition map_range :: "nat \<Rightarrow> loader \<Rightarrow> paddr_t \<Rightarrow> vaddr_t \<Rightarrow> u64 \<Rightarrow> loader exec" where
  "map_range = map_each map_page"

text \<open>\<open>page_flags{.f{.writable = 1, .user = 0}}\<close>\<close>

definition flags_rw :: u64 where
  "flags_rw = 2"

text \<open>
  A segment whose file and memory sizes differ: \<open>left\<close> pages from offset \<open>i\<close> on, each
  allocated (and cleared), mapped, and filled from the file.
\<close>

fun load_pages ::
  "nat \<Rightarrow> loader \<Rightarrow> mem \<Rightarrow> u64 \<Rightarrow> paddr_t \<Rightarrow> vaddr_t \<Rightarrow> u64 \<Rightarrow> u64 \<Rightarrow> (loader \<times> mem) exec" where
  "load_pages 0 s m i p v sz flags = Inr (s, m)"
| "load_pages (Suc left) s m i p v sz flags =
     bindE (pmm_alloc_page s) (\<lambda>(s, page).
     let m = fst (memset m (as_ptr page) 0 page_size64) in
     bindE (map_page s page (v + i) flags) (\<lambda>s.
     let m = (if i < sz then fst (memcpy m (as_ptr page) (as_ptr (as_ptr p + i)) page_size64) else m)
     in load_pages left s m (i + page_size64) p v sz flags))"

definition pages_in :: "u64 \<Rightarrow> nat" where
  "pages_in bytes = unat (page_align_up bytes div page_size64)"

text \<open>
  The number of steps of a loop \<open>for (i = 0; i < bytes; i += page_size)\<close>. Above \<open>2^64 - 4096\<close> the
  64-bit counter wraps to \<open>0\<close> after them and the loop starts again.
\<close>

definition pages_below :: "u64 \<Rightarrow> nat" where
  "pages_below bytes = (unat bytes + 4095) div 4096"

definition load_segment :: "loader \<Rightarrow> mem \<Rightarrow> vaddr_t \<Rightarrow> elf64_phdr \<Rightarrow> (loader \<times> mem) exec" where
  "load_segment s m img ph =
     (if p_type ph \<noteq> PT_LOAD then Inr (s, m)
      else guardE (p_align ph = page_size64) AssertFailed
       (guardE (kernel_base \<le> p_vaddr ph) AssertFailed
        (guardE (p_vaddr ph + p_memsz ph < kernel_limit) AssertFailed
         (let v = p_vaddr ph; p = img + p_offset ph in
          if p_filesz ph \<noteq> p_memsz ph
          then load_pages (pages_in (p_memsz ph)) s m 0 p v (as_ptr (ebl_max (p_filesz ph) (p_memsz ph))) flags_rw
          else bindE (map_range (pages_below (p_memsz ph)) s p v flags_rw)
                 (\<lambda>s. guardE (p_memsz ph \<le> - page_size64) OutOfFuel (Inr (s, m)))))))"

fun load_segments :: "loader \<Rightarrow> mem \<Rightarrow> vaddr_t \<Rightarrow> vaddr_t list \<Rightarrow> (loader \<times> mem) exec" where
  "load_segments s m img [] = Inr (s, m)"
| "load_segments s m img (ph # phs) =
     bindE (load_segment s m img (read_phdr m ph)) (\<lambda>(s, m). load_segments s m img phs)"

section \<open>Relocating the page frame database\<close>

text \<open>The loop of \<open>shift\<close> calls: \<open>left\<close> pages from page \<open>i\<close> on.\<close>

fun shift_pages :: "nat \<Rightarrow> u64 \<Rightarrow> list_heap \<Rightarrow> vaddr_t \<Rightarrow> vaddr_t \<Rightarrow> list_heap" where
  "shift_pages 0 i h arr offset = h"
| "shift_pages (Suc left) i h arr offset =
     shift_pages left (i + 1) (node_shift h (page_at arr i) offset) arr offset"

record loader_state =
  ls_magic_start :: u32
  ls_kernel_elf :: vaddr_t
  ls_rsrvlist :: vaddr_t
  ls_freelist :: vaddr_t
  ls_total :: paddr_t
  ls_arr :: vaddr_t
  ls_kernel_base :: vaddr_t
  ls_kernel_limit :: vaddr_t
  ls_kernel_stack_base :: vaddr_t
  ls_kernel_stack_limit :: vaddr_t
  ls_kernel_pfndb_base :: vaddr_t
  ls_kernel_slab_base :: vaddr_t
  ls_magic_end :: u32

definition LOADER_ABI_MAGIC_START :: u32 where
  "LOADER_ABI_MAGIC_START = 0xCAFEB0BA"

definition LOADER_ABI_MAGIC_END :: u32 where
  "LOADER_ABI_MAGIC_END = 0xBADBEEEF"

text \<open>The end of \<open>main\<close>: the shifted lists and the state for the kernel.\<close>

definition hand_over :: "pmm \<Rightarrow> vaddr_t \<Rightarrow> list_heap \<times> loader_state" where
  "hand_over p module_start =
     (let offset = kernel_pfndb_base - pm_arr p;
          h = shift_pages (unat (pm_total p)) 0 (pm_links p) (pm_arr p) offset
      in (h, \<lparr>ls_magic_start = LOADER_ABI_MAGIC_START, ls_kernel_elf = module_start,
              ls_rsrvlist = list_shift (pm_rsrv p) offset, ls_freelist = list_shift (pm_free p) offset,
              ls_total = pm_total p, ls_arr = pm_arr p, ls_kernel_base = kernel_base,
              ls_kernel_limit = kernel_limit, ls_kernel_stack_base = kernel_stack_base,
              ls_kernel_stack_limit = kernel_stack_limit, ls_kernel_pfndb_base = kernel_pfndb_base,
              ls_kernel_slab_base = kernel_slab_base, ls_magic_end = LOADER_ABI_MAGIC_END\<rparr>))"

section \<open>The whole loader\<close>

definition MULTIBOOT2_BOOTLOADER_MAGIC :: u32 where
  "MULTIBOOT2_BOOTLOADER_MAGIC = 0x36d76289"

record handoff =
  ho_loader :: loader
  ho_mem :: mem
  ho_links :: list_heap
  ho_state :: loader_state
  ho_pml4 :: u64
  ho_entry :: u64

definition load_kernel ::
  "nat \<Rightarrow> loader \<Rightarrow> mem \<Rightarrow> literals \<Rightarrow> vaddr_t \<Rightarrow> (loader \<times> mem \<times> elf_context) exec" where
  "load_kernel fuel s m lits module_start =
     bindE (elf_load as_ptr fuel m lits \<lparr>cx_img = 0, cx_shdr = 0, cx_phdr = 0, cx_symtab = 0, cx_strtab = 0,
              cx_is_64bits = False\<rparr> module_start) (\<lambda>(ctx, ec).
     guardE (ec = OK) AssertFailed
     (guardE (cx_is_64bits ctx) AssertFailed
      (bindE (load_segments s m (cx_img ctx) (get_phdrs m ctx)) (\<lambda>(s, m). Inr (s, m, ctx)))))"

text \<open>\<open>main\<close> from the page tables to the hand-over, and all of it without its output.\<close>

definition start_kernel :: "nat \<Rightarrow> mem \<Rightarrow> literals \<Rightarrow> vaddr_t \<Rightarrow> loader \<Rightarrow> handoff exec" where
  "start_kernel fuel m lits module_start s =
     bindE (setup_paging s) (\<lambda>(s, pml4).
     bindE (map_range 512 s 0 0 flags_rw) (\<lambda>s.
     bindE (load_kernel fuel s m lits module_start) (\<lambda>(s, m, ctx).
     bindE (pmm_alloc_page s) (\<lambda>(s, stack).
     bindE (map_page s stack kernel_stack_limit flags_rw) (\<lambda>s.
     bindE (map_range (unat (ld_sz_pgs s)) s (pm_arr (ld_pmm s)) kernel_pfndb_base flags_rw) (\<lambda>s.
     let (links, st) = hand_over (ld_pmm s) module_start
     in Inr \<lparr>ho_loader = s, ho_mem = m, ho_links = links, ho_state = st, ho_pml4 = pml4,
             ho_entry = e_entry (read_ehdr m (cx_img ctx))\<rparr>))))))"

definition module_range :: "boot_info \<Rightarrow> u32 \<Rightarrow> range" where
  "module_range b module = \<lparr>rg_begin = ucast (mod_start b module), rg_end = ucast (mod_end b module - 1)\<rparr>"

definition loader_main ::
  "nat \<Rightarrow> boot_info \<Rightarrow> mem \<Rightarrow> literals \<Rightarrow> vaddr_t \<Rightarrow> loader \<Rightarrow> u32 \<Rightarrow> u32 \<Rightarrow> handoff exec" where
  "loader_main fuel b m lits cxkernel s sig ptr =
     guardE (sig = MULTIBOOT2_BOOTLOADER_MAGIC) AssertFailed
     (bindE (find_module fuel b ptr (\<lambda>cmdline. strcmp fuel m (ucast cmdline) cxkernel)) (\<lambda>module.
      bindE (find_mmap fuel b ptr) (\<lambda>mmap.
      bindE (bootstrap_pmm fuel b s (module_range b module) mmap)
        (start_kernel fuel m lits (ucast (mod_start b module))))))"

section \<open>Mapping consecutive pages\<close>

definition nth_page :: "u64 \<Rightarrow> nat \<Rightarrow> u64" where
  "nth_page a j = a + of_nat j * page_size64"

lemma nth_page_0 [simp]: "nth_page a 0 = a"
  by (simp add: nth_page_def)

lemma nth_page_Suc: "nth_page (a + page_size64) j = nth_page a (Suc j)"
  by (simp add: nth_page_def algebra_simps)

lemma nth_page_aligned:
  assumes "a mod page_size64 = 0"
  shows "nth_page a j mod page_size64 = 0"
proof (induction j)
  case (Suc j)
  have "take_bit 12 (nth_page a j - (- 4096)) = 0"
    by (rule aligned_diff) (use Suc in \<open>simp_all add: take_bit_eq_mod\<close>)
  moreover have "nth_page a j - (- 4096) = nth_page a (Suc j)" by (simp add: nth_page_def algebra_simps)
  ultimately show ?case by (simp add: take_bit_eq_mod)
qed (use assms in simp)

text \<open>
  What the loops rely on: an operation that maps one page. \<open>inv s fs\<close> is the invariant with the
  list \<open>fs\<close> of free pages, and \<open>trans\<close> the address translation. One call takes at most three pages
  from the front of the free list and adds one page to the translation.
\<close>

locale page_mapper =
  fixes mapper :: "'s \<Rightarrow> paddr_t \<Rightarrow> vaddr_t \<Rightarrow> u64 \<Rightarrow> 's exec"
    and inv :: "'s \<Rightarrow> vaddr_t list \<Rightarrow> bool"
    and trans :: "'s \<Rightarrow> vaddr_t \<Rightarrow> paddr_t option"
    and flags :: u64
  assumes maps_one: "inv s fs \<Longrightarrow> 3 \<le> length fs \<Longrightarrow> phys mod page_size64 = 0 \<Longrightarrow> take_bit 52 phys = phys \<Longrightarrow>
    virt mod page_size64 = 0 \<Longrightarrow> pml4e_index virt \<noteq> 511 \<Longrightarrow>
    \<exists>s' fs'. mapper s phys virt flags = Inr s' \<and> inv s' fs' \<and> suffix fs' fs \<and> length fs \<le> length fs' + 3 \<and>
      (\<forall>v. pml4e_index v \<noteq> 511 \<longrightarrow> trans s' v =
         (if indices v = indices virt \<and> trans s virt = None then Some (phys + take_bit 12 v) else trans s v))"
begin

lemma maps_each:
  assumes "inv s fs" and "3 * k \<le> length fs" and "phys mod page_size64 = 0" and "virt mod page_size64 = 0"
    and "\<forall>j < k. take_bit 52 (nth_page phys j) = nth_page phys j \<and> pml4e_index (nth_page virt j) \<noteq> 511"
    and "\<forall>i < k. \<forall>j < k. indices (nth_page virt i) = indices (nth_page virt j) \<longrightarrow> i = j"
    and "\<forall>j < k. trans s (nth_page virt j) = None"
  shows "\<exists>s' fs'. map_each mapper k s phys virt flags = Inr s' \<and> inv s' fs' \<and> suffix fs' fs \<and>
    length fs \<le> length fs' + 3 * k \<and>
    (\<forall>v. pml4e_index v \<noteq> 511 \<longrightarrow>
       (\<forall>j < k. indices v = indices (nth_page virt j) \<longrightarrow> trans s' v = Some (nth_page phys j + take_bit 12 v)) \<and>
       ((\<forall>j < k. indices v \<noteq> indices (nth_page virt j)) \<longrightarrow> trans s' v = trans s v))"
  using assms
proof (induction k arbitrary: s fs phys virt)
  case 0
  then show ?case by auto
next
  case (Suc k)
  have p0: "take_bit 52 phys = phys" "pml4e_index virt \<noteq> 511" "3 \<le> length fs" "trans s virt = None"
    using Suc.prems(2) Suc.prems(5) [rule_format, of 0] Suc.prems(7) [rule_format, of 0] by simp_all
  obtain s1 fs1 where s1: "mapper s phys virt flags = Inr s1" "inv s1 fs1" "length fs \<le> length fs1 + 3"
    "\<And>v. pml4e_index v \<noteq> 511 \<Longrightarrow> trans s1 v = (if indices v = indices virt then Some (phys + take_bit 12 v) else trans s v)"
    and suf1: "suffix fs1 fs"
    using maps_one [OF Suc.prems(1) p0(3) Suc.prems(3) p0(1) Suc.prems(4) p0(2)] p0(4) by auto
  have other: "indices (nth_page virt (Suc j)) \<noteq> indices virt" if "j < k" for j
    using Suc.prems(6) [rule_format, of "Suc j" 0] that by auto
  have inj: "i = j" if "i < k" "j < k" "indices (nth_page virt (Suc i)) = indices (nth_page virt (Suc j))" for i j
    using Suc.prems(6) [rule_format, of "Suc i" "Suc j"] that by simp
  have aligned: "(a + page_size64) mod page_size64 = 0" if "a mod page_size64 = 0" for a
    using nth_page_aligned [OF that, of 1] by (simp add: nth_page_def)
  have "\<exists>s' fs'. map_each mapper k s1 (phys + page_size64) (virt + page_size64) flags = Inr s' \<and> inv s' fs' \<and>
    suffix fs' fs1 \<and> length fs1 \<le> length fs' + 3 * k \<and>
    (\<forall>v. pml4e_index v \<noteq> 511 \<longrightarrow>
       (\<forall>j < k. indices v = indices (nth_page (virt + page_size64) j) \<longrightarrow>
          trans s' v = Some (nth_page (phys + page_size64) j + take_bit 12 v)) \<and>
       ((\<forall>j < k. indices v \<noteq> indices (nth_page (virt + page_size64) j)) \<longrightarrow> trans s' v = trans s1 v))"
    by (rule Suc.IH [OF s1(2) _ aligned [OF Suc.prems(3)] aligned [OF Suc.prems(4)]])
      (use Suc.prems(2,5,7) s1(3,4) other inj in \<open>auto simp: nth_page_Suc simp del: page_size64_eq\<close>)
  then obtain s' fs' where s': "map_each mapper k s1 (phys + page_size64) (virt + page_size64) flags = Inr s'"
    "inv s' fs'" "length fs1 \<le> length fs' + 3 * k"
    "\<And>v j. pml4e_index v \<noteq> 511 \<Longrightarrow> j < k \<Longrightarrow> indices v = indices (nth_page virt (Suc j)) \<Longrightarrow>
       trans s' v = Some (nth_page phys (Suc j) + take_bit 12 v)"
    "\<And>v. pml4e_index v \<noteq> 511 \<Longrightarrow> \<forall>j < k. indices v \<noteq> indices (nth_page virt (Suc j)) \<Longrightarrow> trans s' v = trans s1 v"
    and suf2: "suffix fs' fs1"
    unfolding nth_page_Suc by blast
  have "trans s' v = Some (nth_page phys j + take_bit 12 v)"
    if v: "pml4e_index v \<noteq> 511" and j: "j < Suc k" "indices v = indices (nth_page virt j)" for v j
  proof (cases j)
    case 0
    then have eq: "indices v = indices virt" using j(2) by simp
    then have "trans s' v = trans s1 v" using other by (intro s'(5) [OF v]) (simp add: eq_commute)
    then show ?thesis using s1(4) [OF v] eq 0 by simp
  next
    case (Suc i)
    then show ?thesis using s'(4) [OF v, of i] j by simp
  qed
  moreover have "trans s' v = trans s v"
    if v: "pml4e_index v \<noteq> 511" and ne: "\<forall>j < Suc k. indices v \<noteq> indices (nth_page virt j)" for v
  proof -
    have "trans s' v = trans s1 v" by (rule s'(5) [OF v]) (use ne in auto)
    then show ?thesis using s1(4) [OF v] ne [rule_format, of 0] by simp
  qed
  moreover have "suffix fs' fs" using suf1 suf2 by (rule suffix_order.trans [rotated])
  ultimately show ?case using s1(1,3) s'(1-3) by (intro exI [of _ s'] exI [of _ fs']) simp
qed

end

text \<open>The loader's \<open>map_page\<close> is such an operation, for every place of the database and of the PML4.\<close>

definition mapper_inv :: "nat \<Rightarrow> vaddr_t \<Rightarrow> paddr_t \<Rightarrow> loader \<Rightarrow> vaddr_t list \<Rightarrow> bool" where
  "mapper_inv n arr pml4 s fs \<longleftrightarrow>
     (\<exists>T rs. paging_inv s T n fs rs \<and> pm_arr (ld_pmm s) = arr \<and> ld_pml4 s = pml4)"

definition mapper_trans :: "loader \<Rightarrow> vaddr_t \<Rightarrow> paddr_t option" where
  "mapper_trans s v = translate (ld_mem s) (ld_pml4 s) v"

lemma flags_rw_ok: "flags_ok flags_rw"
  by (simp add: flags_ok_def flags_rw_def)

interpretation loader_mapper: page_mapper map_page "mapper_inv n arr pml4" mapper_trans flags_rw
proof
  fix s fs phys virt
  assume h: "mapper_inv n arr pml4 s fs" "3 \<le> length fs" "phys mod page_size64 = 0" "take_bit 52 phys = phys"
    "virt mod page_size64 = 0" "pml4e_index virt \<noteq> 511"
  then obtain T rs where inv: "paging_inv s T n fs rs" "pm_arr (ld_pmm s) = arr" "ld_pml4 s = pml4"
    unfolding mapper_inv_def by blast
  from map_page_step [OF inv(1) h(2) flags_rw_ok h(3-6)]
  show "\<exists>s' fs'. map_page s phys virt flags_rw = Inr s' \<and> mapper_inv n arr pml4 s' fs' \<and> suffix fs' fs \<and>
      length fs \<le> length fs' + 3 \<and>
      (\<forall>v. pml4e_index v \<noteq> 511 \<longrightarrow> mapper_trans s' v =
         (if indices v = indices virt \<and> mapper_trans s virt = None then Some (phys + take_bit 12 v) else mapper_trans s v))"
    unfolding mapper_inv_def mapper_trans_def using inv(2,3) by metis
qed

text \<open>
  The loops that map consecutive pages (the identity map, a segment in place, the page frame
  database) are correct: with three free pages for each page to map, \<open>k\<close> pages that have
  pairwise different table indices and are not mapped yet end up mapped to \<open>k\<close> consecutive
  physical pages, and all other translations stay as they were.
\<close>

lemma map_range_step:
  assumes "paging_inv s T n fs rs" and "3 * k \<le> length fs"
    and "phys mod page_size64 = 0" and "virt mod page_size64 = 0"
    and "\<forall>j < k. take_bit 52 (nth_page phys j) = nth_page phys j \<and> pml4e_index (nth_page virt j) \<noteq> 511"
    and "\<forall>i < k. \<forall>j < k. indices (nth_page virt i) = indices (nth_page virt j) \<longrightarrow> i = j"
    and "\<forall>j < k. translate (ld_mem s) (ld_pml4 s) (nth_page virt j) = None"
  shows "\<exists>s' T' fs' rs'. map_range k s phys virt flags_rw = Inr s' \<and> paging_inv s' T' n fs' rs' \<and>
    suffix fs' fs \<and> length fs \<le> length fs' + 3 * k \<and> ld_pml4 s' = ld_pml4 s \<and> pm_arr (ld_pmm s') = pm_arr (ld_pmm s) \<and>
    (\<forall>v. pml4e_index v \<noteq> 511 \<longrightarrow>
       (\<forall>j < k. indices v = indices (nth_page virt j) \<longrightarrow>
          translate (ld_mem s') (ld_pml4 s') v = Some (nth_page phys j + take_bit 12 v)) \<and>
       ((\<forall>j < k. indices v \<noteq> indices (nth_page virt j)) \<longrightarrow>
          translate (ld_mem s') (ld_pml4 s') v = translate (ld_mem s) (ld_pml4 s) v))"
proof -
  have "mapper_inv n (pm_arr (ld_pmm s)) (ld_pml4 s) s fs" using assms(1) unfolding mapper_inv_def by blast
  from loader_mapper.maps_each [OF this assms(2-6)] assms(7) show ?thesis
    unfolding mapper_inv_def mapper_trans_def map_range_def by blast
qed

section \<open>Addresses in one entry of the PML4\<close>

text \<open>Each part of the kernel's address space starts at a multiple of 512 GiB.\<close>

lemma indices_eq_iff: "indices u = indices v \<longleftrightarrow> (\<forall>n. 12 \<le> n \<and> n < 48 \<longrightarrow> bit u n = bit v n)"
proof
  assume "indices u = indices v"
  then have eq: "pml4e_index u = pml4e_index v" "pdpte_index u = pdpte_index v" "pde_index u = pde_index v"
    "pte_index u = pte_index v" by (simp_all add: indices_def)
  show "\<forall>n. 12 \<le> n \<and> n < 48 \<longrightarrow> bit u n = bit v n"
  proof (intro allI impI)
    fix n :: nat assume n: "12 \<le> n \<and> n < 48"
    consider "n < 21" | "21 \<le> n" "n < 30" | "30 \<le> n" "n < 39" | "39 \<le> n" by linarith
    then show "bit u n = bit v n"
    proof cases
      case 1
      then show ?thesis using n eq(4) bit_index(4) [of u "n - 12"] bit_index(4) [of v "n - 12"] by (simp add: less_diff_conv2)
    next
      case 2
      then show ?thesis using n eq(3) bit_index(3) [of u "n - 21"] bit_index(3) [of v "n - 21"] by (simp add: less_diff_conv2)
    next
      case 3
      then show ?thesis using n eq(2) bit_index(2) [of u "n - 30"] bit_index(2) [of v "n - 30"] by (simp add: less_diff_conv2)
    next
      case 4
      then show ?thesis using n eq(1) bit_index(1) [of u "n - 39"] bit_index(1) [of v "n - 39"] by (simp add: less_diff_conv2)
    qed
  qed
next
  assume "\<forall>n. 12 \<le> n \<and> n < 48 \<longrightarrow> bit u n = bit v n"
  then have eq: "bit u n = bit v n" if "12 \<le> n" "n < 48" for n using that by simp
  have "pml4e_index u = pml4e_index v" "pdpte_index u = pdpte_index v" "pde_index u = pde_index v"
    "pte_index u = pte_index v"
    by (rule bit_eqI, simp add: bit_index eq cong: conj_cong)+
  then show "indices u = indices v" by (simp add: indices_def)
qed

lemma bit_slot_addr:
  fixes base :: u64
  assumes base0: "take_bit 39 base = 0" and "a < 2 ^ 39" and "n < 64"
  shows "bit (base + of_nat a) n \<longleftrightarrow> (if n < 39 then bit a n else bit base n)"
proof -
  have small: "take_bit 39 a = a" using assms(2) by (simp add: take_bit_nat_eq_self)
  have a: "bit (of_nat a :: u64) n \<longleftrightarrow> n < 39 \<and> bit a n" if "n < 64" for n
  proof -
    have "bit a n \<longleftrightarrow> n < 39 \<and> bit a n" using small by (metis bit_take_bit_iff)
    then show ?thesis using that by (simp add: bit_of_nat_iff)
  qed
  have low: "\<not> bit base n" if "n < 39" for n
    using that base0 bit_take_bit_iff [of 39 base n] by simp
  have "base AND of_nat a = 0"
  proof (rule bit_eqI)
    fix n assume "possible_bit TYPE(u64) n"
    then show "bit (base AND of_nat a) n = bit 0 n"
      using a [of n] low [of n] by (auto simp: bit_and_iff)
  qed
  then have "base + of_nat a = base OR of_nat a" by (rule disjunctive_add_eq_or)
  then show ?thesis using a [OF assms(3)] low [of n] by (auto simp: bit_or_iff)
qed

lemma slot_pml4e:
  fixes base :: u64
  assumes "take_bit 39 base = 0" and "a < 2 ^ 39"
  shows "pml4e_index (base + of_nat a) = pml4e_index base"
  by (rule bit_eqI) (auto simp: bit_index bit_slot_addr [OF assms])

lemma slot_offset:
  fixes base :: u64
  assumes "take_bit 39 base = 0" and "a < 2 ^ 39"
  shows "take_bit 12 (base + of_nat a) = of_nat (a mod 4096)"
proof -
  have "take_bit 12 (base + of_nat a) = take_bit 12 (of_nat a :: u64)"
    by (intro bit_eqI) (simp add: bit_take_bit_iff bit_slot_addr [OF assms] bit_of_nat_iff cong: conj_cong)
  also have "\<dots> = of_nat (a mod 4096)" by (simp only: take_bit_of_nat) (simp add: take_bit_eq_mod)
  finally show ?thesis .
qed

lemma slot_indices:
  fixes base :: u64
  assumes "take_bit 39 base = 0" and "a < 2 ^ 39" and "b < 2 ^ 39"
  shows "indices (base + of_nat a) = indices (base + of_nat b) \<longleftrightarrow> a div 4096 = b div 4096"
proof -
  have big: "\<not> bit c n" if "c < 2 ^ 39" "39 \<le> n" for c n :: nat
    using that by (metis bit_take_bit_iff take_bit_nat_eq_self linorder_not_less)
  have "indices (base + of_nat a) = indices (base + of_nat b) \<longleftrightarrow>
      (\<forall>n. 12 \<le> n \<and> n < 39 \<longrightarrow> bit a n = bit b n)"
  proof -
    have "bit (base + of_nat a) n = bit (base + of_nat b) n \<longleftrightarrow> 39 \<le> n \<or> bit a n = bit b n"
      if "n < 48" for n
      using that bit_slot_addr [OF assms(1,2), of n] bit_slot_addr [OF assms(1,3), of n] by auto
    note this [simp]
    show ?thesis unfolding indices_eq_iff
    proof (rule iffI; intro allI impI)
      fix n :: nat assume "\<forall>n. 12 \<le> n \<and> n < 48 \<longrightarrow>
          bit (base + of_nat a) n = bit (base + of_nat b) n" and "12 \<le> n \<and> n < 39"
      then show "bit a n = bit b n" by (auto dest!: spec [of _ n])
    next
      fix n :: nat assume "\<forall>n. 12 \<le> n \<and> n < 39 \<longrightarrow> bit a n = bit b n" and "12 \<le> n \<and> n < 48"
      then show "bit (base + of_nat a) n = bit (base + of_nat b) n"
        by (cases "n < 39") simp_all
    qed
  qed
  also have "\<dots> \<longleftrightarrow> (\<forall>n. bit a (12 + n) = bit b (12 + n))"
    using big [OF assms(2)] big [OF assms(3)]
    by (metis le_add1 le_add_diff_inverse linorder_not_less)
  also have "\<dots> \<longleftrightarrow> drop_bit 12 a = drop_bit 12 b" by (simp add: bit_eq_iff bit_drop_bit_eq)
  finally show ?thesis by (simp add: drop_bit_eq_div)
qed

section \<open>The window of the kernel\<close>

lemma kernel_window: "kernel_base = 0xFFFF800000000000" "kernel_limit = 0xFFFF808000000000"
  "pml4e_index kernel_base \<noteq> 511"
  by code_simp+

lemma kernel_slot: "take_bit 39 kernel_base = 0"
  by (simp add: kernel_window)

lemma pages_below_bound: "j < pages_below sz \<longleftrightarrow> j * 4096 < unat sz"
  unfolding pages_below_def by linarith

lemma load_segment_guards:
  assumes "p_type ph = PT_LOAD" and "p_align ph = page_size64" and "p_filesz ph = p_memsz ph" and "kernel_base \<le> p_vaddr ph"
    and "unat (p_vaddr ph) + unat (p_memsz ph) < unat kernel_limit"
  shows "load_segment s m img ph =
    bindE (map_range (pages_below (p_memsz ph)) s (img + p_offset ph) (p_vaddr ph) flags_rw) (\<lambda>s. Inr (s, m))"
proof -
  have "unat (p_vaddr ph + p_memsz ph) = unat (p_vaddr ph) + unat (p_memsz ph)"
    using assms(5) by (simp add: unat_word_ariths kernel_window)
  then have lim: "p_vaddr ph + p_memsz ph < kernel_limit" using assms(5) by (simp add: word_less_nat_alt)
  have "unat (p_memsz ph) \<le> unat (- page_size64)" using assms(4,5) by (simp add: word_le_nat_alt kernel_window)
  then have "p_memsz ph \<le> - page_size64" by (simp only: word_le_nat_alt)
  then show ?thesis using assms(1-4) lim unfolding load_segment_def Let_def by (simp only: guardE_simps if_False simp_thms refl)
qed

end
