(* ===== verification/Loader_Load.thy ===== *)
theory Loader_Load
  imports Loader_Main
begin

text \<open>
  The loading of the kernel's ELF segments by \<open>main\<close> of \<open>loader/x86-64-multiboot2/main.cc\<close>: segments that
  are mapped in place, segments that are copied into new pages, and the loop over all program
  headers. The byte memory \<open>m\<close> holds the image and the pages that were allocated for segments;
  \<open>mapper_trans s\<close> is the address space under construction, and the list \<open>fs\<close> of free pages only
  loses pages at its front. A page that was taken is never written again by a later step, because
  later steps write only to pages that are still free.
\<close>

section \<open>Bytes of a page\<close>

text \<open>The bytes of an aligned page have the table indices of its start and the offsets 0 to 4095.\<close>

lemma page_byte:
  fixes u :: u64
  assumes "u mod page_size64 = 0" and "d < 4096"
  shows "indices (u + of_nat d) = indices u" and "take_bit 12 (u + of_nat d) = of_nat d"
    and "pml4e_index (u + of_nat d) = pml4e_index u"
proof -
  have low: "\<not> bit u n" if "n < 12" for n
    using assms(1) that bit_take_bit_iff [of 12 u n] by (simp add: take_bit_eq_mod)
  have d12: "take_bit 12 (of_nat d :: u64) = of_nat d"
    using assms(2) by (simp add: word_unat_eq_iff unsigned_take_bit_eq unat_of_nat take_bit_nat_eq_self)
  have high: "\<not> bit (of_nat d :: u64) n" if "12 \<le> n" for n
    by (metis d12 bit_take_bit_iff that linorder_not_less)
  have "u AND of_nat d = 0"
  proof (rule bit_eqI)
    fix n show "bit (u AND of_nat d) n = bit 0 n"
      using low [of n] high [of n] by (cases "n < 12") (auto simp: bit_and_iff)
  qed
  then have sum: "u + of_nat d = u OR of_nat d" by (rule disjunctive_add_eq_or)
  have b: "bit (u + of_nat d) n = (if n < 12 then bit (of_nat d :: u64) n else bit u n)" for n
    using low [of n] high [of n] by (auto simp: sum bit_or_iff)
  show "take_bit 12 (u + of_nat d) = of_nat d"
    by (rule bit_eqI) (use high in \<open>auto simp: bit_take_bit_iff b\<close>)
  show idx: "indices (u + of_nat d) = indices u" unfolding indices_eq_iff by (simp add: b)
  then show "pml4e_index (u + of_nat d) = pml4e_index u" by (simp add: indices_def)
qed

lemma table_addr_multiple:
  assumes "table_addr w"
  obtains i where "unat w = 4096 * i"
proof -
  have "unat w mod 4096 = 0" using assms by (simp add: table_addr_def take_bit_eq_mod word_unat_eq_iff unat_mod_distrib)
  then show thesis using that by (auto simp: mod_eq_0_iff_dvd elim: dvdE)
qed

text \<open>Two pages at multiples of 4096 that share a byte are equal.\<close>

lemma page_overlap:
  assumes "table_addr p" and "table_addr q" and "in_range p 4096 a" and "in_range q 4096 a"
  shows "p = q"
proof -
  obtain i j where ij: "unat p = 4096 * i" "unat q = 4096 * j" using table_addr_multiple assms(1,2) by metis
  then have "i < j + 1" "j < i + 1" using assms(3,4) unfolding in_range_def by linarith+
  then show ?thesis using ij by (simp add: word_unat_eq_iff)
qed

lemma table_addr_bound:
  assumes "table_addr p"
  shows "unat p + 4096 \<le> 2 ^ 32"
proof -
  have "take_bit 32 p = p" using assms by (simp add: table_addr_def)
  then have "unat p < 2 ^ 32" by (metis unsigned_take_bit_eq take_bit_nat_less_exp)
  moreover obtain i where "unat p = 4096 * i" using table_addr_multiple [OF assms] .
  ultimately have "i < 2 ^ 20" by simp
  then show ?thesis using \<open>unat p = 4096 * i\<close> by simp
qed

lemma in_range_offset:
  assumes "table_addr p" and "d < 4096"
  shows "in_range p 4096 (p + of_nat d)"
proof -
  have "unat (p + of_nat d) = unat p + d"
    using table_addr_bound [OF assms(1)] assms(2) by (simp add: unat_word_ariths unat_of_nat)
  then show ?thesis using assms(2) by (simp add: in_range_def)
qed

section \<open>Free pages\<close>

definition in_pages :: "loader \<Rightarrow> vaddr_t list \<Rightarrow> vaddr_t \<Rightarrow> bool" where
  "in_pages s fs a \<longleftrightarrow> (\<exists>x \<in> set fs. in_range (page_of s x) 4096 a)"

lemma in_pages_suffix: "suffix fs' fs \<Longrightarrow> in_pages s fs' a \<Longrightarrow> in_pages s fs a"
  unfolding in_pages_def by (meson set_mono_suffix subsetD)

lemma in_pages_cong: "page_of s' = page_of s \<Longrightarrow> in_pages s' = in_pages s"
  by (simp add: fun_eq_iff in_pages_def)

lemma mapper_page:
  assumes "mapper_inv n arr pml4 s fs" and "x \<in> set fs"
  shows "table_addr (page_of s x)" and "as_ptr (page_of s x) = page_of s x"
  using assms loader_page_addr [of s n fs _ x] unfolding mapper_inv_def paging_inv_def by auto

lemma mapper_arr: "mapper_inv n arr pml4 s fs \<Longrightarrow> pm_arr (ld_pmm s) = arr"
  by (auto simp: mapper_inv_def)

text \<open>The page at the front of the free list shares no byte with the pages behind it.\<close>

lemma front_page_apart:
  assumes "mapper_inv n arr pml4 s (f # fs)" and "in_range (page_of s f) 4096 a"
  shows "\<not> in_pages s fs a"
proof
  assume "in_pages s fs a"
  then obtain x where x: "x \<in> set fs" "in_range (page_of s x) 4096 a" by (auto simp: in_pages_def)
  then have "page_of s x = page_of s f"
    using page_overlap [OF _ _ x(2) assms(2)] mapper_page(1) [OF assms(1)] by simp
  moreover have "page_of s f \<notin> page_of s ` set fs"
    using assms(1) by (auto simp: mapper_inv_def paging_inv_def)
  ultimately show False using x(1) by (metis imageI)
qed

lemma tables_wf_agree:
  assumes "tables_wf m T" and "\<And>x i. is_table T x \<Longrightarrow> index_ok i \<Longrightarrow> m' (table_entry x i) = m (table_entry x i)"
  shows "tables_wf m' T"
proof -
  have slot: "m' (table_entry t i) = m (table_entry t i)" if "t \<in> T k" "usable j i" for t k i j
    by (rule assms(2)) (use that in \<open>auto simp: is_table_def usable_def\<close>)
  have entry: "walk_entry m' t i = walk_entry m t i" if "t \<in> T k" "usable j i" for t k i j
    using slot [OF that] by (simp add: walk_entry_slot)
  have "wf_edges m' T" unfolding wf_edges_def
    using tables_wfD(3) [OF assms(1)] slot entry by metis
  moreover have "wf_inject m' T" unfolding wf_inject_def
  proof (intro allI impI)
    fix k t t' i i' u
    assume h: "t \<in> T (Suc k)" "t' \<in> T (Suc k)" "0 < k" "usable (Suc k) i" "usable (Suc k) i'"
      "walk_entry m' t i = Some u" "walk_entry m' t' i' = Some u"
    then have "walk_entry m t i = Some u" "walk_entry m t' i' = Some u" using entry by metis+
    then show "t = t' \<and> i = i'" using tables_wfD(4) [OF assms(1) h(1-5)] by blast
  qed
  ultimately show ?thesis using assms(1) by (simp add: tables_wf_def)
qed

text \<open>\<open>pmm_alloc_page\<close> takes the first free page and changes no translation.\<close>

lemma mapper_alloc:
  assumes "mapper_inv n arr pml4 s (f # fs)"
  shows "\<exists>s'. pmm_alloc_page s = Inr (s', page_of s f) \<and> mapper_inv n arr pml4 s' fs \<and> page_of s' = page_of s \<and>
    (\<forall>v. pml4e_index v \<noteq> 511 \<longrightarrow> mapper_trans s' v = mapper_trans s v)"
proof -
  obtain T rs where inv: "paging_inv s T n (f # fs) rs" "pm_arr (ld_pmm s) = arr" "ld_pml4 s = pml4"
    using assms by (auto simp: mapper_inv_def)
  have linv: "loader_inv s n (f # fs) rs" and wf: "tables_wf (ld_mem s) T" and root: "ld_pml4 s \<in> T 4"
    and p: "\<not> is_table T (page_of s f)"
    using inv(1) by (simp_all add: paging_inv_def)
  obtain s' where s': "pmm_alloc_page s = Inr (s', page_of s f)" "loader_inv s' n fs (rs @ [f])"
    "ld_mem s' = (\<lambda>a. if in_area (page_of s f) page_size64 a then 0 else ld_mem s a)" "ld_pml4 s' = ld_pml4 s"
    "pm_arr (ld_pmm s') = pm_arr (ld_pmm s)" "page_of s' = page_of s"
    using pmm_alloc_page_takes [OF linv] by blast
  have addr: "table_addr (page_of s f)" by (rule loader_page_addr [OF linv]) simp
  have agree: "ld_mem s' (table_entry x i) = ld_mem s (table_entry x i)" if "is_table T x" "index_ok i" for x i
  proof -
    have "table_addr x" using tables_wfD(1) [OF wf] that(1) by (auto simp: is_table_def)
    moreover have "x \<noteq> page_of s f" using p that(1) by auto
    ultimately show ?thesis using in_area_slot [OF addr _ that(2), of x] by (simp add: s'(3) del: page_size64_eq)
  qed
  have "paging_inv s' T n fs (rs @ [f])"
    using inv(1) s'(2) tables_wf_agree [OF wf agree] root by (simp add: paging_inv_def s'(4,6))
  then have "mapper_inv n arr pml4 s' fs" using inv(2,3) s'(4,5) by (auto simp: mapper_inv_def)
  moreover have "mapper_trans s' v = mapper_trans s v" if "pml4e_index v \<noteq> 511" for v
    using walk_path_agree [OF wf agree root] path_ok_indices [OF that]
    by (simp add: mapper_trans_def translate_def s'(4))
  ultimately show ?thesis using s'(1,6) by blast
qed

text \<open>\<open>map_page\<close> of a page that is not mapped yet.\<close>

lemma mapper_map:
  assumes "mapper_inv n arr pml4 s fs" and "3 \<le> length fs" and "phys mod page_size64 = 0" and "take_bit 52 phys = phys"
    and "virt mod page_size64 = 0" and "pml4e_index virt \<noteq> 511" and "mapper_trans s virt = None"
  shows "\<exists>s' fs'. map_page s phys virt flags_rw = Inr s' \<and> mapper_inv n arr pml4 s' fs' \<and> suffix fs' fs \<and>
    length fs \<le> length fs' + 3 \<and>
    (\<forall>v. pml4e_index v \<noteq> 511 \<longrightarrow>
       mapper_trans s' v = (if indices v = indices virt then Some (phys + take_bit 12 v) else mapper_trans s v))"
  using loader_mapper.maps_one [OF assms(1-6)] assms(7) by auto

section \<open>Copying a page\<close>

lemma range_source:
  assumes "in_range p 4096 a" and "unat src + 4096 \<le> 2 ^ 64"
  shows "a - p + src = src + of_nat (unat a - unat p)" and "unat a - unat p < 4096"
proof -
  show "unat a - unat p < 4096" using assms(1) by (auto simp: in_range_def)
  have "unat (a - p) = unat a - unat p" using assms(1) by (intro unat_minus_no_wrap) (simp add: in_range_def)
  then have "a - p = of_nat (unat a - unat p)" by (metis of_nat_unat ucast_id)
  then show "a - p + src = src + of_nat (unat a - unat p)" by (metis add.commute)
qed

lemma ranges_apart:
  assumes "unat src + 4096 \<le> 2 ^ 64" and "\<forall>d < 4096. \<not> in_range p 4096 (src + of_nat d)"
  shows "unat p < unat src \<or> unat src + 4096 \<le> unat p"
proof -
  have u: "unat (src + of_nat d) = unat src + d" if "d < 4096" for d
    using assms(1) that by (simp add: unat_word_ariths unat_of_nat)
  have "\<not> in_range p 4096 (src + of_nat 0)" by (rule assms(2) [rule_format]) simp
  moreover have "\<not> in_range p 4096 (src + of_nat 4095)" by (rule assms(2) [rule_format]) simp
  ultimately show ?thesis using u [of 0] u [of 4095] unfolding in_range_def by linarith
qed

lemma fill_page:
  assumes "table_addr p" and "unat src + 4096 \<le> 2 ^ 32" and "\<forall>d < 4096. \<not> in_range p 4096 (src + of_nat d)"
  shows "fst (memcpy (fst (memset m p 0 page_size64)) p src page_size64) = copied m p src 4096"
proof -
  have src: "unat src + 4096 \<le> 2 ^ 64" and dst: "unat p + 4096 \<le> 2 ^ 64"
    using assms(2) table_addr_bound [OF assms(1)] by simp_all
  let ?m = "\<lambda>a. if in_range p 4096 a then 0 else m a"
  have "fst (memset m p 0 page_size64) = ?m" using fill_up_closed [OF dst, of m 0] by (simp add: memset_eq)
  moreover have "fst (memcpy ?m p src page_size64) = copied ?m p src 4096"
    using copy_up_copied [OF ranges_apart [OF src assms(3)] dst src, of ?m] by (simp add: memcpy_eq)
  moreover have "copied ?m p src 4096 a = copied m p src 4096 a" for a
  proof (cases "in_range p 4096 a")
    case True
    then show ?thesis unfolding copied_def range_source(1) [OF True src]
      using range_source(2) [OF True src] assms(3) by simp
  qed (simp add: copied_def)
  ultimately show ?thesis by auto
qed

lemma copied_outside: "\<not> in_range p 4096 a \<Longrightarrow> copied m p src 4096 a = m a"
  by (simp add: copied_def)

lemma copied_inside:
  assumes "table_addr p" and "unat src + 4096 \<le> 2 ^ 32" and "d < 4096"
  shows "copied m p src 4096 (p + of_nat d) = m (src + of_nat d)"
  using in_range_offset [OF assms(1,3)] by (simp add: copied_def add.commute)

section \<open>Pages with their contents\<close>

text \<open>The virtual page \<open>u\<close> is mapped to a page outside the free list that holds the bytes \<open>f\<close>.\<close>

definition page_holds :: "loader \<Rightarrow> mem \<Rightarrow> vaddr_t list \<Rightarrow> vaddr_t \<Rightarrow> (nat \<Rightarrow> u8) \<Rightarrow> bool" where
  "page_holds s m fs u f \<longleftrightarrow> (\<exists>q. \<forall>d < 4096. mapper_trans s (u + of_nat d) = Some (q + of_nat d) \<and>
     m (q + of_nat d) = f d \<and> \<not> in_pages s fs (q + of_nat d))"

text \<open>Nothing that happens later disturbs such a page.\<close>

lemma page_holds_keep:
  assumes "page_holds s m fs u f" and "u mod page_size64 = 0" and "suffix fs' fs" and "page_of s' = page_of s"
    and "\<forall>a. \<not> in_pages s fs a \<longrightarrow> m' a = m a"
    and "\<forall>v. indices v = indices u \<longrightarrow> mapper_trans s' v = mapper_trans s v"
  shows "page_holds s' m' fs' u f"
proof -
  obtain q where q: "\<forall>d < 4096. mapper_trans s (u + of_nat d) = Some (q + of_nat d) \<and> m (q + of_nat d) = f d \<and>
      \<not> in_pages s fs (q + of_nat d)" using assms(1) by (auto simp: page_holds_def)
  have "mapper_trans s' (u + of_nat d) = Some (q + of_nat d) \<and> m' (q + of_nat d) = f d \<and>
      \<not> in_pages s' fs' (q + of_nat d)" if "d < 4096" for d
    using q that assms(5,6) page_byte(1) [OF assms(2) that] in_pages_suffix [OF assms(3)]
    unfolding in_pages_cong [OF assms(4)] by metis
  then show ?thesis unfolding page_holds_def by blast
qed

section \<open>Adding pages to the address space\<close>

type_synonym loading = "loader \<times> mem \<times> vaddr_t list"

text \<open>
  What a loading step does: it maps the virtual pages \<open>us\<close>, the page \<open>u\<close> with the contents \<open>g u\<close>, at the
  cost of some free pages at the front of the list. Memory outside the pages that were free and
  the translation of all other addresses are as before.
\<close>

fun loads :: "nat \<Rightarrow> vaddr_t \<Rightarrow> paddr_t \<Rightarrow> (vaddr_t \<Rightarrow> nat \<Rightarrow> u8) \<Rightarrow> vaddr_t list \<Rightarrow> loading \<Rightarrow> loading \<Rightarrow> bool" where
  "loads n arr pml4 g us (s, m, fs) (s', m', fs') \<longleftrightarrow>
     mapper_inv n arr pml4 s fs \<and> mapper_inv n arr pml4 s' fs' \<and> suffix fs' fs \<and>
     (\<forall>a. \<not> in_pages s fs a \<longrightarrow> m' a = m a) \<and> (\<forall>u \<in> set us. page_holds s' m' fs' u (g u)) \<and>
     (\<forall>w. pml4e_index w \<noteq> 511 \<longrightarrow> (\<forall>u \<in> set us. indices w \<noteq> indices u) \<longrightarrow> mapper_trans s' w = mapper_trans s w)"

text \<open>Virtual pages that can be mapped: aligned, different, below the recursive window, and not in use.\<close>

definition mappable :: "loader \<Rightarrow> vaddr_t list \<Rightarrow> bool" where
  "mappable s us \<longleftrightarrow> distinct (map indices us) \<and>
     (\<forall>u \<in> set us. u mod page_size64 = 0 \<and> pml4e_index u \<noteq> 511 \<and> mapper_trans s u = None)"

lemma loads_refl: "mapper_inv n arr pml4 s fs \<Longrightarrow> loads n arr pml4 g [] (s, m, fs) (s, m, fs)"
  by simp

lemma loads_pages: "loads n arr pml4 g us (s, m, fs) (s', m', fs') \<Longrightarrow> page_of s' = page_of s"
  by (auto simp: mapper_arr intro!: page_of_cong)

lemma loads_in_pages:
  assumes "loads n arr pml4 g us (s, m, fs) (s', m', fs')" and "\<not> in_pages s fs a"
  shows "\<not> in_pages s' fs' a"
  using assms in_pages_suffix [of fs' fs s' a] in_pages_cong [OF loads_pages [OF assms(1)]] by auto

lemma mappable_after:
  assumes "mappable s (us @ vs)" and "loads n arr pml4 g us (s, m, fs) (s', m', fs')"
  shows "mappable s' vs"
proof -
  have "indices v \<noteq> indices u" if "v \<in> set vs" "u \<in> set us" for u v
    using assms(1) that by (auto simp: mappable_def)
  then show ?thesis using assms by (auto simp: mappable_def)
qed

lemma loads_trans:
  assumes one: "loads n arr pml4 g us (s, m, fs) (s1, m1, fs1)" and two: "loads n arr pml4 g vs (s1, m1, fs1) (s2, m2, fs2)"
    and ok: "mappable s (us @ vs)"
  shows "loads n arr pml4 g (us @ vs) (s, m, fs) (s2, m2, fs2)"
proof -
  have apart: "indices u \<noteq> indices v" if "u \<in> set us" "v \<in> set vs" for u v
    using ok that by (auto simp: mappable_def)
  have "page_holds s2 m2 fs2 u (g u)" if u: "u \<in> set us" for u
  proof -
    have "u mod page_size64 = 0" "pml4e_index u \<noteq> 511" using ok u by (simp_all add: mappable_def)
    moreover have "mapper_trans s2 w = mapper_trans s1 w" if "indices w = indices u" for w
    proof -
      have "pml4e_index w \<noteq> 511" using that calculation(2) by (simp add: indices_def)
      moreover have "\<forall>v \<in> set vs. indices w \<noteq> indices v" using apart [OF u] that by simp
      ultimately show ?thesis using two by simp
    qed
    moreover have "page_holds s1 m1 fs1 u (g u)" using one u by simp
    ultimately show ?thesis using page_holds_keep [of s1 m1 fs1 u "g u" fs2 s2 m2] loads_pages [OF two] two by simp
  qed
  moreover have "m2 a = m a" if "\<not> in_pages s fs a" for a
    using one two that loads_in_pages [OF one that] by simp
  moreover have "suffix fs2 fs" using one two by (auto intro: suffix_order.trans)
  ultimately show ?thesis using one two by auto
qed

section \<open>Copied segments\<close>

definition page_list :: "vaddr_t \<Rightarrow> nat \<Rightarrow> vaddr_t list" where
  "page_list u k = map (nth_page u) [0..<k]"

lemma page_list_Suc: "page_list u (Suc k) = u # page_list (u + page_size64) k"
  by (simp add: page_list_def upt_conv_Cons nth_page_Suc del: upt_Suc flip: map_Suc_upt page_size64_eq)

text \<open>One step of the loop: a page is taken, mapped at \<open>u\<close>, and filled from \<open>src\<close>.\<close>

lemma load_one_page:
  assumes inv: "mapper_inv n arr pml4 s fs" "4 \<le> length fs" and src: "unat src + 4096 \<le> 2 ^ 32"
    and free: "\<forall>d < 4096. \<not> in_pages s fs (src + of_nat d) \<and> m (src + of_nat d) = g u d" and ok: "mappable s [u]"
  shows "\<exists>s1 page s' m' fs'. pmm_alloc_page s = Inr (s1, page) \<and> map_page s1 page u flags_rw = Inr s' \<and>
    fst (memcpy (fst (memset m (as_ptr page) 0 page_size64)) (as_ptr page) src page_size64) = m' \<and>
    length fs \<le> length fs' + 4 \<and> loads n arr pml4 g [u] (s, m, fs) (s', m', fs')"
proof -
  have u: "u mod page_size64 = 0" "pml4e_index u \<noteq> 511" "mapper_trans s u = None" using ok by (simp_all add: mappable_def)
  obtain f gs where fs: "fs = f # gs" using inv(2) by (cases fs) auto
  let ?p = "page_of s f"
  note p = mapper_page [OF inv(1), of f, unfolded fs, simplified]
  obtain s1 where s1: "pmm_alloc_page s = Inr (s1, ?p)" "mapper_inv n arr pml4 s1 gs" "page_of s1 = page_of s"
    "\<And>v. pml4e_index v \<noteq> 511 \<Longrightarrow> mapper_trans s1 v = mapper_trans s v"
    using mapper_alloc inv(1) unfolding fs by blast
  have phys: "?p mod page_size64 = 0" "take_bit 52 ?p = ?p"
    using table_addr_52 [OF p(1)] by (simp_all add: take_bit_eq_mod)
  obtain s' fs' where s': "map_page s1 ?p u flags_rw = Inr s'" "mapper_inv n arr pml4 s' fs'" "suffix fs' gs"
    "length gs \<le> length fs' + 3"
    "\<forall>v. pml4e_index v \<noteq> 511 \<longrightarrow>
       mapper_trans s' v = (if indices v = indices u then Some (?p + take_bit 12 v) else mapper_trans s1 v)"
    using mapper_map [OF s1(2) _ phys u(1,2)] inv(2) u(3) s1(4) [OF u(2)] unfolding fs by auto
  have pages: "page_of s' = page_of s" using mapper_arr [OF s'(2)] mapper_arr [OF inv(1)] by (simp add: page_of_cong)
  have src_apart: "\<forall>d < 4096. \<not> in_range ?p 4096 (src + of_nat d)" using free by (auto simp: in_pages_def fs)
  let ?m = "copied m ?p src 4096"
  have "?m a = m a" if "\<not> in_pages s fs a" for a
    using that by (intro copied_outside) (auto simp: in_pages_def fs)
  moreover have "page_holds s' ?m fs' u (g u)"
    unfolding page_holds_def
  proof (intro exI [of _ ?p] allI impI conjI)
    fix d :: nat assume d: "d < 4096"
    show "mapper_trans s' (u + of_nat d) = Some (?p + of_nat d)"
      using s'(5) page_byte [OF u(1) d] u(2) by simp
    show "?m (?p + of_nat d) = g u d" using copied_inside [OF p(1) src d] free d by simp
    have "\<not> in_pages s gs (?p + of_nat d)"
      using front_page_apart [OF inv(1) [unfolded fs] in_range_offset [OF p(1) d]] .
    then show "\<not> in_pages s' fs' (?p + of_nat d)"
      unfolding in_pages_cong [OF pages] using in_pages_suffix [OF s'(3)] by blast
  qed
  ultimately have "loads n arr pml4 g [u] (s, m, fs) (s', ?m, fs')"
    using inv(1) s1(4) s'(2,3,5) by (simp add: fs suffix_ConsI)
  moreover have "fst (memcpy (fst (memset m (as_ptr ?p) 0 page_size64)) (as_ptr ?p) src page_size64) = ?m"
    unfolding p(2) by (rule fill_page [OF p(1) src src_apart])
  moreover have "length fs \<le> length fs' + 4" using s'(4) by (simp add: fs)
  ultimately show ?thesis using s1(1) s'(1) by blast
qed

text \<open>
  The loop of a copied segment: \<open>k\<close> pages from the virtual page \<open>v + i\<close> on are mapped to pages that
  were free, and hold the bytes from \<open>src\<close> on.
\<close>

lemma load_pages_fill:
  assumes "mapper_inv n arr pml4 s fs" and "4 * k \<le> length fs"
    and "\<forall>j < k. nth_page i j < sz \<and> as_ptr (as_ptr p + nth_page i j) = nth_page src j"
    and "unat src + 4096 * k \<le> 2 ^ 32"
    and "\<forall>j < k. \<forall>d < 4096. \<not> in_pages s fs (nth_page src j + of_nat d) \<and>
      m (nth_page src j + of_nat d) = g (nth_page (v + i) j) d"
    and "mappable s (page_list (v + i) k)"
  shows "\<exists>s' m' fs'. load_pages k s m i p v sz flags_rw = Inr (s', m') \<and> length fs \<le> length fs' + 4 * k \<and>
    loads n arr pml4 g (page_list (v + i) k) (s, m, fs) (s', m', fs')"
  using assms
proof (induction k arbitrary: s m i src fs)
  case 0
  then show ?case using loads_refl by (auto simp: page_list_def)
next
  case (Suc k)
  let ?u = "v + i" and ?i = "i + page_size64" and ?src = "src + page_size64"
  have pg: "nth_page (v + ?i) j = nth_page ?u (Suc j)" "nth_page ?i j = nth_page i (Suc j)"
    "nth_page ?src j = nth_page src (Suc j)" for j
    by (simp_all add: nth_page_Suc del: page_size64_eq flip: add.assoc)
  have pl: "page_list ?u (Suc k) = [?u] @ page_list (v + ?i) k"
    by (simp add: page_list_Suc add.assoc del: page_size64_eq)
  have u: "i < sz" "as_ptr (as_ptr p + i) = src" using Suc.prems(3) [rule_format, of 0] by simp_all
  have src: "unat src + 4096 \<le> 2 ^ 32" "4 \<le> length fs" using Suc.prems(2,4) by simp_all
  have "mappable s [?u]" using Suc.prems(6) by (simp add: pl mappable_def)
  moreover have "\<forall>d < 4096. \<not> in_pages s fs (src + of_nat d) \<and> m (src + of_nat d) = g ?u d"
    using Suc.prems(5) [rule_format, of 0] by simp
  ultimately obtain s1 page s2 m2 fs2 where one: "pmm_alloc_page s = Inr (s1, page)" "map_page s1 page ?u flags_rw = Inr s2"
    "fst (memcpy (fst (memset m (as_ptr page) 0 page_size64)) (as_ptr page) src page_size64) = m2"
    "length fs \<le> length fs2 + 4" "loads n arr pml4 g [?u] (s, m, fs) (s2, m2, fs2)"
    using load_one_page [OF Suc.prems(1) src(2,1), of m g ?u] by blast
  have "\<exists>s' m' fs'. load_pages k s2 m2 ?i p v sz flags_rw = Inr (s', m') \<and> length fs2 \<le> length fs' + 4 * k \<and>
    loads n arr pml4 g (page_list (v + ?i) k) (s2, m2, fs2) (s', m', fs')"
  proof (rule Suc.IH)
    show "mapper_inv n arr pml4 s2 fs2" "4 * k \<le> length fs2" using one(4,5) Suc.prems(2) by simp_all
    show "unat ?src + 4096 * k \<le> 2 ^ 32" using src(1) Suc.prems(4) by (simp add: unat_word_ariths)
    show "\<forall>j < k. nth_page ?i j < sz \<and> as_ptr (as_ptr p + nth_page ?i j) = nth_page ?src j"
      using Suc.prems(3) unfolding pg by simp
    show "\<forall>j < k. \<forall>d < 4096. \<not> in_pages s2 fs2 (nth_page ?src j + of_nat d) \<and>
        m2 (nth_page ?src j + of_nat d) = g (nth_page (v + ?i) j) d"
      using Suc.prems(5) loads_in_pages [OF one(5)] one(5) unfolding pg by simp
    show "mappable s2 (page_list (v + ?i) k)" using mappable_after [OF _ one(5)] Suc.prems(6) unfolding pl .
  qed
  then obtain s' m' fs' where rest: "load_pages k s2 m2 ?i p v sz flags_rw = Inr (s', m')" "length fs2 \<le> length fs' + 4 * k"
    "loads n arr pml4 g (page_list (v + ?i) k) (s2, m2, fs2) (s', m', fs')" by blast
  have "load_pages (Suc k) s m i p v sz flags_rw = Inr (s', m')"
    using one(1-3) rest(1) u by (simp add: Let_def del: page_size64_eq)
  moreover have "length fs \<le> length fs' + 4 * Suc k" using rest(2) one(4) by simp
  ultimately show ?case using loads_trans [OF one(5) rest(3)] Suc.prems(6) unfolding pl by blast
qed

section \<open>One program header\<close>

definition segment_pages :: "elf64_phdr \<Rightarrow> vaddr_t list" where
  "segment_pages ph = (if p_type ph = PT_LOAD then page_list (p_vaddr ph) (pages_below (p_memsz ph)) else [])"

text \<open>
  A program header that the loader can load: page-aligned, in the kernel's window, with its data
  in the first 4 GiB; a segment that is mapped in place must also be aligned in the image.
\<close>

definition segment_ok :: "vaddr_t \<Rightarrow> elf64_phdr \<Rightarrow> bool" where
  "segment_ok img ph \<longleftrightarrow> (p_type ph = PT_LOAD \<longrightarrow>
     p_align ph = page_size64 \<and> kernel_base \<le> p_vaddr ph \<and> unat (p_vaddr ph) + unat (p_memsz ph) < unat kernel_limit \<and>
     p_vaddr ph mod page_size64 = 0 \<and> (p_filesz ph = p_memsz ph \<longrightarrow> (img + p_offset ph) mod page_size64 = 0) \<and>
     unat (p_filesz ph) < 2 ^ 32 \<and> unat (p_memsz ph) < 2 ^ 32 \<and>
     unat (img + p_offset ph) + 4096 * pages_below (p_memsz ph) < 2 ^ 32)"

text \<open>The image lies outside the free pages, and \<open>g\<close> is what the pages of the segment have to hold.\<close>

definition segment_source :: "loader \<Rightarrow> mem \<Rightarrow> vaddr_t list \<Rightarrow> (vaddr_t \<Rightarrow> nat \<Rightarrow> u8) \<Rightarrow> vaddr_t \<Rightarrow> elf64_phdr \<Rightarrow> bool" where
  "segment_source s m fs g img ph \<longleftrightarrow> (p_type ph = PT_LOAD \<longrightarrow> (\<forall>j < pages_below (p_memsz ph). \<forall>d < 4096.
     \<not> in_pages s fs (nth_page (img + p_offset ph) j + of_nat d) \<and>
     m (nth_page (img + p_offset ph) j + of_nat d) = g (nth_page (p_vaddr ph) j) d))"

lemma pages_in_below: "unat b < 2 ^ 32 \<Longrightarrow> pages_in b = pages_below b"
  using page.unat_align_up_raw [of b] by (simp add: pages_in_def pages_below_def page_align_up_def unat_div)

lemma as_ptr_small: "unat a < 2 ^ 32 \<Longrightarrow> as_ptr a = a"
  by (simp add: word_unat_eq_iff unat_as_ptr)

lemma unat_nth_page: "unat a + 4096 * j < 2 ^ 64 \<Longrightarrow> unat (nth_page a j) = unat a + 4096 * j"
  by (simp add: nth_page_def unat_word_ariths unat_of_nat mult.commute)

lemma load_segment_copies:
  assumes "p_type ph = PT_LOAD" and "segment_ok img ph" and "p_filesz ph \<noteq> p_memsz ph"
  shows "load_segment s m img ph =
    load_pages (pages_below (p_memsz ph)) s m 0 (img + p_offset ph) (p_vaddr ph) (ebl_max (p_filesz ph) (p_memsz ph)) flags_rw"
proof -
  have ok: "p_align ph = page_size64" "kernel_base \<le> p_vaddr ph" "unat (p_vaddr ph) + unat (p_memsz ph) < unat kernel_limit"
    "unat (p_filesz ph) < 2 ^ 32" "unat (p_memsz ph) < 2 ^ 32"
    using assms(1,2) by (simp_all add: segment_ok_def)
  have "unat (p_vaddr ph + p_memsz ph) = unat (p_vaddr ph) + unat (p_memsz ph)"
    using ok(3) by (simp add: unat_word_ariths kernel_window)
  then have lim: "p_vaddr ph + p_memsz ph < kernel_limit" using ok(3) by (simp add: word_less_nat_alt)
  have "as_ptr (ebl_max (p_filesz ph) (p_memsz ph)) = ebl_max (p_filesz ph) (p_memsz ph)"
    using ok(4,5) by (intro as_ptr_small) (simp add: ebl_max_def)
  then show ?thesis using assms(1,3) ok lim by (simp add: load_segment_def Let_def pages_in_below del: page_size64_eq)
qed

text \<open>Either way, the pages of the segment are mapped and hold its data.\<close>

lemma segment_page_bounds:
  assumes "p_type ph = PT_LOAD" and "segment_ok img ph" and "j < pages_below (p_memsz ph)"
  shows "4096 * j < unat (p_memsz ph)" and "unat (img + p_offset ph) + 4096 * j < 2 ^ 32"
proof -
  have "unat (img + p_offset ph) + 4096 * pages_below (p_memsz ph) < 2 ^ 32" using assms(1,2) by (simp add: segment_ok_def)
  then show "unat (img + p_offset ph) + 4096 * j < 2 ^ 32" using assms(3) by linarith
  show "4096 * j < unat (p_memsz ph)" using assms(3) by (simp add: pages_below_bound mult.commute)
qed

lemma load_segment_copied:
  assumes load: "p_type ph = PT_LOAD" and ok: "segment_ok img ph" and ne: "p_filesz ph \<noteq> p_memsz ph"
    and inv: "mapper_inv n arr pml4 s fs" "4 * length (segment_pages ph) \<le> length fs"
    and src: "segment_source s m fs g img ph" and map: "mappable s (segment_pages ph)"
  shows "\<exists>s' m' fs'. load_segment s m img ph = Inr (s', m') \<and> length fs \<le> length fs' + 4 * length (segment_pages ph) \<and>
    loads n arr pml4 g (segment_pages ph) (s, m, fs) (s', m', fs')"
proof -
  let ?k = "pages_below (p_memsz ph)" and ?p = "img + p_offset ph" and ?v = "p_vaddr ph"
  have pages: "segment_pages ph = page_list ?v ?k" "length (segment_pages ph) = ?k"
    using load by (simp_all add: segment_pages_def page_list_def)
  have p: "unat ?p + 4096 * ?k < 2 ^ 32" "unat (p_memsz ph) < 2 ^ 32" using ok load by (simp_all add: segment_ok_def)
  note below = segment_page_bounds [OF load ok]
  have "\<forall>j < ?k. nth_page 0 j < ebl_max (p_filesz ph) (p_memsz ph) \<and> as_ptr (as_ptr ?p + nth_page 0 j) = nth_page ?p j"
  proof (intro allI impI conjI)
    fix j assume j: "j < ?k"
    have "unat (nth_page 0 j) = 4096 * j" using below(1) [OF j] p(2) by (subst unat_nth_page) simp_all
    then have "nth_page 0 j < p_memsz ph" using below(1) [OF j] by (simp add: word_less_nat_alt)
    then show "nth_page 0 j < ebl_max (p_filesz ph) (p_memsz ph)" by (auto simp: ebl_max_def)
    have "as_ptr ?p = ?p" using p(1) by (intro as_ptr_small) simp
    moreover have "?p + nth_page 0 j = nth_page ?p j" by (simp add: nth_page_def)
    moreover have "as_ptr (nth_page ?p j) = nth_page ?p j"
      using below(2) [OF j] by (intro as_ptr_small) (simp add: unat_nth_page)
    ultimately show "as_ptr (as_ptr ?p + nth_page 0 j) = nth_page ?p j" by simp
  qed
  then show ?thesis
    using load_pages_fill [of n arr pml4 s fs ?k 0 "ebl_max (p_filesz ph) (p_memsz ph)" ?p ?p m g ?v] inv p(1) src map pages(2)
    unfolding load_segment_copies [OF load ok ne] pages(1) by (simp add: segment_source_def load)
qed

lemma load_segment_mapped:
  assumes load: "p_type ph = PT_LOAD" and ok: "segment_ok img ph" and same: "p_filesz ph = p_memsz ph"
    and inv: "mapper_inv n arr pml4 s fs" "4 * length (segment_pages ph) \<le> length fs"
    and src: "segment_source s m fs g img ph" and map: "mappable s (segment_pages ph)"
  shows "\<exists>s' fs'. load_segment s m img ph = Inr (s', m) \<and> length fs \<le> length fs' + 4 * length (segment_pages ph) \<and>
    loads n arr pml4 g (segment_pages ph) (s, m, fs) (s', m, fs')"
proof -
  let ?k = "pages_below (p_memsz ph)" and ?p = "img + p_offset ph" and ?v = "p_vaddr ph"
  have pages: "segment_pages ph = page_list ?v ?k" "length (segment_pages ph) = ?k"
    using load by (simp_all add: segment_pages_def page_list_def)
  have seg: "p_align ph = page_size64" "kernel_base \<le> ?v" "unat ?v + unat (p_memsz ph) < unat kernel_limit"
    "?v mod page_size64 = 0" "?p mod page_size64 = 0"
    using ok load same by (simp_all add: segment_ok_def)
  obtain T rs where pinv: "paging_inv s T n fs rs" "pm_arr (ld_pmm s) = arr" "ld_pml4 s = pml4"
    using inv(1) by (auto simp: mapper_inv_def)
  have free: "3 * ?k \<le> length fs" using inv(2) pages(2) by simp
  have "take_bit 52 (nth_page ?p j) = nth_page ?p j" if "j < ?k" for j
    using segment_page_bounds(2) [OF load ok that]
    by (simp add: word_unat_eq_iff unsigned_take_bit_eq take_bit_nat_eq_self unat_nth_page)
  then have each: "\<forall>j < ?k. take_bit 52 (nth_page ?p j) = nth_page ?p j \<and> pml4e_index (nth_page ?v j) \<noteq> 511"
    using map by (simp add: mappable_def pages page_list_def)
  have inj: "\<forall>i < ?k. \<forall>j < ?k. indices (nth_page ?v i) = indices (nth_page ?v j) \<longrightarrow> i = j"
    using map by (auto simp: mappable_def pages page_list_def distinct_conv_nth)
  have unused: "\<forall>j < ?k. translate (ld_mem s) (ld_pml4 s) (nth_page ?v j) = None"
    using map by (simp add: mappable_def pages page_list_def mapper_trans_def)
  obtain s' T' fs' rs' where s': "map_range ?k s ?p ?v flags_rw = Inr s'" "paging_inv s' T' n fs' rs'" "suffix fs' fs"
    "length fs \<le> length fs' + 3 * ?k" "ld_pml4 s' = ld_pml4 s" "pm_arr (ld_pmm s') = pm_arr (ld_pmm s)"
    and tr: "\<forall>w. pml4e_index w \<noteq> 511 \<longrightarrow>
       (\<forall>j < ?k. indices w = indices (nth_page ?v j) \<longrightarrow> mapper_trans s' w = Some (nth_page ?p j + take_bit 12 w)) \<and>
       ((\<forall>j < ?k. indices w \<noteq> indices (nth_page ?v j)) \<longrightarrow> mapper_trans s' w = mapper_trans s w)"
    using map_range_step [OF pinv(1) free seg(5,4) each inj unused] unfolding mapper_trans_def by blast
  have inv': "mapper_inv n arr pml4 s' fs'" using s'(2,5,6) pinv(2,3) by (auto simp: mapper_inv_def)
  have "page_holds s' m fs' (nth_page ?v j) (g (nth_page ?v j))" if j: "j < ?k" for j
    unfolding page_holds_def
  proof (intro exI [of _ "nth_page ?p j"] allI impI conjI)
    fix d :: nat assume d: "d < 4096"
    have data: "\<not> in_pages s fs (nth_page ?p j + of_nat d)" "m (nth_page ?p j + of_nat d) = g (nth_page ?v j) d"
      using src load j d by (simp_all add: segment_source_def)
    then show "m (nth_page ?p j + of_nat d) = g (nth_page ?v j) d" by simp
    show "mapper_trans s' (nth_page ?v j + of_nat d) = Some (nth_page ?p j + of_nat d)"
      using tr page_byte [OF nth_page_aligned [OF seg(4), of j] d] each j by simp
    show "\<not> in_pages s' fs' (nth_page ?p j + of_nat d)"
      unfolding in_pages_cong [OF page_of_cong [OF s'(6)]] using in_pages_suffix [OF s'(3)] data(1) by blast
  qed
  then have "loads n arr pml4 g (segment_pages ph) (s, m, fs) (s', m, fs')"
    using inv(1) inv' s'(3) tr by (simp add: pages page_list_def)
  moreover have "load_segment s m img ph = Inr (s', m)" using load_segment_guards [OF load seg(1) same seg(2,3)] s'(1) by simp
  moreover have "length fs \<le> length fs' + 4 * length (segment_pages ph)" using s'(4) pages(2) by simp
  ultimately show ?thesis by blast
qed

lemma load_segment_loads:
  assumes "mapper_inv n arr pml4 s fs" and "4 * length (segment_pages ph) \<le> length fs" and "segment_ok img ph"
    and "segment_source s m fs g img ph" and "mappable s (segment_pages ph)"
  shows "\<exists>s' m' fs'. load_segment s m img ph = Inr (s', m') \<and> length fs \<le> length fs' + 4 * length (segment_pages ph) \<and>
    loads n arr pml4 g (segment_pages ph) (s, m, fs) (s', m', fs')"
proof (cases "p_type ph = PT_LOAD")
  case False
  then have "load_segment s m img ph = Inr (s, m)" "segment_pages ph = []" by (simp_all add: load_segment_def segment_pages_def)
  then show ?thesis using loads_refl [OF assms(1)] by auto
next
  case True
  then show ?thesis
    using load_segment_copied [OF True assms(3) _ assms(1,2,4,5)] load_segment_mapped [OF True assms(3) _ assms(1,2,4,5)]
    by blast
qed

section \<open>All program headers\<close>

lemma load_le_agree:
  assumes "\<forall>d < n. m' (a + of_nat d) = m (a + of_nat d)"
  shows "load_le m' a n = load_le m a n"
  using assms
proof (induction n arbitrary: a)
  case (Suc n)
  have "m' a = m a" using Suc.prems [rule_format, of 0] by simp
  moreover have "load_le m' (a + 1) n = load_le m (a + 1) n"
  proof (rule Suc.IH, intro allI impI)
    fix d assume "d < n"
    then show "m' (a + 1 + of_nat d) = m (a + 1 + of_nat d)" using Suc.prems [rule_format, of "Suc d"] by (simp add: add.assoc)
  qed
  ultimately show ?case by simp
qed simp

lemma header_field_agree:
  assumes "\<forall>d < 56. m' (a + of_nat d) = m (a + of_nat d)" and "k + n \<le> 56"
  shows "load_le m' (a + of_nat k) n = load_le m (a + of_nat k) n"
proof (rule load_le_agree, intro allI impI)
  fix d assume "d < n"
  then have "m' (a + of_nat (k + d)) = m (a + of_nat (k + d))" using assms(2) by (intro assms(1) [rule_format]) simp
  then show "m' (a + of_nat k + of_nat d) = m (a + of_nat k + of_nat d)" by (simp add: add.assoc)
qed

lemma read_phdr_agree:
  assumes "\<forall>d < 56. m' (a + of_nat d) = m (a + of_nat d)"
  shows "read_phdr m' a = read_phdr m a"
  using header_field_agree [OF assms, of 0 4] header_field_agree [OF assms, of 4 4] header_field_agree [OF assms, of 8 8]
    header_field_agree [OF assms, of 16 8] header_field_agree [OF assms, of 24 8] header_field_agree [OF assms, of 32 8]
    header_field_agree [OF assms, of 40 8] header_field_agree [OF assms, of 48 8]
  by (simp add: read_phdr_def rd32_def rd64_def)

text \<open>
  The loop over the program headers. All of them are loaded as they were in the image before the
  loop, because the loader writes only to pages that were free.
\<close>

lemma load_segments_loads:
  assumes "mapper_inv n arr pml4 s fs" and "4 * length (concat (map segment_pages (map (read_phdr m) as))) \<le> length fs"
    and "\<forall>a \<in> set as. segment_ok img (read_phdr m a) \<and> segment_source s m fs g img (read_phdr m a) \<and>
      (\<forall>d < 56. \<not> in_pages s fs (a + of_nat d))"
    and "mappable s (concat (map segment_pages (map (read_phdr m) as)))"
  shows "\<exists>s' m' fs'. load_segments s m img as = Inr (s', m') \<and>
    length fs \<le> length fs' + 4 * length (concat (map segment_pages (map (read_phdr m) as))) \<and>
    loads n arr pml4 g (concat (map segment_pages (map (read_phdr m) as))) (s, m, fs) (s', m', fs')"
  using assms
proof (induction "as" arbitrary: s m fs)
  case Nil
  then show ?case using loads_refl [OF Nil.prems(1)] by auto
next
  case (Cons a "as")
  let ?ph = "read_phdr m a" and ?us = "concat (map segment_pages (map (read_phdr m) as))"
  have us: "concat (map segment_pages (map (read_phdr m) (a # as))) = segment_pages ?ph @ ?us" by simp
  have "mappable s (segment_pages ?ph)" using Cons.prems(4) unfolding us by (auto simp: mappable_def)
  then obtain s1 m1 fs1 where one: "load_segment s m img ?ph = Inr (s1, m1)"
    "length fs \<le> length fs1 + 4 * length (segment_pages ?ph)" "loads n arr pml4 g (segment_pages ?ph) (s, m, fs) (s1, m1, fs1)"
    using load_segment_loads [of n arr pml4 s fs ?ph img m g] Cons.prems(1-3) by auto
  have keep: "m1 b = m b \<and> \<not> in_pages s1 fs1 b" if "\<not> in_pages s fs b" for b
    using one(3) loads_in_pages [OF one(3) that] that by simp
  have hdr: "read_phdr m1 b = read_phdr m b" if "b \<in> set as" for b
    by (rule read_phdr_agree) (use Cons.prems(3) keep that in auto)
  then have us1: "map (read_phdr m1) as = map (read_phdr m) as" by simp
  have "segment_source s1 m1 fs1 g img (read_phdr m1 b)" if "b \<in> set as" for b
    using Cons.prems(3) keep that unfolding hdr [OF that] segment_source_def by auto
  then have "\<forall>b \<in> set as. segment_ok img (read_phdr m1 b) \<and> segment_source s1 m1 fs1 g img (read_phdr m1 b) \<and>
      (\<forall>d < 56. \<not> in_pages s1 fs1 (b + of_nat d))"
    using Cons.prems(3) keep hdr by auto
  moreover have "mappable s1 ?us" using mappable_after [OF _ one(3)] Cons.prems(4) unfolding us .
  moreover have "4 * length ?us \<le> length fs1" using Cons.prems(2) one(2) by simp
  ultimately obtain s' m' fs' where rest: "load_segments s1 m1 img as = Inr (s', m')" "length fs1 \<le> length fs' + 4 * length ?us"
    "loads n arr pml4 g ?us (s1, m1, fs1) (s', m', fs')"
    using Cons.IH [of s1 fs1 m1] one(3) unfolding us1 by auto
  have "loads n arr pml4 g (segment_pages ?ph @ ?us) (s, m, fs) (s', m', fs')"
    using loads_trans [OF one(3) rest(3)] Cons.prems(4) unfolding us .
  moreover have "length fs \<le> length fs' + 4 * length (segment_pages ?ph @ ?us)" using one(2) rest(2) by simp
  ultimately show ?case using one(1) rest(1) unfolding us by auto
qed

section \<open>Windows\<close>

text \<open>Pages of a part of the address space that starts at a multiple of 512 GiB.\<close>

lemma slot_pages:
  fixes base :: u64
  assumes base: "take_bit 39 base = 0" "pml4e_index base \<noteq> 511" and u: "u = base + of_nat a" "a mod 4096 = 0" "a + 4096 * k \<le> 2 ^ 39"
  shows "distinct (map indices (page_list u k))" and "\<forall>w \<in> set (page_list u k). pml4e_index w = pml4e_index base"
    and "u mod page_size64 = 0" and "\<forall>w \<in> set (page_list u k). w mod page_size64 = 0"
proof -
  have page: "nth_page u j = base + of_nat (a + 4096 * j)" for j by (simp add: nth_page_def u(1) algebra_simps)
  have small: "a + 4096 * j < 2 ^ 39" if "j < k" for j using u(3) that by linarith
  have "i = j" if "i < k" "j < k" "indices (nth_page u i) = indices (nth_page u j)" for i j
  proof -
    have "(a + 4096 * i) div 4096 = (a + 4096 * j) div 4096"
      using slot_indices [OF base(1) small [OF that(1)] small [OF that(2)]] that(3) by (simp only: page)
    then show ?thesis by simp
  qed
  then show "distinct (map indices (page_list u k))" by (auto simp: page_list_def distinct_conv_nth)
  show "\<forall>w \<in> set (page_list u k). pml4e_index w = pml4e_index base"
    using slot_pml4e [OF base(1) small] by (auto simp: page_list_def page simp del: of_nat_add of_nat_mult)
  obtain q where "a = 4096 * q" using u(2) by (auto simp: mod_eq_0_iff_dvd elim: dvdE)
  moreover have "base mod page_size64 = 0"
    using bit_take_bit_iff [of 39 base] base(1) by (intro bit_eqI) (simp add: bit_simps flip: take_bit_eq_mod [of 12, simplified])
  ultimately show al: "u mod page_size64 = 0" using nth_page_aligned [of base q] by (simp add: nth_page_def u(1) mult.commute)
  show "\<forall>w \<in> set (page_list u k). w mod page_size64 = 0"
    using nth_page_aligned [OF al] by (auto simp: page_list_def)
qed

lemma page_list_byte:
  assumes "d < 4096 * k"
  obtains j e where "j < k" and "e < 4096" and "d = 4096 * j + e" and "\<And>u. u + of_nat d = nth_page u j + of_nat e"
    and "\<And>u. nth_page u j \<in> set (page_list u k)"
proof -
  have j: "d div 4096 < k" using assms by (simp add: less_mult_imp_div_less mult.commute)
  moreover have d: "d = 4096 * (d div 4096) + d mod 4096" by simp
  moreover have "u + of_nat d = nth_page u (d div 4096) + of_nat (d mod 4096)" for u :: u64
  proof -
    have "(of_nat d :: u64) = of_nat (d div 4096) * 4096 + of_nat (d mod 4096)"
      by (metis of_nat_add of_nat_mult of_nat_numeral div_mult_mod_eq)
    then show ?thesis by (simp add: nth_page_def add.assoc)
  qed
  ultimately show thesis using that [of "d div 4096" "d mod 4096"] by (auto simp: page_list_def)
qed

text \<open>A loop of \<open>map_page\<close> calls from the start of such a part on.\<close>

lemma map_window:
  assumes inv: "mapper_inv n arr pml4 s fs" "3 * k \<le> length fs" and phys: "phys mod page_size64 = 0" "unat phys + 4096 * k \<le> 2 ^ 52"
    and base: "take_bit 39 base = 0" "pml4e_index base \<noteq> 511" "4096 * k \<le> 2 ^ 39"
    and unused: "\<forall>u \<in> set (page_list base k). mapper_trans s u = None"
  shows "\<exists>s' fs'. map_range k s phys base flags_rw = Inr s' \<and> mapper_inv n arr pml4 s' fs' \<and> suffix fs' fs \<and>
    length fs \<le> length fs' + 3 * k \<and> (\<forall>d < 4096 * k. mapper_trans s' (base + of_nat d) = Some (phys + of_nat d)) \<and>
    (\<forall>w. pml4e_index w \<noteq> 511 \<longrightarrow> pml4e_index w \<noteq> pml4e_index base \<longrightarrow> mapper_trans s' w = mapper_trans s w)"
proof -
  have "base = base + of_nat 0" "0 mod 4096 = (0 :: nat)" "0 + 4096 * k \<le> 2 ^ 39" using base(3) by simp_all
  note pages = slot_pages [OF base(1,2) this]
  have "take_bit 52 (nth_page phys j) = nth_page phys j" if "j < k" for j
  proof -
    have "unat phys + 4096 * j < 2 ^ 52" using that phys(2) by linarith
    then show ?thesis by (simp add: word_unat_eq_iff unsigned_take_bit_eq take_bit_nat_eq_self unat_nth_page)
  qed
  then have each: "\<forall>j < k. take_bit 52 (nth_page phys j) = nth_page phys j \<and> pml4e_index (nth_page base j) \<noteq> 511"
    using pages(2) base(2) by (simp add: page_list_def)
  have inj: "\<forall>i < k. \<forall>j < k. indices (nth_page base i) = indices (nth_page base j) \<longrightarrow> i = j"
    using pages(1) by (auto simp: page_list_def distinct_conv_nth)
  have none: "\<forall>j < k. mapper_trans s (nth_page base j) = None" using unused by (simp add: page_list_def)
  obtain s' fs' where s': "map_range k s phys base flags_rw = Inr s'" "mapper_inv n arr pml4 s' fs'" "suffix fs' fs"
    "length fs \<le> length fs' + 3 * k"
    and tr: "\<forall>w. pml4e_index w \<noteq> 511 \<longrightarrow>
       (\<forall>j < k. indices w = indices (nth_page base j) \<longrightarrow> mapper_trans s' w = Some (nth_page phys j + take_bit 12 w)) \<and>
       ((\<forall>j < k. indices w \<noteq> indices (nth_page base j)) \<longrightarrow> mapper_trans s' w = mapper_trans s w)"
    using loader_mapper.maps_each [OF inv phys(1) pages(3) each inj none] unfolding map_range_def by blast
  have "mapper_trans s' (base + of_nat d) = Some (phys + of_nat d)" if d: "d < 4096 * k" for d
  proof -
    obtain j e where j: "j < k" "e < 4096" "\<And>u. u + of_nat d = nth_page u j + of_nat e" using page_list_byte [OF d] by metis
    then show ?thesis using tr page_byte [OF nth_page_aligned [OF pages(3)] j(2)] each by simp
  qed
  moreover have "mapper_trans s' w = mapper_trans s w" if w: "pml4e_index w \<noteq> 511" "pml4e_index w \<noteq> pml4e_index base" for w
  proof -
    have "indices w \<noteq> indices (nth_page base j)" if "j < k" for j
      using w(2) pages(2) that by (auto simp: page_list_def indices_def)
    then show ?thesis using tr w(1) by blast
  qed
  ultimately show ?thesis using s' by blast
qed

section \<open>Every byte of the kernel\<close>

text \<open>What the pages of the segments have to hold, page by page.\<close>

definition image_contents :: "mem \<Rightarrow> vaddr_t \<Rightarrow> elf64_phdr list \<Rightarrow> vaddr_t \<Rightarrow> nat \<Rightarrow> u8" where
  "image_contents m img phs u d =
     (case find (\<lambda>ph. u \<in> set (segment_pages ph)) phs of
        None \<Rightarrow> 0
      | Some ph \<Rightarrow> m (img + p_offset ph + (u - p_vaddr ph) + of_nat d))"

lemma concat_owner:
  assumes "distinct (concat (map f xs))" and "x \<in> set xs" and "y \<in> set xs" and "u \<in> set (f x)" and "u \<in> set (f y)"
  shows "x = y"
  using assms by (induction xs) auto

lemma image_contents_page:
  assumes "distinct (concat (map segment_pages phs))" and "ph \<in> set phs" and "p_type ph = PT_LOAD" and "j < pages_below (p_memsz ph)"
  shows "image_contents m img phs (nth_page (p_vaddr ph) j) d = m (nth_page (img + p_offset ph) j + of_nat d)"
proof -
  let ?u = "nth_page (p_vaddr ph) j"
  have u: "?u \<in> set (segment_pages ph)" using assms(3,4) by (simp add: segment_pages_def page_list_def)
  then obtain q where q: "find (\<lambda>ph. ?u \<in> set (segment_pages ph)) phs = Some q"
    using assms(2) by (cases "find (\<lambda>ph. ?u \<in> set (segment_pages ph)) phs") (auto simp: find_None_iff)
  then have "q = ph" using concat_owner [OF assms(1) _ assms(2) _ u, of q] by (auto simp: find_Some_iff)
  then show ?thesis using q by (simp add: image_contents_def nth_page_def)
qed

text \<open>The image: headers and data of all segments lie outside the free pages.\<close>

definition image_clear :: "loader \<Rightarrow> mem \<Rightarrow> vaddr_t list \<Rightarrow> vaddr_t \<Rightarrow> vaddr_t list \<Rightarrow> bool" where
  "image_clear s m fs img as \<longleftrightarrow> (\<forall>a \<in> set as. (\<forall>d < 56. \<not> in_pages s fs (a + of_nat d)) \<and>
     segment_ok img (read_phdr m a) \<and>
     (\<forall>d < 4096 * length (segment_pages (read_phdr m a)). \<not> in_pages s fs (img + p_offset (read_phdr m a) + of_nat d)))"

lemma image_clear_source:
  assumes "image_clear s m fs img as" and "distinct (concat (map segment_pages (map (read_phdr m) as)))" and "a \<in> set as"
  shows "segment_source s m fs (image_contents m img (map (read_phdr m) as)) img (read_phdr m a)"
  unfolding segment_source_def
proof (intro impI allI)
  let ?ph = "read_phdr m a"
  fix j d :: nat
  assume h: "p_type ?ph = PT_LOAD" "j < pages_below (p_memsz ?ph)" "d < 4096"
  have "4096 * j + d < 4096 * length (segment_pages ?ph)" using h by (simp add: segment_pages_def page_list_def)
  moreover have "nth_page (img + p_offset ?ph) j + of_nat d = img + p_offset ?ph + of_nat (4096 * j + d)"
    by (simp add: nth_page_def algebra_simps)
  ultimately have "\<not> in_pages s fs (nth_page (img + p_offset ?ph) j + of_nat d)"
    using assms(1,3) unfolding image_clear_def by metis
  then show "\<not> in_pages s fs (nth_page (img + p_offset ?ph) j + of_nat d) \<and>
      m (nth_page (img + p_offset ?ph) j + of_nat d) =
      image_contents m img (map (read_phdr m) as) (nth_page (p_vaddr ?ph) j) d"
    using image_contents_page [OF assms(2) _ h(1,2), of m img d] assms(3) by simp
qed

text \<open>A segment is in place: each of its bytes is found at its virtual address.\<close>

definition segment_in_place :: "loader \<Rightarrow> mem \<Rightarrow> mem \<Rightarrow> vaddr_t \<Rightarrow> elf64_phdr \<Rightarrow> bool" where
  "segment_in_place s m' m img ph \<longleftrightarrow> (p_type ph = PT_LOAD \<longrightarrow> (\<forall>d < unat (p_memsz ph).
     \<exists>b. mapper_trans s (p_vaddr ph + of_nat d) = Some b \<and> m' b = m (img + p_offset ph + of_nat d)))"

lemma page_holds_segment:
  assumes "\<forall>u \<in> set (segment_pages ph). page_holds s m' fs u (g u)"
    and "\<forall>j < pages_below (p_memsz ph). \<forall>d < 4096. g (nth_page (p_vaddr ph) j) d = m (nth_page (img + p_offset ph) j + of_nat d)"
  shows "segment_in_place s m' m img ph"
  unfolding segment_in_place_def
proof (intro impI allI)
  fix d assume h: "p_type ph = PT_LOAD" "d < unat (p_memsz ph)"
  have "d < 4096 * pages_below (p_memsz ph)" using h(2) unfolding pages_below_def by linarith
  then obtain j e where j: "j < pages_below (p_memsz ph)" "e < 4096" "\<And>u. u + of_nat d = nth_page u j + of_nat e"
    "\<And>u. nth_page u j \<in> set (page_list u (pages_below (p_memsz ph)))" using page_list_byte by metis
  then have "page_holds s m' fs (nth_page (p_vaddr ph) j) (g (nth_page (p_vaddr ph) j))"
    using assms(1) h(1) by (simp add: segment_pages_def)
  then show "\<exists>b. mapper_trans s (p_vaddr ph + of_nat d) = Some b \<and> m' b = m (img + p_offset ph + of_nat d)"
    unfolding page_holds_def j(3) using assms(2) j(1,2) by metis
qed

lemma load_segments_bytes:
  fixes m :: mem and as' :: "vaddr_t list"
  defines "us \<equiv> concat (map segment_pages (map (read_phdr m) as'))"
  assumes inv: "mapper_inv n arr pml4 s fs" "4 * length us \<le> length fs" and clear: "image_clear s m fs img as'"
    and map: "mappable s us"
  shows "\<exists>s' m' fs'. load_segments s m img as' = Inr (s', m') \<and> mapper_inv n arr pml4 s' fs' \<and> suffix fs' fs \<and>
    length fs \<le> length fs' + 4 * length us \<and> (\<forall>a \<in> set as'. segment_in_place s' m' m img (read_phdr m a)) \<and>
    (\<forall>b. \<not> in_pages s fs b \<longrightarrow> m' b = m b) \<and>
    (\<forall>w. pml4e_index w \<noteq> 511 \<longrightarrow> (\<forall>u \<in> set us. indices w \<noteq> indices u) \<longrightarrow> mapper_trans s' w = mapper_trans s w)"
proof -
  let ?g = "image_contents m img (map (read_phdr m) as')"
  have distinct: "distinct (concat (map segment_pages (map (read_phdr m) as')))"
    using map by (simp add: mappable_def us_def distinct_map)
  have "\<forall>a \<in> set as'. segment_ok img (read_phdr m a) \<and> segment_source s m fs ?g img (read_phdr m a) \<and>
      (\<forall>d < 56. \<not> in_pages s fs (a + of_nat d))"
    using clear image_clear_source [OF clear distinct] by (simp add: image_clear_def)
  then obtain s' m' fs' where l: "load_segments s m img as' = Inr (s', m')" "length fs \<le> length fs' + 4 * length us"
    "loads n arr pml4 ?g us (s, m, fs) (s', m', fs')"
    using load_segments_loads [OF inv(1), of m as' img ?g] inv(2) map unfolding us_def by blast
  have "segment_in_place s' m' m img (read_phdr m a)" if a: "a \<in> set as'" for a
  proof (cases "p_type (read_phdr m a) = PT_LOAD")
    case True
    have "\<forall>u \<in> set (segment_pages (read_phdr m a)). page_holds s' m' fs' u (?g u)" using l(3) a by (auto simp: us_def)
    then show ?thesis
      by (rule page_holds_segment) (use image_contents_page [OF distinct _ True] a in simp)
  qed (simp add: segment_in_place_def)
  then show ?thesis using l by auto
qed

section \<open>Properties\<close>

text \<open>
  C10. The kernel is loaded completely. When the image is a 64-bit ELF file whose program headers are
  aligned and lie in the kernel's part of the address space, whose pages are different and not
  mapped yet, and whose headers and data are outside the free pages, with four free pages for
  each page to load, \<open>load_kernel\<close> succeeds: every byte of every loadable segment, whether mapped
  in place or copied, is found at its virtual address and is the byte of the image at that
  distance from the start of the segment (for the bytes behind the data in the file, too, so the
  zero-initialised data is not zeroed). All other addresses are translated as before and memory
  outside the free pages is unchanged.
\<close>

theorem load_kernel_in_place:
  assumes "elf_load as_ptr fuel m lits \<lparr>cx_img = 0, cx_shdr = 0, cx_phdr = 0, cx_symtab = 0, cx_strtab = 0,
      cx_is_64bits = False\<rparr> start = Inr (ctx, OK)" and "cx_is_64bits ctx"
    and "mapper_inv n arr pml4 s fs" and "image_clear s m fs (cx_img ctx) (get_phdrs m ctx)"
    and "mappable s (concat (map segment_pages (map (read_phdr m) (get_phdrs m ctx))))"
    and "4 * length (concat (map segment_pages (map (read_phdr m) (get_phdrs m ctx)))) \<le> length fs"
  shows "\<exists>s' m' fs'. load_kernel fuel s m lits start = Inr (s', m', ctx) \<and> mapper_inv n arr pml4 s' fs' \<and>
    (\<forall>a \<in> set (get_phdrs m ctx). segment_in_place s' m' m (cx_img ctx) (read_phdr m a)) \<and>
    (\<forall>b. \<not> in_pages s fs b \<longrightarrow> m' b = m b) \<and>
    (\<forall>w. pml4e_index w \<noteq> 511 \<longrightarrow>
       (\<forall>u \<in> set (concat (map segment_pages (map (read_phdr m) (get_phdrs m ctx)))). indices w \<noteq> indices u) \<longrightarrow>
       mapper_trans s' w = mapper_trans s w)"
proof -
  obtain s' m' fs' where "load_segments s m (cx_img ctx) (get_phdrs m ctx) = Inr (s', m')" "mapper_inv n arr pml4 s' fs'"
    "\<forall>a \<in> set (get_phdrs m ctx). segment_in_place s' m' m (cx_img ctx) (read_phdr m a)"
    "\<forall>b. \<not> in_pages s fs b \<longrightarrow> m' b = m b"
    "\<forall>w. pml4e_index w \<noteq> 511 \<longrightarrow>
       (\<forall>u \<in> set (concat (map segment_pages (map (read_phdr m) (get_phdrs m ctx)))). indices w \<noteq> indices u) \<longrightarrow>
       mapper_trans s' w = mapper_trans s w"
    using load_segments_bytes [OF assms(3,6,4,5)] by blast
  then show ?thesis using assms(1,2) by (auto simp: load_kernel_def)
qed

text \<open>
  An image at 0x40000 with one segment: 16 bytes in the file, 32 in memory. The string \<open>cxkernel\<close> is
  at 0x5FFF0, the command line of the module, and at 0x101000, the literal of the loader.
\<close>

definition example_ehdr :: mem where
  "example_ehdr = (\<lambda>_. 0)(0x40000 := 0x7F, 0x40001 := 0x45, 0x40002 := 0x4C, 0x40003 := 0x46, 0x40004 := 2,
     0x4001D := 0x80, 0x4001E := 0xFF, 0x4001F := 0xFF, 0x40020 := 0x40, 0x40038 := 1)"

definition example_phdr :: mem where
  "example_phdr = (\<lambda>_. 0)(0x40040 := 1, 0x40044 := 5, 0x40049 := 0x10, 0x40055 := 0x80, 0x40056 := 0xFF, 0x40057 := 0xFF,
     0x40060 := 0x10, 0x40068 := 0x20, 0x40071 := 0x10)"

definition example_strings :: mem where
  "example_strings = (\<lambda>_. 0)(0x5FFF0 := 0x63, 0x5FFF1 := 0x78, 0x5FFF2 := 0x6B, 0x5FFF3 := 0x65, 0x5FFF4 := 0x72, 0x5FFF5 := 0x6E,
     0x5FFF6 := 0x65, 0x5FFF7 := 0x6C, 0x101000 := 0x63, 0x101001 := 0x78, 0x101002 := 0x6B, 0x101003 := 0x65, 0x101004 := 0x72,
     0x101005 := 0x6E, 0x101006 := 0x65, 0x101007 := 0x6C)"

definition example_image :: mem where
  "example_image a =
     (if a < 0x40040 then example_ehdr a else if a < 0x40078 then example_phdr a
      else if a = 0x41000 then 0xF4 else if a = 0x41010 then 0xCC else example_strings a)"

lemmas example_bytes = example_image_def example_ehdr_def example_phdr_def example_strings_def

definition example_header :: elf64_phdr where
  "example_header = \<lparr>p_type = PT_LOAD, p_flags = 5, p_offset = 0x1000, p_vaddr = 0xFFFF800000000000,
     p_paddr = 0, p_filesz = 0x10, p_memsz = 0x20, p_align = 4096\<rparr>"

definition example_lits :: literals where
  "example_lits = \<lparr>lit_null = 0x50000, lit_symtab = 0x50010, lit_strtab = 0x50020\<rparr>"

definition example_ctx :: elf_context where
  "example_ctx = \<lparr>cx_img = 0x40000, cx_shdr = 0x40000, cx_phdr = 0x40040, cx_symtab = 0, cx_strtab = 0, cx_is_64bits = True\<rparr>"

lemma load_le_bytes:
  "load_le m p 2 = ucast (m p) + 256 * ucast (m (p + 1))"
  "load_le m p 4 = ucast (m p) + 256 * (ucast (m (p + 1)) + 256 * (ucast (m (p + 2)) + 256 * ucast (m (p + 3))))"
  "load_le m p 8 = ucast (m p) + 256 * (ucast (m (p + 1)) + 256 * (ucast (m (p + 2)) + 256 * (ucast (m (p + 3)) +
     256 * (ucast (m (p + 4)) + 256 * (ucast (m (p + 5)) + 256 * (ucast (m (p + 6)) + 256 * ucast (m (p + 7))))))))"
  by (simp_all add: eval_nat_numeral add.assoc)

lemma example_image_headers:
  "read_phdr example_image 0x40040 = example_header"
  "e_phoff (read_ehdr example_image 0x40000) = 64" "e_shoff (read_ehdr example_image 0x40000) = 0"
  "e_phnum (read_ehdr example_image 0x40000) = 1" "e_shnum (read_ehdr example_image 0x40000) = 0"
  unfolding read_phdr_def read_ehdr_def elf64_ehdr.select_convs
  unfolding rd16_def rd32_def rd64_def example_header_def PT_LOAD_def load_le_bytes
  by (simp_all add: example_bytes)

lemma example_image_elf:
  "elf_load as_ptr fuel example_image example_lits \<lparr>cx_img = 0, cx_shdr = 0, cx_phdr = 0, cx_symtab = 0, cx_strtab = 0,
     cx_is_64bits = False\<rparr> 0x40000 = Inr (example_ctx, OK)"
proof -
  have "is_valid_elf example_image 0x40000" "example_image (0x40000 + EI_CLASS) = 2"
    by (simp_all add: is_valid_elf_def EI_CLASS_def example_bytes)
  then show ?thesis
    by (simp add: elf_load_def load64_def find_section_def example_ctx_def example_image_headers as_ptr_def Let_def)
qed

lemma example_phdrs: "get_phdrs example_image example_ctx = [0x40040]"
  by (simp add: get_phdrs_def example_ctx_def example_image_headers)

lemma example_segment_pages: "segment_pages example_header = [kernel_base]"
  by (simp add: segment_pages_def page_list_def pages_below_def example_header_def kernel_window)

lemma example_segment_ok: "segment_ok 0x40000 example_header"
  by (simp add: segment_ok_def example_header_def kernel_window pages_below_def)

lemma kernel_base_aligned: "kernel_base mod page_size64 = 0"
  by (simp add: kernel_window(1))

lemma offset_not_in:
  assumes "\<forall>x \<in> set fs. unat (page_of s x) + 4096 \<le> lim \<or> hi \<le> unat (page_of s x)"
    and "lim \<le> unat a" and "unat a + d < hi" and "hi \<le> 2 ^ 64"
  shows "\<not> in_pages s fs (a + of_nat d)"
proof -
  have "unat (a + of_nat d) = unat a + d" using assms(3,4) by (simp add: unat_word_ariths unat_of_nat)
  then show ?thesis using assms(1-3) by (fastforce simp: in_pages_def in_range_def)
qed

lemma example_image_clear:
  assumes "\<forall>x \<in> set fs. unat (page_of s x) + 4096 \<le> 0x40000 \<or> 0x42000 \<le> unat (page_of s x)"
  shows "image_clear s example_image fs 0x40000 [0x40040]"
  using offset_not_in [OF assms] example_segment_ok
  by (simp add: image_clear_def example_image_headers example_segment_pages) (simp add: example_header_def)

theorem load_kernel_in_place_witness:
  "\<exists>s' m'. load_kernel 9 example_paging example_image example_lits 0x40000 = Inr (s', m', example_ctx) \<and>
     (\<exists>b. mapper_trans s' 0xFFFF800000000010 = Some b \<and> m' b = 0xCC)"
proof -
  have inv: "mapper_inv 7 0x10000 0x8000 example_paging example_nodes"
    using example_paging_inv by (auto simp: mapper_inv_def example_paging_def)
  have "\<forall>x \<in> set example_nodes. unat (page_of example_paging x) + 4096 \<le> 0x40000"
    by (simp add: example_nodes_def page_of_def node_index_def example_paging_def)
  then have clear: "image_clear example_paging example_image example_nodes 0x40000 [0x40040]" by (intro example_image_clear) blast
  have map: "mappable example_paging [kernel_base]"
    using kernel_window(3) kernel_base_aligned by (simp add: mappable_def mapper_trans_def example_paging_unmapped)
  have ctx: "cx_img example_ctx = 0x40000" "cx_is_64bits example_ctx" by (simp_all add: example_ctx_def)
  obtain s' m' fs' where l: "load_kernel 9 example_paging example_image example_lits 0x40000 = Inr (s', m', example_ctx)"
    "segment_in_place s' m' example_image 0x40000 example_header"
    using load_kernel_in_place [OF example_image_elf [of 9] ctx(2) inv] clear map
    by (auto simp: ctx(1) example_phdrs example_image_headers example_segment_pages example_nodes_def)
  have h: "p_type example_header = PT_LOAD" "16 < unat (p_memsz example_header)" "p_vaddr example_header = 0xFFFF800000000000"
    "p_offset example_header = 0x1000" by (simp_all add: example_header_def)
  have "\<exists>b. mapper_trans s' (p_vaddr example_header + of_nat 16) = Some b \<and>
      m' b = example_image (0x40000 + p_offset example_header + of_nat 16)"
    using l(2) h(1,2) unfolding segment_in_place_def by blast
  then show ?thesis using l(1) by (auto simp: h example_bytes)
qed

end
