(* ===== verification/Core_Main.thy ===== *)
theory Core_Main
  imports Loader_Main
begin

text \<open>
  The start of the kernel, \<open>core/main.cc\<close>, up to the architecture's initialisation, and the
  hand-over between the loader and the kernel: the kernel sees the page frame database through
  the page tables the loader built, at the address \<open>kernel_pfndb_base\<close>, with the links the
  loader has relocated.
\<close>

section \<open>What the kernel receives\<close>

text \<open>The references \<open>g::pfndb_freelist\<close>, \<open>g::pfndb_rsrvlist\<close>, \<dots> into the saved loader state.\<close>

definition kernel_pmm :: "list_heap \<Rightarrow> loader_state \<Rightarrow> pmm" where
  "kernel_pmm h st =
     \<lparr>pm_links = h, pm_free = ls_freelist st, pm_rsrv = ls_rsrvlist st, pm_total = ls_total st, pm_arr = ls_arr st\<rparr>"

text \<open>The links at a kernel address are those of the physical page it is mapped to.\<close>

definition kernel_links :: "(paddr_t \<Rightarrow> u64) \<Rightarrow> paddr_t \<Rightarrow> list_heap \<Rightarrow> list_heap" where
  "kernel_links m pml4 h =
     \<lparr>nexts = (\<lambda>v. case translate m pml4 v of None \<Rightarrow> nullptr | Some a \<Rightarrow> nexts h a),
      prevs = (\<lambda>v. case translate m pml4 v of None \<Rightarrow> nullptr | Some a \<Rightarrow> prevs h a)\<rparr>"

text \<open>The checks of \<open>kernel_entry\<close> on the loader state and on the database.\<close>

definition kernel_entry_check :: "nat \<Rightarrow> list_heap \<Rightarrow> loader_state \<Rightarrow> pmm exec" where
  "kernel_entry_check fuel h st =
     guardE (ls_magic_start st = LOADER_ABI_MAGIC_START \<and> ls_magic_end st = LOADER_ABI_MAGIC_END) AssertFailed
     (let p = kernel_pmm h st in
      bindE (list_size fuel (pm_links p) (pm_free p)) (\<lambda>x.
      bindE (list_size fuel (pm_links p) (pm_rsrv p)) (\<lambda>y.
      guardE (x + y = pm_total p) AssertFailed (Inr p))))"

section \<open>Addresses in the kernel's database window\<close>

lemma kernel_pfndb_base_eq: "kernel_pfndb_base = 0xFFFF810000000000"
  by code_simp

lemma pfndb_slot: "take_bit 39 kernel_pfndb_base = 0" "pml4e_index kernel_pfndb_base \<noteq> 511"
  by (simp add: kernel_pfndb_base_eq) code_simp

section \<open>Relocation\<close>

lemma seg_shift:
  assumes "seg h xs" and "nullptr \<notin> set xs"
    and "\<forall>x \<in> set xs. nexts h' (x + off) = list_shift (nexts h x) off \<and> prevs h' (x + off) = list_shift (prevs h x) off"
  shows "seg h' (map (\<lambda>x. x + off) xs)"
  using assms by (induction h xs rule: seg.induct) (auto simp: list_shift_def)

lemma ilist_shift:
  assumes "ilist h r xs" and "\<forall>x \<in> set xs. x + off \<noteq> nullptr"
    and "\<forall>x \<in> set xs. nexts h' (x + off) = list_shift (nexts h x) off \<and> prevs h' (x + off) = list_shift (prevs h x) off"
  shows "ilist h' (list_shift r off) (map (\<lambda>x. x + off) xs)"
proof (cases "xs = []")
  case True
  then show ?thesis using assms(1) by (simp add: ilist_def list_shift_def)
next
  case False
  have h: "distinct xs" "nullptr \<notin> set xs" "r = hd xs" "seg h (xs @ [hd xs])"
    using assms(1) False by (simp_all add: ilist_def cyc_def)
  have "set (xs @ [hd xs]) = set xs" using False by auto
  then have "seg h' (map (\<lambda>x. x + off) (xs @ [hd xs]))"
    using seg_shift [OF h(4)] h(2) assms(3) by metis
  moreover have "list_shift r off = hd (map (\<lambda>x. x + off) xs)" "hd (map (\<lambda>x. x + off) xs) = hd xs + off"
    using h(2,3) False by (cases xs; simp add: list_shift_def)+
  moreover have "distinct (map (\<lambda>x. x + off) xs)" using h(1) by (simp add: distinct_map)
  ultimately show ?thesis using False assms(2) by (auto simp: ilist_def cyc_def)
qed

lemma shift_pages_links:
  assumes "distinct (map (page_at arr) (page_nums i n))"
  shows "nexts (shift_pages n i h arr off) x =
      (if x \<in> page_at arr ` set (page_nums i n) then list_shift (nexts h x) off else nexts h x)"
    and "prevs (shift_pages n i h arr off) x =
      (if x \<in> page_at arr ` set (page_nums i n) then list_shift (prevs h x) off else prevs h x)"
  using assms by (induction n arbitrary: i h) (auto simp: node_shift_def list_shift_def)

section \<open>The hand-over\<close>

lemma pfndb_window:
  assumes "unat arr + n * 32 < 2 ^ 32" and "i < n"
  shows "page_at arr (of_nat i) + (kernel_pfndb_base - arr) = kernel_pfndb_base + of_nat (i * 32)"
proof -
  let ?x = "page_at arr (of_nat i)"
  have "?x = of_nat (unat ?x)" by simp
  then have x: "?x = arr + of_nat (i * 32)" by (simp only: unat_page_at [OF assms] of_nat_add) simp
  then show "?x + (kernel_pfndb_base - arr) = kernel_pfndb_base + of_nat (i * 32)" by simp
qed

text \<open>
  The kernel's view of a database mapped page by page: it holds the loader's lists, relocated.
\<close>

lemma kernel_view_lists:
  fixes p :: pmm
  defines "off \<equiv> kernel_pfndb_base - pm_arr p"
  assumes inv: "pmm_inv p fs rs" and bound: "unat (pm_arr p) + n * 32 < 2 ^ 32" and n: "n \<le> 2 ^ 20"
    and total: "pm_total p = of_nat n"
    and nodes: "\<forall>x \<in> set fs \<union> set rs. \<exists>i < n. x = page_at (pm_arr p) (of_nat i)"
    and win: "\<forall>i < n. translate m pml4 (kernel_pfndb_base + of_nat (i * 32)) = Some (page_at (pm_arr p) (of_nat i))"
    and hand: "hand_over p elf = (links, st)"
  shows "pmm_inv (kernel_pmm (kernel_links m pml4 links) st) (map (\<lambda>x. x + off) fs) (map (\<lambda>x. x + off) rs)"
proof -
  let ?h = "kernel_links m pml4 links"
  have "unat (of_nat n :: u64) = n" using n by (simp add: unat_of_nat)
  then have lk: "links = shift_pages n 0 (pm_links p) (pm_arr p) off"
    "ls_freelist st = list_shift (pm_free p) off" "ls_rsrvlist st = list_shift (pm_rsrv p) off"
    using hand by (auto simp: hand_over_def Let_def total off_def)
  have shifted: "x + off \<noteq> nullptr \<and> nexts ?h (x + off) = list_shift (nexts (pm_links p) x) off \<and>
      prevs ?h (x + off) = list_shift (prevs (pm_links p) x) off" if x: "x \<in> set fs \<union> set rs" for x
  proof -
    obtain i where i: "i < n" "x = page_at (pm_arr p) (of_nat i)" using bspec [OF nodes x] by blast
    have v: "x + off = kernel_pfndb_base + of_nat (i * 32)" using pfndb_window [OF bound i(1)] by (simp add: i(2) off_def)
    have "pml4e_index (x + off) = pml4e_index kernel_pfndb_base"
      unfolding v using i(1) n by (intro slot_pml4e [OF pfndb_slot(1)]) simp
    moreover have "pml4e_index kernel_pfndb_base \<noteq> pml4e_index nullptr" by code_simp
    ultimately have "x + off \<noteq> nullptr" by auto
    moreover have "x \<in> page_at (pm_arr p) ` set (page_nums 0 n)" using i by (auto simp: page_nums_eq)
    moreover have "translate m pml4 (x + off) = Some x" unfolding v using win i by simp
    ultimately show ?thesis
      using shift_pages_links [OF page_at_distinct [OF bound], of "pm_links p" off x]
      by (simp add: kernel_links_def lk(1))
  qed
  have "ilist ?h (list_shift (pm_free p) off) (map (\<lambda>x. x + off) fs)"
    by (rule ilist_shift) (use inv shifted in \<open>auto simp: pmm_inv_def\<close>)
  moreover have "ilist ?h (list_shift (pm_rsrv p) off) (map (\<lambda>x. x + off) rs)"
    by (rule ilist_shift) (use inv shifted in \<open>auto simp: pmm_inv_def\<close>)
  ultimately show ?thesis using inv by (auto simp: pmm_inv_def kernel_pmm_def lk(2,3))
qed
lemma kernel_view_check:
  assumes "pmm_inv (kernel_pmm h st) fs rs" and "length fs + length rs = n" and "n < fuel"
    and "ls_total st = of_nat n" and "ls_magic_start st = LOADER_ABI_MAGIC_START"
    and "ls_magic_end st = LOADER_ABI_MAGIC_END"
  shows "kernel_entry_check fuel h st = Inr (kernel_pmm h st)"
proof -
  have "list_size fuel h (ls_freelist st) = Inr (of_nat (length fs))"
    "list_size fuel h (ls_rsrvlist st) = Inr (of_nat (length rs))"
    using assms(1-3) by (auto simp: pmm_inv_def kernel_pmm_def intro: list_size_ilist)
  moreover have "of_nat (length fs) + of_nat (length rs) = (of_nat n :: u64)" using assms(2) by auto
  ultimately show ?thesis using assms(4-6) by (simp add: kernel_entry_check_def kernel_pmm_def Let_def)
qed

section \<open>Physical addresses of pages in the kernel\<close>

text \<open>A pointer difference in bytes that is a multiple of the size of \<open>Page\<close>.\<close>

lemma page_difference:
  fixes a :: u64
  assumes "take_bit 5 a = 0"
  shows "signed_drop_bit 5 a * page_size64 = a * 128"
proof -
  have low: "\<not> bit a n" if "n < 5" for n
    using that assms bit_take_bit_iff [of 5 a n] by simp
  have "push_bit 12 (signed_drop_bit 5 a) = push_bit 7 a"
  proof (rule bit_eqI)
    fix n assume n: "possible_bit TYPE(u64) n"
    show "bit (push_bit 12 (signed_drop_bit 5 a)) n = bit (push_bit 7 a) n"
    proof (cases "12 \<le> n")
      case True
      then have "5 + (n - 12) = n - 7" by simp
      then show ?thesis using n True by (auto simp: bit_push_bit_iff bit_signed_drop_bit_iff)
    next
      case False
      then show ?thesis using low [of "n - 7"] by (auto simp: bit_push_bit_iff)
    qed
  qed
  then show ?thesis by (simp add: push_bit_eq_mult mult.commute)
qed

lemma page_aligned_sum:
  fixes a b c :: u64
  assumes "take_bit 5 a = 0" and "take_bit 5 b = 0" and "take_bit 5 c = 0"
  shows "take_bit 5 (a + b - c) = 0"
proof -
  have iff: "take_bit 5 w = 0 \<longleftrightarrow> 32 dvd uint w" for w :: u64
    by (simp add: word_uint_eq_iff take_bit_eq_mod uint_mod_distrib dvd_eq_mod_eq_0)
  have "32 dvd (uint a + uint b - uint c) mod 2 ^ 64" using assms by (simp add: iff dvd_mod_iff)
  then show ?thesis by (simp add: iff uint_word_ariths mod_diff_left_eq)
qed

text \<open>
  The loader does not relocate the pointer \<open>pfndb_arr\<close> it hands over. The kernel's pages are at
  relocated addresses, so \<open>Page::paddr\<close>, which subtracts \<open>pfndb_arr\<close>, is off by the relocation
  for every page.
\<close>

theorem handoff_paddr_wrong:
  assumes "hand_over p elf = (links, st)" and "unat (pm_arr p) + n * 32 < 2 ^ 32" and "i < n"
    and "take_bit 5 (pm_arr p) = 0"
  shows "paddr (kernel_pmm h st) (page_at (pm_arr p) (of_nat i) + (kernel_pfndb_base - pm_arr p)) =
      paddr p (page_at (pm_arr p) (of_nat i)) + (kernel_pfndb_base - pm_arr p) * 128"
    and "(kernel_pfndb_base - pm_arr p) * 128 \<noteq> 0"
proof -
  let ?arr = "pm_arr p"
  have low: "take_bit 5 (of_nat (i * 32) :: u64) = 0" "take_bit 5 kernel_pfndb_base = 0"
    by (simp_all only: take_bit_of_nat) (simp_all add: take_bit_eq_mod kernel_pfndb_base_eq)
  have x: "page_at ?arr (of_nat i) - ?arr = of_nat (i * 32)"
    using pfndb_window [OF assms(2,3)] by (simp add: algebra_simps)
  then have one: "paddr p (page_at ?arr (of_nat i)) = of_nat (i * 32) * 128"
    using page_difference [OF low(1)] by (simp add: paddr_def)
  have sum: "take_bit 5 (kernel_pfndb_base + of_nat (i * 32) - ?arr) = 0"
    by (rule page_aligned_sum [OF low(2,1) assms(4)])
  have "page_at ?arr (of_nat i) + (kernel_pfndb_base - ?arr) - pm_arr (kernel_pmm h st) =
      kernel_pfndb_base + of_nat (i * 32) - ?arr"
    using assms(1) pfndb_window [OF assms(2,3)] by (auto simp: hand_over_def Let_def kernel_pmm_def)
  then have "paddr (kernel_pmm h st) (page_at ?arr (of_nat i) + (kernel_pfndb_base - ?arr)) =
      (kernel_pfndb_base + of_nat (i * 32) - ?arr) * 128"
    unfolding paddr_def by (simp only: page_difference [OF sum])
  then show "paddr (kernel_pmm h st) (page_at ?arr (of_nat i) + (kernel_pfndb_base - ?arr)) =
      paddr p (page_at ?arr (of_nat i)) + (kernel_pfndb_base - ?arr) * 128"
    unfolding one by (simp add: algebra_simps)
  show "(kernel_pfndb_base - ?arr) * 128 \<noteq> 0"
  proof
    assume "(kernel_pfndb_base - ?arr) * 128 = 0"
    then have "?arr * 128 = kernel_pfndb_base * 128" by (simp add: algebra_simps)
    then have "unat (?arr * 128) = unat (kernel_pfndb_base * 128)" by simp
    moreover have "unat (?arr * 128) = unat ?arr * 128" using assms(2) by (simp add: unat_word_ariths)
    ultimately show False using assms(2) by (simp add: kernel_pfndb_base_eq)
  qed
qed

end
