(* ===== verification/Loader_Boot.thy ===== *)
theory Loader_Boot
  imports Loader_Load Core_Main
begin

text \<open>
  The whole of the loader's \<open>main\<close> (\<open>loader/x86-64-multiboot2/main.cc\<close>): from the allocation of the
  page frame database to the jump into the kernel. The parts are those of the theories below:
  \<open>bootstrap_pmm\<close>, \<open>setup_paging\<close>, the identity map, the kernel's segments, the stack, the map of the
  database and its relocation. Each part of the address space that is built has its own entries of
  the PML4: 0 for the identity map, 256 for the kernel and its stack, 258 for the database, so
  that no part disturbs another.
\<close>

section \<open>The size of the database is kept\<close>

lemma alloc_sz: "pmm_alloc_page s = Inr (s', p) \<Longrightarrow> ld_sz_pgs s' = ld_sz_pgs s"
  by (auto simp: pmm_alloc_page_def exec_simps clear_memory_def Let_def)

lemma next_table_sz: "next_table s t i flags = Inr (s', u) \<Longrightarrow> ld_sz_pgs s' = ld_sz_pgs s"
  by (auto simp: next_table_def exec_simps Let_def alloc_sz split: if_splits)

lemma map_page_sz: "map_page s p v flags = Inr s' \<Longrightarrow> ld_sz_pgs s' = ld_sz_pgs s"
  by (auto simp: map_page_def exec_simps Let_def next_table_sz split: if_splits)

lemma map_range_sz: "map_range k s p v flags = Inr s' \<Longrightarrow> ld_sz_pgs s' = ld_sz_pgs s"
  unfolding map_range_def by (induction k arbitrary: s p v) (auto simp: exec_simps map_page_sz)

lemma load_pages_sz: "load_pages k s m i p v sz flags = Inr (s', m') \<Longrightarrow> ld_sz_pgs s' = ld_sz_pgs s"
  by (induction k arbitrary: s m i) (auto simp: exec_simps Let_def map_page_sz alloc_sz)

lemma load_segment_sz: "load_segment s m img ph = Inr (s', m') \<Longrightarrow> ld_sz_pgs s' = ld_sz_pgs s"
  by (auto simp: load_segment_def exec_simps Let_def load_pages_sz map_range_sz split: if_splits)

lemma load_segments_sz: "load_segments s m img as = Inr (s', m') \<Longrightarrow> ld_sz_pgs s' = ld_sz_pgs s"
  by (induction "as" arbitrary: s m) (auto simp: exec_simps load_segment_sz)

lemma setup_paging_sz: "setup_paging s = Inr (s', p) \<Longrightarrow> ld_sz_pgs s' = ld_sz_pgs s"
  by (auto simp: setup_paging_def exec_simps Let_def clear_memory_def alloc_sz)

lemma setup_paging_arr:
  assumes "setup_paging s = Inr (s', p)"
  shows "pm_arr (ld_pmm s') = pm_arr (ld_pmm s)"
proof -
  have "pm_arr (ld_pmm t') = pm_arr (ld_pmm t)" if "pmm_alloc_page t = Inr (t', q)" for t t' q
    using that by (auto simp: pmm_alloc_page_def exec_simps clear_memory_def Let_def)
  then show ?thesis using assms by (auto simp: setup_paging_def exec_simps Let_def clear_memory_def)
qed

section \<open>From the allocation to the invariant\<close>

text \<open>A page of the database is in no free page: its page frame is reserved.\<close>

lemma database_reserved:
  assumes "2 < length (ld_reserved s1)" and "ld_sz_bytes s1 = of_nat (n * 32)" and "unat (pm_arr (ld_pmm s1)) + n * 32 < 2 ^ 32"
    and "pm_arr (ld_pmm s1) mod page_size64 = 0" and "i < 2 ^ 20" and "k < n"
    and "4096 * i \<le> unat (pm_arr (ld_pmm s1)) + k * 32" and "unat (pm_arr (ld_pmm s1)) + k * 32 < 4096 * i + 4096"
  shows "is_page_reserved (pfndb_ranges s1) (of_nat i)"
proof -
  let ?arr = "pm_arr (ld_pmm s1)" and ?r = "\<lparr>rg_begin = pm_arr (ld_pmm s1), rg_end = pm_arr (ld_pmm s1) + ld_sz_bytes s1\<rparr>"
  have "unat ?arr mod 4096 = 0" using assms(4) by (simp add: word_unat_eq_iff unat_mod_distrib)
  then obtain q where q: "unat ?arr = 4096 * q" by (auto simp: mod_eq_0_iff_dvd elim: dvdE)
  then have "q < i + 1" using assms(8) by linarith
  then have arr: "unat ?arr \<le> 4096 * i" using q by simp
  have "unat (of_nat i * page_size64 :: u64) = 4096 * i" using assms(5) by (simp add: unat_word_ariths unat_of_nat)
  then have p: "unat (ucast (ucast (of_nat i * page_size64 :: u64) :: u32) :: u64) = 4096 * i"
    using assms(5) by (simp add: unat_ucast_widen unsigned_ucast_eq unsigned_take_bit_eq take_bit_nat_eq_self del: page_size64_eq)
  have e: "unat (?arr + ld_sz_bytes s1) = unat ?arr + n * 32"
    using assms(3) by (simp add: assms(2) unat_word_ariths unat_of_nat del: of_nat_mult)
  have "?r \<in> set (pfndb_ranges s1)"
    using assms(1) unfolding pfndb_ranges_def by (simp add: set_update_memI)
  moreover have "is_in (ucast (of_nat i * page_size64)) ?r"
    using p e arr assms(6,7) by (simp add: is_in_def word_le_nat_alt word_less_nat_alt del: page_size64_eq)
  ultimately show ?thesis unfolding is_page_reserved_def list_ex_iff by blast
qed

text \<open>The state after \<open>bootstrap_pmm\<close> satisfies the invariant under which pages are allocated.\<close>

lemma bootstrap_loader_inv:
  fixes s1 :: loader
  defines "n \<equiv> unat (pm_total (ld_pmm s1))" and "arr \<equiv> pm_arr (ld_pmm s1)"
  defines "fs \<equiv> free_nodes (pfndb_ranges s1) arr 0 n"
  assumes alloc: "bootstrap_alloc fuel b s res mmap = Inr s1" and len: "length (ld_reserved s) = 4"
    and lists: "pm_free (ld_pmm s1) = nullptr" "pm_rsrv (ld_pmm s1) = nullptr"
    and arr: "arr \<noteq> 0" "arr mod page_size64 = 0" "unat arr + n * 32 < 2 ^ 32" and n: "n \<le> 2 ^ 20" "n < fuel"
  shows "\<exists>s' rs. bootstrap_pmm fuel b s res mmap = Inr s' \<and> loader_inv s' n fs rs \<and> distinct (map (page_of s') fs) \<and>
    pm_arr (ld_pmm s') = arr \<and> ld_sz_pgs s' = ld_sz_pgs s1"
proof -
  let ?rs = "rsrv_nodes (pfndb_ranges s1) arr 0 n"
  obtain s' where s': "bootstrap_pmm fuel b s res mmap = Inr s'" "pm_total (ld_pmm s') = pm_total (ld_pmm s1)"
    "pm_arr (ld_pmm s') = arr" "ld_sz_pgs s' = ld_sz_pgs s1" "pmm_inv (ld_pmm s') fs ?rs"
    using bootstrap_pmm_lists [OF alloc lists] arr n unfolding n_def arr_def fs_def by blast
  have nodes: "set fs \<union> set ?rs = (\<lambda>k. page_at arr (of_nat k)) ` {..<n}"
    by (auto simp: fs_def free_nodes_def rsrv_nodes_def page_nums_eq)
  have free: "\<exists>i < n. x = page_at arr (of_nat i) \<and> \<not> is_page_reserved (pfndb_ranges s1) (of_nat i)" if "x \<in> set fs" for x
    using that by (auto simp: fs_def free_nodes_def page_nums_eq)
  have page: "page_of s' (page_at arr (of_nat i)) = of_nat i * page_size64" if "i < n" for i
    unfolding page_of_def by (simp only: node_index_entry [OF arr(3) n(1) that s'(3)])
  have up: "unat (of_nat i * page_size64 :: u64) = 4096 * i" if "i < n" for i
    using that n(1) by (simp add: unat_word_ariths unat_of_nat)
  have bytes: "ld_sz_bytes s1 = of_nat (n * 32)"
    using bootstrap_alloc_sizes(1) [OF alloc] by (simp add: n_def sizeof_Page_def)
  have "\<not> in_area (page_of s' x) page_size64 y" if x: "x \<in> set fs" and y: "y \<in> set fs \<union> set ?rs" for x y
  proof
    assume area: "in_area (page_of s' x) page_size64 y"
    obtain i where i: "i < n" "x = page_at arr (of_nat i)" "\<not> is_page_reserved (pfndb_ranges s1) (of_nat i)" using free [OF x] by blast
    obtain k where k: "k < n" "y = page_at arr (of_nat k)" using y nodes by auto
    have uy: "unat y = unat arr + k * 32" using unat_page_at [OF arr(3) k(1)] k(2) by simp
    define e where "e = y - of_nat i * page_size64"
    have "unat e < 4096" using area page [OF i(1)] by (simp add: i(2) in_area_def e_def word_less_nat_alt)
    moreover have "y = of_nat i * page_size64 + e" by (simp add: e_def)
    ultimately have "unat y = 4096 * i + unat e"
      using up [OF i(1)] i(1) n(1) by (simp add: unat_word_ariths del: page_size64_eq)
    then show False
      using database_reserved [OF _ bytes _ _ _ k(1), of i] arr(2,3) i(1,3) n(1) uy \<open>unat e < 4096\<close>
        bootstrap_alloc_sizes(3) [OF alloc] len unfolding arr_def by simp
  qed
  moreover have "length fs + length ?rs = n" unfolding fs_def by (rule nodes_lengths)
  moreover have "pm_total (ld_pmm s') = of_nat n" by (simp add: s'(2) n_def)
  ultimately have "loader_inv s' n fs ?rs"
    unfolding loader_inv_def s'(3) using s'(5) arr(3) n(1) nodes by blast
  moreover have "distinct (map (page_of s') fs)"
  proof -
    have "inj_on (\<lambda>i. page_of s' (page_at arr (of_nat i))) {..<n}"
      by (rule inj_onI) (metis lessThan_iff page up mult_cancel1 zero_neq_numeral)
    then have "distinct (map (\<lambda>i. page_of s' (page_at arr (of_nat i))) [0..<n])"
      by (simp add: distinct_map atLeast0LessThan)
    then have "distinct (map (page_of s' \<circ> page_at arr) (filter (\<lambda>i. \<not> is_page_reserved (pfndb_ranges s1) i) (map of_nat [0..<n])))"
      by (intro distinct_map_filter) (simp add: comp_def)
    then show ?thesis by (simp add: fs_def free_nodes_def page_nums_eq)
  qed
  ultimately show ?thesis using s'(1,3,4) by blast
qed

section \<open>The address space\<close>

lemma image_clear_later:
  assumes "image_clear s m fs img as" and "suffix fs' fs" and "page_of s' = page_of s"
  shows "image_clear s' m fs' img as"
  using assms(1) in_pages_suffix [OF assms(2)] unfolding image_clear_def in_pages_cong [OF assms(3)] by blast

lemma kernel_addr:
  assumes "kernel_base \<le> v" and "unat v + sz < unat kernel_limit"
  shows "\<exists>a. v = kernel_base + of_nat a \<and> a + sz < 2 ^ 39"
proof (intro exI conjI)
  have le: "unat kernel_base \<le> unat v" using assms(1) by (simp add: word_le_nat_alt)
  have "of_nat (unat kernel_base + (unat v - unat kernel_base)) = v" using le by simp
  then show "v = kernel_base + of_nat (unat v - unat kernel_base)" by (simp only: of_nat_add) simp
  show "unat v - unat kernel_base + sz < 2 ^ 39" using assms le by (simp add: kernel_window)
qed

text \<open>The pages of a segment belong to the kernel's entry of the PML4.\<close>

lemma segment_slot:
  assumes "segment_ok img ph" and "u \<in> set (segment_pages ph)"
  shows "u mod page_size64 = 0" and "pml4e_index u = pml4e_index kernel_base"
proof -
  let ?k = "pages_below (p_memsz ph)"
  have load: "p_type ph = PT_LOAD" and u: "u \<in> set (page_list (p_vaddr ph) ?k)"
    using assms(2) by (simp_all add: segment_pages_def split: if_splits)
  have seg: "kernel_base \<le> p_vaddr ph" "unat (p_vaddr ph) + unat (p_memsz ph) < unat kernel_limit" "p_vaddr ph mod page_size64 = 0"
    using assms(1) load by (simp_all add: segment_ok_def)
  obtain a where a: "p_vaddr ph = kernel_base + of_nat a" "a + unat (p_memsz ph) < 2 ^ 39" using kernel_addr [OF seg(1,2)] by blast
  have "take_bit 12 (p_vaddr ph) = of_nat (a mod 4096)" using a by (simp add: slot_offset [OF kernel_slot])
  then have "unat (of_nat (a mod 4096) :: u64) = 0" using seg(3) by (simp add: take_bit_eq_mod)
  then have low: "a mod 4096 = 0" by (simp add: unat_of_nat)
  obtain q where q: "a = 4096 * q" using low by (auto simp: mod_eq_0_iff_dvd elim: dvdE)
  have "4096 * ?k < unat (p_memsz ph) + 4096" unfolding pages_below_def by linarith
  then have "4096 * (q + ?k) < 2 ^ 39 + 4096" using a(2) q by simp
  then have "q + ?k < 2 ^ 27 + 1" by simp
  then have "a + 4096 * ?k \<le> 2 ^ 39" using q by simp
  note slot = slot_pages [OF kernel_slot kernel_window(3) a(1) low this]
  show "u mod page_size64 = 0" "pml4e_index u = pml4e_index kernel_base" using slot(2,4) u by blast+
qed

lemma slots: "pml4e_index 0 = 0" "pml4e_index kernel_base = 256" "pml4e_index kernel_stack_limit = 256"
  "pml4e_index kernel_pfndb_base = 258" "kernel_stack_limit mod page_size64 = 0"
  by code_simp+

text \<open>The empty address space, and the identity map of the first two megabytes.\<close>

lemma identity_mapped:
  assumes "loader_inv s n (f # fs) rs" and "distinct (map (page_of s) (f # fs))" and "3 * 512 \<le> length fs"
  shows "\<exists>s2 pml4 s3 fs3. setup_paging s = Inr (s2, pml4) \<and> map_range 512 s2 0 0 flags_rw = Inr s3 \<and>
    mapper_inv n (pm_arr (ld_pmm s)) pml4 s3 fs3 \<and> suffix fs3 fs \<and> length fs \<le> length fs3 + 3 * 512 \<and>
    (\<forall>d < 0x200000. mapper_trans s3 (of_nat d) = Some (of_nat d)) \<and>
    (\<forall>w. pml4e_index w \<noteq> 511 \<longrightarrow> pml4e_index w \<noteq> 0 \<longrightarrow> mapper_trans s3 w = None)"
proof -
  obtain s2 T rs' where s2: "setup_paging s = Inr (s2, page_of s f)" "ld_pml4 s2 = page_of s f" "paging_inv s2 T n fs rs'"
    "\<forall>v. pml4e_index v \<noteq> 511 \<longrightarrow> mapper_trans s2 v = None"
    using setup_paging_step [OF assms(1,2)] unfolding mapper_trans_def by blast
  then have inv: "mapper_inv n (pm_arr (ld_pmm s)) (page_of s f) s2 fs"
    using setup_paging_arr [OF s2(1)] by (auto simp: mapper_inv_def)
  have "pml4e_index u \<noteq> 511" if "u \<in> set (page_list 0 512)" for u
    using slot_pages(2) [of 0 0 0 512] that slots(1) by simp
  then have "\<forall>u \<in> set (page_list 0 512). mapper_trans s2 u = None" using s2(4) by blast
  then obtain s3 fs3 where "map_range 512 s2 0 0 flags_rw = Inr s3" "mapper_inv n (pm_arr (ld_pmm s)) (page_of s f) s3 fs3"
    "suffix fs3 fs" "length fs \<le> length fs3 + 3 * 512" "\<forall>d < 4096 * 512. mapper_trans s3 (0 + of_nat d) = Some (0 + of_nat d)"
    "\<forall>w. pml4e_index w \<noteq> 511 \<longrightarrow> pml4e_index w \<noteq> pml4e_index 0 \<longrightarrow> mapper_trans s3 w = mapper_trans s2 w"
    using map_window [OF inv assms(3), of 0 0] slots(1) by auto
  then show ?thesis using s2(1,4) slots(1) by (intro exI [of _ s2] exI [of _ "page_of s f"] exI [of _ s3] exI [of _ fs3]) simp
qed

lemma segment_in_place_keep:
  assumes "segment_in_place s m' m img ph" and ok: "segment_ok img ph"
    and same: "\<And>u w. u \<in> set (segment_pages ph) \<Longrightarrow> indices w = indices u \<Longrightarrow> mapper_trans s' w = mapper_trans s w"
  shows "segment_in_place s' m' m img ph"
  unfolding segment_in_place_def
proof (intro impI allI)
  fix d assume h: "p_type ph = PT_LOAD" "d < unat (p_memsz ph)"
  have "d < 4096 * pages_below (p_memsz ph)" using h(2) unfolding pages_below_def by linarith
  then obtain j e where j: "e < 4096" "\<And>u. u + of_nat d = nth_page u j + of_nat e"
    "\<And>u. nth_page u j \<in> set (page_list u (pages_below (p_memsz ph)))" using page_list_byte by metis
  then have u: "nth_page (p_vaddr ph) j \<in> set (segment_pages ph)" using h(1) by (simp add: segment_pages_def)
  have "mapper_trans s' (p_vaddr ph + of_nat d) = mapper_trans s (p_vaddr ph + of_nat d)"
    unfolding j(2) by (rule same [OF u]) (rule page_byte(1) [OF segment_slot(1) [OF ok u] j(1)])
  then show "\<exists>b. mapper_trans s' (p_vaddr ph + of_nat d) = Some b \<and> m' b = m (img + p_offset ph + of_nat d)"
    using assms(1) h by (simp add: segment_in_place_def)
qed

text \<open>The kernel and its stack.\<close>

lemma stack_mapped:
  assumes inv: "mapper_inv n arr pml4 s fs" "4 \<le> length fs" and unused: "mapper_trans s kernel_stack_limit = None"
  shows "\<exists>s1 stack s' fs'. pmm_alloc_page s = Inr (s1, stack) \<and> map_page s1 stack kernel_stack_limit flags_rw = Inr s' \<and>
    mapper_inv n arr pml4 s' fs' \<and> suffix fs' fs \<and> length fs \<le> length fs' + 4 \<and>
    (\<forall>d < 4096. mapper_trans s' (kernel_stack_limit + of_nat d) = Some (stack + of_nat d)) \<and>
    (\<forall>w. pml4e_index w \<noteq> 511 \<longrightarrow> indices w \<noteq> indices kernel_stack_limit \<longrightarrow> mapper_trans s' w = mapper_trans s w)"
proof -
  obtain f gs where fs: "fs = f # gs" using inv(2) by (cases fs) auto
  obtain s1 where s1: "pmm_alloc_page s = Inr (s1, page_of s f)" "mapper_inv n arr pml4 s1 gs"
    "\<And>v. pml4e_index v \<noteq> 511 \<Longrightarrow> mapper_trans s1 v = mapper_trans s v"
    using mapper_alloc inv(1) unfolding fs by blast
  have "table_addr (page_of s f)" using mapper_page(1) [OF inv(1)] by (simp add: fs)
  then have phys: "page_of s f mod page_size64 = 0" "take_bit 52 (page_of s f) = page_of s f"
    using table_addr_52 by (auto simp: take_bit_eq_mod)
  have slot: "pml4e_index kernel_stack_limit \<noteq> 511" by (simp add: slots)
  have "3 \<le> length gs" "mapper_trans s1 kernel_stack_limit = None" using inv(2) fs unused s1(3) [OF slot] by simp_all
  then obtain s' fs' where "map_page s1 (page_of s f) kernel_stack_limit flags_rw = Inr s'" "mapper_inv n arr pml4 s' fs'"
    "suffix fs' gs" "length gs \<le> length fs' + 3"
    and tr: "\<forall>v. pml4e_index v \<noteq> 511 \<longrightarrow> mapper_trans s' v =
       (if indices v = indices kernel_stack_limit then Some (page_of s f + take_bit 12 v) else mapper_trans s1 v)"
    using mapper_map [OF s1(2) _ phys slots(5) slot] by blast
  moreover have "mapper_trans s' (kernel_stack_limit + of_nat d) = Some (page_of s f + of_nat d)" if "d < 4096" for d
    using tr page_byte [OF slots(5) that] slot by simp
  ultimately show ?thesis using s1(1,3) by (intro exI [of _ s1] exI [of _ "page_of s f"] exI [of _ s'] exI [of _ fs'])
    (simp add: fs suffix_ConsI)
qed

lemma kernel_placed:
  fixes m :: mem and as' :: "vaddr_t list"
  defines "us \<equiv> concat (map segment_pages (map (read_phdr m) as'))"
  assumes inv: "mapper_inv n arr pml4 s fs" "4 * length us + 4 \<le> length fs" and clear: "image_clear s m fs img as'"
    and apart: "distinct (map indices (kernel_stack_limit # us))"
    and unused: "\<forall>w. pml4e_index w \<noteq> 511 \<longrightarrow> pml4e_index w \<noteq> 0 \<longrightarrow> mapper_trans s w = None"
  shows "\<exists>s1 m' s2 stack s' fs'. load_segments s m img as' = Inr (s1, m') \<and> pmm_alloc_page s1 = Inr (s2, stack) \<and>
    map_page s2 stack kernel_stack_limit flags_rw = Inr s' \<and> mapper_inv n arr pml4 s' fs' \<and> suffix fs' fs \<and>
    length fs \<le> length fs' + 4 * length us + 4 \<and> (\<forall>a \<in> set as'. segment_in_place s' m' m img (read_phdr m a)) \<and>
    (\<forall>d < 4096. mapper_trans s' (kernel_stack_limit + of_nat d) = Some (stack + of_nat d)) \<and>
    (\<forall>b. \<not> in_pages s fs b \<longrightarrow> m' b = m b) \<and>
    (\<forall>w. pml4e_index w \<noteq> 511 \<longrightarrow> pml4e_index w \<noteq> 256 \<longrightarrow> mapper_trans s' w = mapper_trans s w)"
proof -
  have ok: "segment_ok img (read_phdr m a)" if "a \<in> set as'" for a using clear that by (simp add: image_clear_def)
  have slot: "u mod page_size64 = 0 \<and> pml4e_index u = 256" if u: "u \<in> set us" for u
  proof -
    obtain a where a: "a \<in> set as'" "u \<in> set (segment_pages (read_phdr m a))" using u by (auto simp: us_def)
    show ?thesis using segment_slot [OF ok [OF a(1)] a(2)] by (simp add: slots)
  qed
  have "mappable s us" unfolding mappable_def using apart slot unused by simp
  moreover have "4 * length us \<le> length fs" using inv(2) by simp
  ultimately obtain s1 m' fs1 where l: "load_segments s m img as' = Inr (s1, m')" "mapper_inv n arr pml4 s1 fs1" "suffix fs1 fs"
    "length fs \<le> length fs1 + 4 * length us" "\<forall>a \<in> set as'. segment_in_place s1 m' m img (read_phdr m a)"
    "\<forall>b. \<not> in_pages s fs b \<longrightarrow> m' b = m b"
    "\<forall>w. pml4e_index w \<noteq> 511 \<longrightarrow> (\<forall>u \<in> set us. indices w \<noteq> indices u) \<longrightarrow> mapper_trans s1 w = mapper_trans s w"
    using load_segments_bytes [OF inv(1) _ clear] unfolding us_def by blast
  have "mapper_trans s1 kernel_stack_limit = mapper_trans s kernel_stack_limit"
    using l(7) apart slots(3) by (auto simp: image_iff)
  then have "mapper_trans s1 kernel_stack_limit = None" "4 \<le> length fs1" using unused slots(3) inv(2) l(4) by simp_all
  then obtain s2 stack s' fs' where st: "pmm_alloc_page s1 = Inr (s2, stack)" "map_page s2 stack kernel_stack_limit flags_rw = Inr s'"
    "mapper_inv n arr pml4 s' fs'" "suffix fs' fs1" "length fs1 \<le> length fs' + 4"
    "\<forall>d < 4096. mapper_trans s' (kernel_stack_limit + of_nat d) = Some (stack + of_nat d)"
    "\<forall>w. pml4e_index w \<noteq> 511 \<longrightarrow> indices w \<noteq> indices kernel_stack_limit \<longrightarrow> mapper_trans s' w = mapper_trans s1 w"
    using stack_mapped [OF l(2)] by blast
  have "segment_in_place s' m' m img (read_phdr m a)" if a: "a \<in> set as'" for a
  proof (rule segment_in_place_keep [OF l(5) [rule_format, OF a] ok [OF a]])
    fix u w assume u: "u \<in> set (segment_pages (read_phdr m a))" "indices w = indices u"
    then have "u \<in> set us" using a by (auto simp: us_def)
    then have "indices w \<noteq> indices kernel_stack_limit" "pml4e_index w \<noteq> 511"
      using apart slot [of u] u(2) by (auto simp: image_iff indices_def)
    then show "mapper_trans s' w = mapper_trans s1 w" using st(7) by blast
  qed
  moreover have "mapper_trans s' w = mapper_trans s w" if w: "pml4e_index w \<noteq> 511" "pml4e_index w \<noteq> 256" for w
  proof -
    have "indices w \<noteq> indices kernel_stack_limit" "\<forall>u \<in> set us. indices w \<noteq> indices u"
      using w(2) slots(3) slot by (auto simp: indices_def)
    then show ?thesis using st(7) l(7) w(1) by simp
  qed
  moreover have "suffix fs' fs" using st(4) l(3) by (rule suffix_order.trans)
  ultimately show ?thesis using l(1,4,6) st(1-3,5,6)
    by (intro exI [of _ s1] exI [of _ m'] exI [of _ s2] exI [of _ stack] exI [of _ s'] exI [of _ fs']) simp
qed

text \<open>
  The complete address space: the first two megabytes, the kernel, its stack and the database.
\<close>

definition kernel_space :: "loader \<Rightarrow> mem \<Rightarrow> mem \<Rightarrow> vaddr_t \<Rightarrow> vaddr_t list \<Rightarrow> bool" where
  "kernel_space s m' m img as \<longleftrightarrow>
     (\<forall>d < 0x200000. mapper_trans s (of_nat d) = Some (of_nat d)) \<and>
     (\<forall>a \<in> set as. segment_in_place s m' m img (read_phdr m a)) \<and>
     (\<exists>stack. \<forall>d < 4096. mapper_trans s (kernel_stack_limit + of_nat d) = Some (stack + of_nat d)) \<and>
     (\<forall>d < 4096 * unat (ld_sz_pgs s). mapper_trans s (kernel_pfndb_base + of_nat d) = Some (pm_arr (ld_pmm s) + of_nat d))"

lemma address_space_built:
  fixes m :: mem and as' :: "vaddr_t list" and s :: loader
  defines "us \<equiv> concat (map segment_pages (map (read_phdr m) as'))" and "k \<equiv> unat (ld_sz_pgs s)" and "arr \<equiv> pm_arr (ld_pmm s)"
  assumes inv: "loader_inv s n fs rs" "distinct (map (page_of s) fs)" "1541 + 4 * length us + 3 * k \<le> length fs"
    and arr: "arr mod page_size64 = 0" and k: "k \<le> 2 ^ 20" and clear: "image_clear s m fs img as'"
    and apart: "distinct (map indices (kernel_stack_limit # us))"
  shows "\<exists>s2 pml4 s3 s4 m' s5 stack s6 s' fs'. setup_paging s = Inr (s2, pml4) \<and> map_range 512 s2 0 0 flags_rw = Inr s3 \<and>
    load_segments s3 m img as' = Inr (s4, m') \<and> pmm_alloc_page s4 = Inr (s5, stack) \<and>
    map_page s5 stack kernel_stack_limit flags_rw = Inr s6 \<and>
    map_range (unat (ld_sz_pgs s6)) s6 (pm_arr (ld_pmm s6)) kernel_pfndb_base flags_rw = Inr s' \<and>
    mapper_inv n arr pml4 s' fs' \<and> ld_sz_pgs s' = ld_sz_pgs s \<and> kernel_space s' m' m img as' \<and>
    (\<forall>b. \<not> in_pages s fs b \<longrightarrow> m' b = m b)"
proof -
  obtain f gs where fs: "fs = f # gs" using inv(3) by (cases fs) auto
  have "3 * 512 \<le> length gs" using inv(3) by (simp add: fs)
  then obtain s2 pml4 s3 fs3 where id: "setup_paging s = Inr (s2, pml4)" "map_range 512 s2 0 0 flags_rw = Inr s3"
    "mapper_inv n arr pml4 s3 fs3" "suffix fs3 gs" "length gs \<le> length fs3 + 3 * 512"
    "\<forall>d < 0x200000. mapper_trans s3 (of_nat d) = Some (of_nat d)"
    "\<forall>w. pml4e_index w \<noteq> 511 \<longrightarrow> pml4e_index w \<noteq> 0 \<longrightarrow> mapper_trans s3 w = None"
    using identity_mapped [of s n f gs rs] inv(1,2) unfolding fs arr_def by blast
  have pages: "page_of s3 = page_of s" using mapper_arr [OF id(3)] unfolding arr_def by (rule page_of_cong)
  have suf: "suffix fs3 fs" using id(4) by (simp add: fs suffix_ConsI)
  have "4 * length us + 4 \<le> length fs3" using inv(3) id(5) by (simp add: fs)
  then obtain s4 m' s5 stack s6 fs6 where kn: "load_segments s3 m img as' = Inr (s4, m')" "pmm_alloc_page s4 = Inr (s5, stack)"
    "map_page s5 stack kernel_stack_limit flags_rw = Inr s6" "mapper_inv n arr pml4 s6 fs6"
    "length fs3 \<le> length fs6 + 4 * length us + 4" "\<forall>a \<in> set as'. segment_in_place s6 m' m img (read_phdr m a)"
    "\<forall>d < 4096. mapper_trans s6 (kernel_stack_limit + of_nat d) = Some (stack + of_nat d)"
    "\<forall>b. \<not> in_pages s3 fs3 b \<longrightarrow> m' b = m b"
    "\<forall>w. pml4e_index w \<noteq> 511 \<longrightarrow> pml4e_index w \<noteq> 256 \<longrightarrow> mapper_trans s6 w = mapper_trans s3 w"
    using kernel_placed [OF id(3) _ image_clear_later [OF clear suf pages] apart [unfolded us_def] id(7)] unfolding us_def by blast
  have sz6: "ld_sz_pgs s6 = ld_sz_pgs s"
    using setup_paging_sz [OF id(1)] map_range_sz [OF id(2)] load_segments_sz [OF kn(1)] alloc_sz [OF kn(2)] map_page_sz [OF kn(3)] by simp
  have "unat arr < 2 ^ 32" using inv(1) by (simp add: loader_inv_def arr_def)
  then have phys: "unat arr + 4096 * k \<le> 2 ^ 52" "4096 * k \<le> 2 ^ 39" using k by simp_all
  have "mapper_trans s6 u = None" if "u \<in> set (page_list kernel_pfndb_base k)" for u
    using slot_pages(2) [OF pfndb_slot, of _ 0 k] phys(2) that kn(9) id(7) slots(4) by simp
  moreover have "3 * k \<le> length fs6" using inv(3) id(5) kn(5) by (simp add: fs)
  ultimately obtain s' fs' where db: "map_range k s6 arr kernel_pfndb_base flags_rw = Inr s'" "mapper_inv n arr pml4 s' fs'"
    "\<forall>d < 4096 * k. mapper_trans s' (kernel_pfndb_base + of_nat d) = Some (arr + of_nat d)"
    "\<forall>w. pml4e_index w \<noteq> 511 \<longrightarrow> pml4e_index w \<noteq> 258 \<longrightarrow> mapper_trans s' w = mapper_trans s6 w"
    using map_window [OF kn(4) _ arr phys(1) pfndb_slot phys(2)] slots(4) by auto
  have "kernel_space s' m' m img as'"
    unfolding kernel_space_def
  proof (intro conjI allI impI ballI exI [of _ stack])
    fix d :: nat assume "d < 0x200000"
    then show "mapper_trans s' (of_nat d) = Some (of_nat d)"
      using slot_pml4e [of 0 d] slots(1) db(4) kn(9) id(6) by simp
  next
    fix a assume a: "a \<in> set as'"
    then have ok: "segment_ok img (read_phdr m a)" using clear by (simp add: image_clear_def)
    show "segment_in_place s' m' m img (read_phdr m a)"
      by (rule segment_in_place_keep [OF kn(6) [rule_format, OF a] ok])
        (use segment_slot(2) [OF ok] db(4) slots(2) in \<open>auto simp: indices_def\<close>)
  next
    fix d :: nat assume d: "d < 4096"
    then show "mapper_trans s' (kernel_stack_limit + of_nat d) = Some (stack + of_nat d)"
      using page_byte(3) [OF slots(5) d] slots(3) db(4) kn(7) by simp
  qed (use db(3) mapper_arr [OF db(2)] map_range_sz [OF db(1)] sz6 k_def in simp)
  moreover have "m' b = m b" if "\<not> in_pages s fs b" for b
    using kn(8) in_pages_suffix [OF suf] that unfolding in_pages_cong [OF pages] by blast
  ultimately show ?thesis
    using id(1,2) kn(1-3) db(1,2) mapper_arr [OF kn(4)] sz6 map_range_sz [OF db(1)] unfolding k_def by auto
qed

section \<open>The whole loader\<close>

text \<open>The pages and the free list at the end of \<open>bootstrap_pmm\<close>, and the pages of the kernel.\<close>

definition boot_free :: "loader \<Rightarrow> vaddr_t list" where
  "boot_free s1 = free_nodes (pfndb_ranges s1) (pm_arr (ld_pmm s1)) 0 (unat (pm_total (ld_pmm s1)))"

definition kernel_pages :: "mem \<Rightarrow> elf_context \<Rightarrow> vaddr_t list" where
  "kernel_pages m ctx = concat (map segment_pages (map (read_phdr m) (get_phdrs m ctx)))"

text \<open>
  A machine that can be started: the boot information names the kernel module and a memory map,
  the page frame database was found a place below 4 GiB, the module is a 64-bit ELF image that is
  outside the free pages, the pages of its segments and of the stack are different, and there are
  enough free pages (one for the PML4, three for each mapped page, one more for each copied page).
\<close>

definition boot_found :: "nat \<Rightarrow> boot_info \<Rightarrow> mem \<Rightarrow> vaddr_t \<Rightarrow> loader \<Rightarrow> u32 \<Rightarrow> u32 \<Rightarrow> u32 \<Rightarrow> loader \<Rightarrow> bool" where
  "boot_found fuel b m cxkernel s ptr module mmap s1 \<longleftrightarrow>
     find_module fuel b ptr (\<lambda>cmdline. strcmp fuel m (ucast cmdline) cxkernel) = Inr module \<and>
     find_mmap fuel b ptr = Inr mmap \<and>
     bootstrap_alloc fuel b s \<lparr>rg_begin = ucast (mod_start b module), rg_end = ucast (mod_end b module - 1)\<rparr> mmap = Inr s1"

definition database_ok :: "nat \<Rightarrow> loader \<Rightarrow> loader \<Rightarrow> bool" where
  "database_ok fuel s s1 \<longleftrightarrow> length (ld_reserved s) = 4 \<and>
     pm_free (ld_pmm s1) = nullptr \<and> pm_rsrv (ld_pmm s1) = nullptr \<and>
     pm_arr (ld_pmm s1) \<noteq> 0 \<and> pm_arr (ld_pmm s1) mod page_size64 = 0 \<and>
     unat (pm_arr (ld_pmm s1)) + unat (pm_total (ld_pmm s1)) * 32 < 2 ^ 32 \<and>
     unat (pm_total (ld_pmm s1)) \<le> 2 ^ 20 \<and> unat (pm_total (ld_pmm s1)) < fuel"

definition kernel_ok :: "nat \<Rightarrow> mem \<Rightarrow> literals \<Rightarrow> vaddr_t \<Rightarrow> loader \<Rightarrow> elf_context \<Rightarrow> bool" where
  "kernel_ok fuel m lits start s1 ctx \<longleftrightarrow>
     elf_load as_ptr fuel m lits \<lparr>cx_img = 0, cx_shdr = 0, cx_phdr = 0, cx_symtab = 0, cx_strtab = 0, cx_is_64bits = False\<rparr> start =
       Inr (ctx, OK) \<and> cx_is_64bits ctx \<and>
     image_clear s1 m (boot_free s1) (cx_img ctx) (get_phdrs m ctx) \<and>
     (\<forall>d < 64. \<not> in_pages s1 (boot_free s1) (cx_img ctx + of_nat d)) \<and>
     distinct (map indices (kernel_stack_limit # kernel_pages m ctx)) \<and>
     1541 + 4 * length (kernel_pages m ctx) + 3 * pages_below (pm_total (ld_pmm s1) * sizeof_Page) \<le> length (boot_free s1)"

lemma database_pages:
  assumes "unat cnt \<le> 2 ^ 20"
  shows "unat (page_align_up (cnt * sizeof_Page) div page_size64) = pages_below (cnt * sizeof_Page)"
    and "unat cnt * 32 \<le> 4096 * pages_below (cnt * sizeof_Page)" and "pages_below (cnt * sizeof_Page) \<le> 2 ^ 20"
proof -
  have u: "unat (cnt * sizeof_Page) = unat cnt * 32" using assms by (simp add: sizeof_Page_def unat_word_ariths)
  then show "unat (page_align_up (cnt * sizeof_Page) div page_size64) = pages_below (cnt * sizeof_Page)"
    using pages_in_below [of "cnt * sizeof_Page"] assms unfolding pages_in_def by simp
  show "unat cnt * 32 \<le> 4096 * pages_below (cnt * sizeof_Page)" unfolding pages_below_def u by linarith
  show "pages_below (cnt * sizeof_Page) \<le> 2 ^ 20" using assms unfolding pages_below_def u by simp
qed

text \<open>The kernel's view of the database after the hand-over.\<close>

lemma kernel_view:
  assumes inv: "mapper_inv n arr pml4 s fs" and hand: "hand_over (ld_pmm s) elf = (links, st)" and n: "n < fuel" "n * 32 \<le> 4096 * k"
    and win: "\<forall>d < 4096 * k. mapper_trans s (kernel_pfndb_base + of_nat d) = Some (arr + of_nat d)"
  shows "\<exists>rs. pmm_inv (ld_pmm s) fs rs \<and>
    (let h = kernel_links (ld_mem s) pml4 links; shift = map (\<lambda>x. x + (kernel_pfndb_base - arr))
     in kernel_entry_check fuel h st = Inr (kernel_pmm h st) \<and> pmm_inv (kernel_pmm h st) (shift fs) (shift rs))"
proof -
  obtain T rs where pinv: "paging_inv s T n fs rs" "pm_arr (ld_pmm s) = arr" "ld_pml4 s = pml4" using inv by (auto simp: mapper_inv_def)
  have p: "pmm_inv (ld_pmm s) fs rs" "unat arr + n * 32 < 2 ^ 32" "n \<le> 2 ^ 20" "pm_total (ld_pmm s) = of_nat n"
    "length fs + length rs = n" "\<forall>x \<in> set fs \<union> set rs. \<exists>i < n. x = page_at arr (of_nat i)"
    using pinv(1) unfolding paging_inv_def loader_inv_def pinv(2) by simp_all
  have "translate (ld_mem s) pml4 (kernel_pfndb_base + of_nat (i * 32)) = Some (page_at arr (of_nat i))" if i: "i < n" for i
  proof -
    have "page_at arr (of_nat i) = arr + of_nat (i * 32)"
      using pfndb_window [OF p(2) i] by (simp add: algebra_simps)
    moreover have "i * 32 < 4096 * k" using i n(2) by linarith
    ultimately show ?thesis using win [rule_format, of "i * 32"] by (simp add: mapper_trans_def pinv(3))
  qed
  then have view: "pmm_inv (kernel_pmm (kernel_links (ld_mem s) pml4 links) st)
      (map (\<lambda>x. x + (kernel_pfndb_base - arr)) fs) (map (\<lambda>x. x + (kernel_pfndb_base - arr)) rs)"
    using kernel_view_lists [OF p(1) _ p(3,4) _ _ hand, of "ld_mem s" pml4] p(2,6) unfolding pinv(2) by blast
  have "ls_total st = of_nat n" "ls_magic_start st = LOADER_ABI_MAGIC_START" "ls_magic_end st = LOADER_ABI_MAGIC_END"
    using hand p(4) by (auto simp: hand_over_def Let_def)
  then have "kernel_entry_check fuel (kernel_links (ld_mem s) pml4 links) st =
      Inr (kernel_pmm (kernel_links (ld_mem s) pml4 links) st)"
    using kernel_view_check [OF view _ n(1)] p(5) by simp
  then show ?thesis using p(1) view by (auto simp: Let_def)
qed

lemma entry_kept:
  assumes "\<forall>d < 64. m' (img + of_nat d) = m (img + of_nat d)"
  shows "e_entry (read_ehdr m' img) = e_entry (read_ehdr m img)"
proof -
  have "m' (img + 24 + of_nat i) = m (img + 24 + of_nat i)" if "i < 8" for i
    using assms [rule_format, of "24 + i"] that by (simp add: add.assoc)
  then show ?thesis by (simp add: read_ehdr_def rd64_def load_le_agree)
qed

text \<open>\<open>main\<close> on a machine that can be started.\<close>

lemma loader_main_runs:
  fixes b :: boot_info and module :: u32
  defines "start \<equiv> ucast (mod_start b module)"
  assumes found: "boot_found fuel b m cxkernel s ptr module mmap s1" and db: "database_ok fuel s s1"
    and ok: "kernel_ok fuel m lits start s1 ctx"
  shows "\<exists>h fs rs. loader_main fuel b m lits cxkernel s MULTIBOOT2_BOOTLOADER_MAGIC ptr = Inr h \<and>
    kernel_space (ho_loader h) (ho_mem h) m (cx_img ctx) (get_phdrs m ctx) \<and> ho_pml4 h = ld_pml4 (ho_loader h) \<and>
    ho_entry h = e_entry (read_ehdr m (cx_img ctx)) \<and> pmm_inv (ld_pmm (ho_loader h)) fs rs \<and>
    (let view = kernel_links (ld_mem (ho_loader h)) (ho_pml4 h) (ho_links h);
         shift = map (\<lambda>x. x + (kernel_pfndb_base - pm_arr (ld_pmm (ho_loader h))))
     in kernel_entry_check fuel view (ho_state h) = Inr (kernel_pmm view (ho_state h)) \<and>
        pmm_inv (kernel_pmm view (ho_state h)) (shift fs) (shift rs))"
proof -
  define n where "n = unat (pm_total (ld_pmm s1))"
  define arr where "arr = pm_arr (ld_pmm s1)"
  have f: "find_module fuel b ptr (\<lambda>cmdline. strcmp fuel m (ucast cmdline) cxkernel) = Inr module" "find_mmap fuel b ptr = Inr mmap"
    and alloc: "bootstrap_alloc fuel b s \<lparr>rg_begin = start, rg_end = ucast (mod_end b module - 1)\<rparr> mmap = Inr s1"
    using found by (simp_all add: boot_found_def start_def)
  have d: "length (ld_reserved s) = 4" "pm_free (ld_pmm s1) = nullptr" "pm_rsrv (ld_pmm s1) = nullptr" "arr \<noteq> 0"
    "arr mod page_size64 = 0" "unat arr + n * 32 < 2 ^ 32" "n \<le> 2 ^ 20" "n < fuel"
    using db by (simp_all add: database_ok_def n_def arr_def)
  note pages = database_pages [of "pm_total (ld_pmm s1)", folded n_def, OF d(7)]
  obtain s2 rs where s2: "bootstrap_pmm fuel b s \<lparr>rg_begin = start, rg_end = ucast (mod_end b module - 1)\<rparr> mmap = Inr s2"
    "loader_inv s2 n (boot_free s1) rs" "distinct (map (page_of s2) (boot_free s1))" "pm_arr (ld_pmm s2) = arr"
    "ld_sz_pgs s2 = ld_sz_pgs s1"
    using bootstrap_loader_inv [OF alloc d(1-3)] d(4-8) unfolding n_def arr_def boot_free_def by blast
  have k: "unat (ld_sz_pgs s2) = pages_below (pm_total (ld_pmm s1) * sizeof_Page)"
    using pages(1) bootstrap_alloc_sizes(2) [OF alloc] s2(5) by simp
  have e: "elf_load as_ptr fuel m lits \<lparr>cx_img = 0, cx_shdr = 0, cx_phdr = 0, cx_symtab = 0, cx_strtab = 0, cx_is_64bits = False\<rparr> start =
      Inr (ctx, OK)" "cx_is_64bits ctx"
    and im: "image_clear s1 m (boot_free s1) (cx_img ctx) (get_phdrs m ctx)"
      "\<forall>d < 64. \<not> in_pages s1 (boot_free s1) (cx_img ctx + of_nat d)"
      "distinct (map indices (kernel_stack_limit # kernel_pages m ctx))"
      "1541 + 4 * length (kernel_pages m ctx) + 3 * unat (ld_sz_pgs s2) \<le> length (boot_free s1)"
    using ok unfolding kernel_ok_def k by simp_all
  have same: "page_of s2 = page_of s1" using s2(4) unfolding arr_def by (rule page_of_cong)
  have clear: "image_clear s2 m (boot_free s1) (cx_img ctx) (get_phdrs m ctx)"
    by (rule image_clear_later [OF im(1) _ same]) simp
  obtain s3 pml4 s4 s5 m' s6 stack s7 s' fs where built: "setup_paging s2 = Inr (s3, pml4)"
    "map_range 512 s3 0 0 flags_rw = Inr s4" "load_segments s4 m (cx_img ctx) (get_phdrs m ctx) = Inr (s5, m')"
    "pmm_alloc_page s5 = Inr (s6, stack)" "map_page s6 stack kernel_stack_limit flags_rw = Inr s7"
    "map_range (unat (ld_sz_pgs s7)) s7 (pm_arr (ld_pmm s7)) kernel_pfndb_base flags_rw = Inr s'"
    "mapper_inv n arr pml4 s' fs" "ld_sz_pgs s' = ld_sz_pgs s2" "kernel_space s' m' m (cx_img ctx) (get_phdrs m ctx)"
    "\<forall>b. \<not> in_pages s2 (boot_free s1) b \<longrightarrow> m' b = m b"
    using address_space_built [OF s2(2,3) im(4) [unfolded kernel_pages_def] _ _ clear im(3) [unfolded kernel_pages_def]]
      d(5) pages(3) unfolding s2(4) k by blast
  obtain links st where hand: "hand_over (ld_pmm s') start = (links, st)" by fastforce
  have arr': "pm_arr (ld_pmm s') = arr" "ld_pml4 s' = pml4" using built(7) by (auto simp: mapper_inv_def)
  have "\<forall>d < 4096 * unat (ld_sz_pgs s2). mapper_trans s' (kernel_pfndb_base + of_nat d) = Some (arr + of_nat d)"
    using built(9) unfolding kernel_space_def built(8) arr'(1) by blast
  then obtain rs' where view: "pmm_inv (ld_pmm s') fs rs'"
    "let h = kernel_links (ld_mem s') pml4 links; shift = map (\<lambda>x. x + (kernel_pfndb_base - arr))
     in kernel_entry_check fuel h st = Inr (kernel_pmm h st) \<and> pmm_inv (kernel_pmm h st) (shift fs) (shift rs')"
    using kernel_view [OF built(7) hand d(8)] pages(2) unfolding k n_def by blast
  let ?h = "\<lparr>ho_loader = s', ho_mem = m', ho_links = links, ho_state = st, ho_pml4 = pml4, ho_entry = e_entry (read_ehdr m' (cx_img ctx))\<rparr>"
  have "loader_main fuel b m lits cxkernel s MULTIBOOT2_BOOTLOADER_MAGIC ptr = Inr ?h"
    using f s2(1) built(1-6) e hand by (simp add: loader_main_def start_kernel_def load_kernel_def module_range_def start_def [symmetric])
  moreover have "e_entry (read_ehdr m' (cx_img ctx)) = e_entry (read_ehdr m (cx_img ctx))"
    using im(2) built(10) unfolding in_pages_cong [OF same] by (intro entry_kept) blast
  ultimately show ?thesis using built(9) arr' view by (intro exI [of _ ?h] exI [of _ fs] exI [of _ rs']) simp
qed
section \<open>A machine that boots\<close>

text \<open>
  A machine with 16 MiB of memory: the kernel module at 0x40000, the boot information with a module
  tag and a memory map tag up to 0x60030, the loader at 0x100000.
\<close>

definition machine_boot :: boot_info where
  "machine_boot = (\<lambda>_. 0)(0x5FFD8 := 0x58, 0x5FFE0 := 3, 0x5FFE4 := 25, 0x5FFE8 := 0x40000, 0x5FFEC := 0x42000,
     0x5FFF0 := 0x656B7863, 0x5FFF4 := 0x6C656E72, 0x60000 := 6, 0x60004 := 40, 0x60008 := 24, 0x60018 := 0x1000000,
     0x60020 := 1, 0x6002C := 8)"

definition machine_loader :: loader where
  "machine_loader = example_loader\<lparr>ld_reserved := initial_reserved 0x100000 0x110000\<rparr>"

definition machine_ranges :: "range list" where
  "machine_ranges = [\<lparr>rg_begin = 0, rg_end = 0xFFF\<rparr>, \<lparr>rg_begin = 0x100000, rg_end = 0x10FFFF\<rparr>,
     \<lparr>rg_begin = 0x60000, rg_end = 0x60027\<rparr>, \<lparr>rg_begin = 0x40000, rg_end = 0x41FFF\<rparr>]"

lemma machine_module:
  "find_module (fuel + 9) machine_boot 0x5FFD8 (\<lambda>cmdline. strcmp (fuel + 9) example_image (ucast cmdline) 0x101000) = Inr 0x5FFE0"
proof -
  have fuel: "fuel + 9 = Suc (Suc (Suc (Suc (Suc (Suc (Suc (Suc (Suc fuel))))))))" by simp
  have "strcmp (fuel + 9) example_image 0x5FFF0 0x101000 = Inr 0" unfolding fuel by (simp add: example_bytes)
  moreover have tag: "machine_boot 0x5FFE0 = 3" by (simp add: machine_boot_def)
  moreover have "for_tags (Suc (Suc k)) machine_boot \<lparr>ti_tag = 0x5FFE0, ti_type = 3\<rparr> body acc =
      bindE (body 0x5FFE0 acc) (\<lambda>(acc, go_on). if go_on then bindE (tag_incr machine_boot \<lparr>ti_tag = 0x5FFE0, ti_type = 3\<rparr>)
        (\<lambda>it. for_tags (Suc k) machine_boot it body acc) else Inr acc)" for k body and acc :: u32
    by (simp add: tag_iter_eq_def tags_end_def tag_type_def tag)
  ultimately show ?thesis
    unfolding fuel
    by (simp add: find_module_def tags_begin_def TAG_TYPE_MODULE_def mod_cmdline_def del: for_tags.simps strcmp.simps)
qed

lemma machine_mmap: "find_mmap (fuel + 4) machine_boot 0x5FFD8 = Inr 0x60000"
proof -
  have "tag_chain machine_boot (0x5FFD8 + 8) [0x5FFE0, 0x60000] 0x60028"
    by (simp add: TAG_TYPE_END_def machine_boot_def)
  from find_mmap_first [OF this, of "fuel + 4"] show ?thesis by (simp add: TAG_TYPE_MMAP_def machine_boot_def)
qed

lemma machine_early_alloc:
  assumes "ld_it s = 0x60010" and "ld_mmap s = 0x60000" and "ld_reserved s = machine_ranges"
  shows "early_pmm_alloc_cts (Suc fuel) machine_boot s 32 10 = Inr (s, 0x1000)"
proof -
  have "skip_unavailable (Suc fuel) machine_boot 0x60000 0x60010 = Inr 0x60010"
    by (simp add: entry_type_def machine_boot_def MEMORY_AVAILABLE_def)
  moreover have "page_align_up (entry_base machine_boot 0x60010) = 0"
    "page_align_down (entry_base machine_boot 0x60010 + entry_len machine_boot 0x60010) = 0x1000000" by code_simp+
  moreover have "search_run machine_ranges 32 0 0x1000000 = Some 0x1000" by code_simp
  moreover have "s\<lparr>ld_it := 0x60010\<rparr> = s" using assms(1) by simp
  ultimately have "early_pmm_alloc_cts (Suc fuel) machine_boot s 32 (Suc 9) = Inr (s, 0x1000)"
    using assms by (subst early_pmm_alloc_cts.simps(2)) (simp add: Let_def)
  then show ?thesis by simp
qed

definition machine_alloc :: loader where
  "machine_alloc = machine_loader\<lparr>ld_pmm := (ld_pmm machine_loader)\<lparr>pm_total := 4096, pm_arr := 0x1000\<rparr>,
     ld_reserved := machine_ranges, ld_mmap := 0x60000, ld_it := 0x60010, ld_sz_bytes := 0x20000, ld_sz_pgs := 32\<rparr>"

lemma machine_allocates:
  "bootstrap_alloc (fuel + 3) machine_boot machine_loader \<lparr>rg_begin = 0x40000, rg_end = 0x41FFF\<rparr> 0x60000 = Inr machine_alloc"
proof -
  have fuel: "fuel + 3 = Suc (Suc (Suc fuel))" by simp
  have "largest_phys_addr (Suc (Suc (Suc fuel))) machine_boot 0x60000 = Inr 0x1000000"
    by (simp add: largest_phys_addr_def mmap_entries_def mmap_incr_def tag_size_def mmap_entry_size_def entry_type_def
        entry_base_def entry_len_def read64_def machine_boot_def MEMORY_AVAILABLE_def ebl_max_def)
  moreover have "page_align_down 0x1000000 = 0x1000000" "page_align_up 0x20000 = 0x20000" by code_simp+
  moreover have "(ld_reserved machine_loader)[2 := \<lparr>rg_begin = 0x60000, rg_end = 0x60027\<rparr>,
      3 := \<lparr>rg_begin = 0x40000, rg_end = 0x41FFF\<rparr>] = machine_ranges" by code_simp
  moreover have "tag_size machine_boot 0x60000 = Inr 40" by code_simp
  ultimately show ?thesis
    unfolding fuel
    by (simp add: bootstrap_alloc_def reserve_boot_def alloc_pfndb_def mmap_entries_def Let_def sizeof_Page_def machine_early_alloc as_ptr_def machine_alloc_def)
qed

lemma machine_ranges_final: "pfndb_ranges machine_alloc = machine_ranges[2 := \<lparr>rg_begin = 0x1000, rg_end = 0x21000\<rparr>]"
  by (simp add: pfndb_ranges_def machine_alloc_def)

lemma machine_reserved:
  assumes "i < 4096"
  shows "is_page_reserved (pfndb_ranges machine_alloc) (of_nat i) \<longleftrightarrow>
    i \<le> 0x20 \<or> 0x3F \<le> i \<and> i \<le> 0x41 \<or> 0xFF \<le> i \<and> i \<le> 0x10F"
proof -
  have u: "unat (ucast (ucast (of_nat j * page_size64 :: u64) :: u32) :: u64) = 4096 * j" if "j \<le> 4096" for j
  proof -
    have "unat (of_nat j * page_size64 :: u64) = 4096 * j" using that by (simp add: unat_word_ariths unat_of_nat)
    then show ?thesis
      using that by (simp add: unat_ucast_widen unsigned_ucast_eq unsigned_take_bit_eq take_bit_nat_eq_self del: page_size64_eq)
  qed
  have ends: "4096 * j < 0xFFF \<longleftrightarrow> j < 1" "4096 * j < 0x10FFFF \<longleftrightarrow> j < 0x110" "4096 * j < 0x41FFF \<longleftrightarrow> j < 0x42"
    "4096 * j < 0x21000 \<longleftrightarrow> j < 0x21" "0x1000 \<le> 4096 * j \<longleftrightarrow> 1 \<le> j" "0x100000 \<le> 4096 * j \<longleftrightarrow> 0x100 \<le> j"
    "0x40000 \<le> 4096 * j \<longleftrightarrow> 0x40 \<le> j" for j :: nat
    by (intro iffI; linarith)+
  have "list_ex (is_in (ucast (of_nat j * page_size64 :: u64))) (pfndb_ranges machine_alloc) \<longleftrightarrow>
      j < 0x21 \<or> 0x40 \<le> j \<and> j < 0x42 \<or> 0x100 \<le> j \<and> j < 0x110" if "j \<le> 4096" for j
    using u [OF that] unfolding machine_ranges_final machine_ranges_def
    by (auto simp: is_in_def word_le_nat_alt word_less_nat_alt ends simp del: page_size64_eq)
  note range = this [of i] this [of "Suc i"]
  have either: "is_page_reserved (pfndb_ranges machine_alloc) (of_nat i) \<longleftrightarrow>
      list_ex (is_in (ucast (of_nat i * page_size64 :: u64))) (pfndb_ranges machine_alloc) \<or>
      list_ex (is_in (ucast (of_nat (Suc i) * page_size64 :: u64))) (pfndb_ranges machine_alloc)"
    unfolding is_page_reserved_def list_ex_iff of_nat_Suc add.commute [of 1] by blast
  have "i \<le> 4096" "Suc i \<le> 4096" using assms by simp_all
  then show ?thesis unfolding either range(1) [OF \<open>i \<le> 4096\<close>] range(2) [OF \<open>Suc i \<le> 4096\<close>] by auto
qed

lemma machine_free:
  "boot_free machine_alloc = map (page_at 0x1000) (filter (\<lambda>i. \<not> is_page_reserved (pfndb_ranges machine_alloc) i) (map of_nat [0..<4096]))"
proof -
  have "pm_arr (ld_pmm machine_alloc) = 0x1000" "unat (pm_total (ld_pmm machine_alloc)) = 4096" by (simp_all add: machine_alloc_def)
  then show ?thesis by (simp only: boot_free_def free_nodes_def page_nums_eq add_0)
qed

lemma machine_free_length: "3584 \<le> length (boot_free machine_alloc)"
proof -
  let ?P = "\<lambda>i. \<not> is_page_reserved (pfndb_ranges machine_alloc) i"
  have "(512::nat) + 3584 = 4096" by simp
  then have "[0..<4096] = [0..<512] @ [512..<4096]" using upt_add_eq_append [of 0 512 3584] by (simp only: le0)
  moreover have "filter ?P (map of_nat [512..<4096]) = map of_nat [512..<4096]"
  proof (rule filter_True, rule ballI)
    fix x :: u64 assume "x \<in> set (map of_nat [512..<4096])"
    then obtain i where "512 \<le> i" "i < 4096" "x = of_nat i" by (simp only: set_map set_upt) auto
    then show "?P x" using machine_reserved [of i] by simp
  qed
  ultimately have "boot_free machine_alloc = map (page_at 0x1000) (filter ?P (map of_nat [0..<512]) @ map of_nat [512..<4096])"
    unfolding machine_free by (simp only: map_append filter_append)
  then show ?thesis by (simp only: length_map length_append length_upt)
qed

lemma machine_free_pages:
  assumes "x \<in> set (boot_free machine_alloc)"
  shows "unat (page_of machine_alloc x) + 4096 \<le> 0x40000 \<or> 0x42000 \<le> unat (page_of machine_alloc x)"
proof -
  obtain i where i: "i < 4096" "x = page_at 0x1000 (of_nat i)" "\<not> is_page_reserved (pfndb_ranges machine_alloc) (of_nat i)"
    using assms unfolding machine_free by (simp only: set_map set_filter set_upt) auto
  have "pm_arr (ld_pmm machine_alloc) = 0x1000" by (simp add: machine_alloc_def)
  then have "page_of machine_alloc x = of_nat i * page_size64"
    unfolding page_of_def i(2) by (subst node_index_entry [OF _ _ i(1)]) simp_all
  then have "unat (page_of machine_alloc x) = 4096 * i" using i(1) by (simp add: unat_word_ariths unat_of_nat)
  then show ?thesis using i(3) machine_reserved [OF i(1)] by auto
qed

lemma machine_boot_found:
  "boot_found 5000 machine_boot example_image 0x101000 machine_loader 0x5FFD8 0x5FFE0 0x60000 machine_alloc"
  using machine_module [of 4991] machine_mmap [of 4996] machine_allocates [of 4997]
  by (simp add: boot_found_def mod_start_def mod_end_def) (simp add: machine_boot_def)

lemma machine_database_ok: "database_ok 5000 machine_loader machine_alloc"
  by (simp add: database_ok_def machine_alloc_def machine_loader_def example_loader_def initial_reserved_def)

lemma machine_kernel_ok: "kernel_ok 5000 example_image example_lits 0x40000 machine_alloc example_ctx"
proof -
  have ctx: "cx_img example_ctx = 0x40000" "cx_is_64bits example_ctx" by (simp_all add: example_ctx_def)
  have free: "\<forall>x \<in> set (boot_free machine_alloc). unat (page_of machine_alloc x) + 4096 \<le> 0x40000 \<or>
      0x42000 \<le> unat (page_of machine_alloc x)" using machine_free_pages by blast
  have pages: "kernel_pages example_image example_ctx = [kernel_base]"
    by (simp add: kernel_pages_def example_phdrs example_image_headers example_segment_pages)
  have "indices kernel_stack_limit \<noteq> indices kernel_base" by code_simp
  moreover have "pages_below (pm_total (ld_pmm machine_alloc) * sizeof_Page) = 32"
    by (simp add: pages_below_def machine_alloc_def sizeof_Page_def)
  ultimately show ?thesis
    unfolding kernel_ok_def using example_image_elf [of 5000] example_image_clear [OF free] machine_free_length offset_not_in [OF free, of "0x40000"]
    by (simp add: ctx example_phdrs pages)
qed

end
