(* ===== verification/Arch_Interrupts.thy ===== *)
theory Arch_Interrupts
  imports Ebl_Print
begin

text \<open>
  The segment and interrupt descriptors of \<open>arch/x86-64/types.h\<close> and the interrupt table of
  \<open>arch/x86-64/interrupts.cc\<close>: the constructors of the descriptors, the table of handlers,
  the dispatch in \<open>isr_handler\<close> and the report of an unhandled exception.

  A bit field is a word of its width. \<open>gdt_word\<close>, \<open>idt_low\<close> and \<open>idt_high\<close> lay the fields out in
  memory, in the order of their declaration from bit 0 upwards; the functions \<open>seg_\<dots>\<close> and \<open>gate_\<dots>\<close>
  read them back the way the processor does. A handler is the address of a function, and what
  calling it does is an argument. String literals are placed in memory by the argument \<open>lit\<close>.
\<close>

section \<open>Descriptors\<close>

datatype segment_type = DATA_READ | DATA_READ_WRITE | CODE_EXECUTE_ACCESSED | CODE_EXECUTE_READ

fun segment_code :: "segment_type \<Rightarrow> u8" where
  "segment_code DATA_READ = 0"
| "segment_code DATA_READ_WRITE = 2"
| "segment_code CODE_EXECUTE_ACCESSED = 9"
| "segment_code CODE_EXECUTE_READ = 10"

datatype descriptor_type = TASK_GATE | INTERRUPT_GATE | TRAP_GATE

fun descriptor_code :: "descriptor_type \<Rightarrow> u8" where
  "descriptor_code TASK_GATE = 5"
| "descriptor_code INTERRUPT_GATE = 14"
| "descriptor_code TRAP_GATE = 15"

record gdt_entry =
  ge_limit_low :: "16 word"
  ge_base_low :: "16 word"
  ge_base_middle :: "8 word"
  ge_seg_type :: "4 word"
  ge_desc_type :: "1 word"
  ge_desc_priv :: "2 word"
  ge_present :: "1 word"
  ge_limit_high :: "4 word"
  ge_available :: "1 word"
  ge_long_mode :: "1 word"
  ge_op_size :: "1 word"
  ge_granularity :: "1 word"
  ge_base_high :: "8 word"

definition gdt_entry_zero :: gdt_entry where
  "gdt_entry_zero =
     \<lparr>ge_limit_low = 0, ge_base_low = 0, ge_base_middle = 0, ge_seg_type = 0, ge_desc_type = 0, ge_desc_priv = 0,
      ge_present = 0, ge_limit_high = 0, ge_available = 0, ge_long_mode = 0, ge_op_size = 0, ge_granularity = 0,
      ge_base_high = 0\<rparr>"

definition gdt_entry_make :: "u32 \<Rightarrow> u32 \<Rightarrow> segment_type \<Rightarrow> gdt_entry" where
  "gdt_entry_make base limit type =
     \<lparr>ge_limit_low = ucast (limit AND 0xFFFF), ge_base_low = ucast (base AND 0xFFFF),
      ge_base_middle = ucast (drop_bit 16 base AND 0xFF), ge_seg_type = ucast (segment_code type AND 0xF),
      ge_desc_type = 1, ge_desc_priv = 0, ge_present = 1, ge_limit_high = ucast (drop_bit 16 limit AND 0xF),
      ge_available = 0, ge_long_mode = 1, ge_op_size = 0, ge_granularity = 0,
      ge_base_high = ucast (drop_bit 24 base AND 0xFF)\<rparr>"

text \<open>Bit fields of the given widths, from bit 0 upwards.\<close>

fun pack :: "(nat \<times> u64) list \<Rightarrow> u64" where
  "pack [] = 0"
| "pack ((w, v) # fs) = take_bit w v OR push_bit w (pack fs)"

definition gdt_word :: "gdt_entry \<Rightarrow> u64" where
  "gdt_word e = pack
     [(16, ucast (ge_limit_low e)), (16, ucast (ge_base_low e)), (8, ucast (ge_base_middle e)),
      (4, ucast (ge_seg_type e)), (1, ucast (ge_desc_type e)), (2, ucast (ge_desc_priv e)), (1, ucast (ge_present e)),
      (4, ucast (ge_limit_high e)), (1, ucast (ge_available e)), (1, ucast (ge_long_mode e)), (1, ucast (ge_op_size e)),
      (1, ucast (ge_granularity e)), (8, ucast (ge_base_high e))]"

text \<open>The loader's descriptor table: null, code and data.\<close>

definition loader_gdt :: "gdt_entry list" where
  "loader_gdt = [gdt_entry_zero, gdt_entry_make 0 0 CODE_EXECUTE_READ, gdt_entry_make 0 0 DATA_READ_WRITE]"

record table_ptr =
  tp_limit :: "16 word"
  tp_base :: u64

definition loader_gdt_ptr :: "vaddr_t \<Rightarrow> table_ptr" where
  "loader_gdt_ptr gdt = \<lparr>tp_limit = of_nat (8 * length loader_gdt) - 1, tp_base = gdt\<rparr>"

record idt_entry =
  ie_offset_low :: "16 word"
  ie_selector :: "16 word"
  ie_ist :: "3 word"
  ie_reserved0 :: "5 word"
  ie_type :: "4 word"
  ie_zero :: "1 word"
  ie_dpl :: "2 word"
  ie_present :: "1 word"
  ie_offset_mid :: "16 word"
  ie_offset_high :: "32 word"
  ie_reserved1 :: "32 word"

definition idt_entry_make :: "u64 \<Rightarrow> descriptor_type \<Rightarrow> idt_entry" where
  "idt_entry_make isr_fn type =
     \<lparr>ie_offset_low = ucast (isr_fn AND 0xFFFF), ie_selector = 8, ie_ist = 0, ie_reserved0 = 0,
      ie_type = ucast (descriptor_code type AND 0xF), ie_zero = 0, ie_dpl = 0, ie_present = 1,
      ie_offset_mid = ucast (drop_bit 16 isr_fn AND 0xFFFF),
      ie_offset_high = ucast (drop_bit 32 isr_fn AND 0xFFFFFFFF), ie_reserved1 = 0\<rparr>"

definition idt_low :: "idt_entry \<Rightarrow> u64" where
  "idt_low e = pack
     [(16, ucast (ie_offset_low e)), (16, ucast (ie_selector e)), (3, ucast (ie_ist e)), (5, ucast (ie_reserved0 e)),
      (4, ucast (ie_type e)), (1, ucast (ie_zero e)), (2, ucast (ie_dpl e)), (1, ucast (ie_present e)),
      (16, ucast (ie_offset_mid e))]"

definition idt_high :: "idt_entry \<Rightarrow> u64" where
  "idt_high e = pack [(32, ucast (ie_offset_high e)), (32, ucast (ie_reserved1 e))]"

record int_frame =
  fr_rdi :: u64
  fr_rsi :: u64
  fr_rbp :: u64
  fr_rbx :: u64
  fr_rdx :: u64
  fr_rcx :: u64
  fr_rax :: u64
  fr_r8 :: u64
  fr_r9 :: u64
  fr_r10 :: u64
  fr_r11 :: u64
  fr_r12 :: u64
  fr_r13 :: u64
  fr_r14 :: u64
  fr_r15 :: u64
  fr_vector :: u64
  fr_err_code :: u64
  fr_rip :: u64
  fr_cs :: u64
  fr_flags :: u64
  fr_user_sp :: u64
  fr_user_ss :: u64

section \<open>The interrupt table\<close>

record irq =
  ir_idt :: "idt_entry list"
  ir_handlers :: "vaddr_t list"
  ir_idtr :: table_ptr
  ir_io :: io

text \<open>
  How \<open>isr_handler\<close> ends: it returns to the stub, with the frame as the handler left it, or
  \<open>arch::halt\<close> stops the processor. The way from the stub back to the interrupted code is in
  \<open>Arch_Switch\<close>.
\<close>

datatype isr_result = HandlerReturned int_frame irq | Halted irq

definition array_get :: "'a list \<Rightarrow> u64 \<Rightarrow> 'a exec" where
  "array_get xs i = guardE (unat i < length xs) OutOfBounds (Inr (xs ! unat i))"

definition irq_install_handler :: "irq \<Rightarrow> u8 \<Rightarrow> vaddr_t \<Rightarrow> irq" where
  "irq_install_handler s vector fn = s\<lparr>ir_handlers := (ir_handlers s)[unat vector := fn]\<rparr>"

definition irq_remove_handler :: "irq \<Rightarrow> u8 \<Rightarrow> irq" where
  "irq_remove_handler s vector = s\<lparr>ir_handlers := (ir_handlers s)[unat vector := nullptr]\<rparr>"

definition irq_get_handler :: "irq \<Rightarrow> u8 \<Rightarrow> vaddr_t" where
  "irq_get_handler s vector = ir_handlers s ! unat vector"

text \<open>\<open>init_idt\<close>; \<open>stubs\<close> is the table \<open>isr_stub_table\<close>, \<open>idt\<close> the address of the array.\<close>

definition init_idt :: "vaddr_t \<Rightarrow> (nat \<Rightarrow> u64) \<Rightarrow> irq \<Rightarrow> irq" where
  "init_idt idt stubs s =
     (let s = fold (\<lambda>i s. s\<lparr>ir_idt := (ir_idt s)[i := idt_entry_make (stubs i) INTERRUPT_GATE],
                           ir_handlers := (ir_handlers s)[i := nullptr]\<rparr>) [0..<256] s
      in s\<lparr>ir_idtr := \<lparr>tp_limit = 256 * 16 - 1, tp_base = idt\<rparr>\<rparr>)"

section \<open>Unhandled exceptions\<close>

definition exception_messages :: "string list" where
  "exception_messages =
     [''#DE Division By Zero'', ''#DB Debug'', ''Non Maskable Interrupt'', ''#BP Breakpoint'',
      ''#OF Into Detected Overflow'', ''#BR Out of Bounds'', ''#UD Invalid Opcode'', ''#NM No Coprocessor'',
      ''#DF Double Fault'', ''Coprocessor Segment Overrun'', ''#TS Bad TSS'', ''#NP Segment Not Present'',
      ''#SS Stack-Segment Fault'', ''#GP General Protection Fault'', ''#PF Page Fault'', ''Unknown Interrupt'',
      ''#MF Coprocessor Fault'', ''#AC Alignment Check'', ''#MC Machine Check'', ''#XF SIMD Floating-Point Exception'',
      ''#VE Virtualization Exception'', ''Reserved'', ''#SX Security Exception'', ''Reserved'', ''Triple Fault'',
      ''#FERR Legacy'', ''Reserved'', ''Reserved'', ''Reserved'', ''Reserved'', ''Reserved'', ''Reserved'']"

definition page_fault_messages :: "string list" where
  "page_fault_messages =
     [''Supervisory process tried to read a non-present page entry'',
      ''Supervisory process tried to read a page and caused a protection fault'',
      ''Supervisory process tried to write to a non-present page entry'',
      ''Supervisory process tried to write a page and caused a protection fault'',
      ''User process tried to read a non-present page entry'',
      ''User process tried to read a page and caused a protection fault'',
      ''User process tried to write to a non-present page entry'',
      ''User process tried to write a page and caused a protection fault'']"

definition report_format :: string where
  "report_format =
     ''\<newline>=== KERNEL UNHANDLED EXCEPTION 0x%02lX ===\<newline>=== %s\<newline>=== Dumping register contents below\<newline>'' @
     ''> rax: 0x%016lX rbx: 0x%016lX rcx: 0x%016lX rdx: 0x%016lX\<newline>'' @
     ''> rsi: 0x%016lX rdi: 0x%016lX rsp: 0x%016lX rbp: 0x%016lX\<newline>'' @
     ''> r8:  0x%016lX r9:  0x%016lX r10: 0x%016lX r11: 0x%016lX\<newline>'' @
     ''> r12: 0x%016lX r13: 0x%016lX r14: 0x%016lX r15: 0x%016lX\<newline>'' @
     ''> rip: 0x%016lX eflags: 0x%lX\<newline>=== Error code: 0x%016lX\<newline>''"

definition fault_format :: string where
  "fault_format = ''=== Page fault data:\<newline>=== %s\<newline>=== Faulting address: 0x%016lX\<newline>''"

definition dead_computer :: string where
  "dead_computer =
     ''+===============================================+\<newline>'' @
     ''|                                               |\<newline>'' @
     ''|  Kernel panic: The system has halted.         |\<newline>'' @
     ''|  Please reboot the system.                    |\<newline>'' @
     ''|  If you see this message again, please report |\<newline>'' @
     ''|  this to the developers.                      |\<newline>'' @
     ''|               _                               |\<newline>'' @
     ''|         __   |-|           THE SYSTEM         |\<newline>'' @
     ''|  jgs   [Ll]  |=|          IS DEAD! x.x        |\<newline>'' @
     ''|        ====`o'^'                              |\<newline>'' @
     ''+===============================================+\<newline>\<newline>''"

definition exception_handler ::
  "nat \<Rightarrow> (string \<Rightarrow> vaddr_t) \<Rightarrow> u64 \<Rightarrow> int_frame \<Rightarrow> u64 \<Rightarrow> irq \<Rightarrow> isr_result exec" where
  "exception_handler fuel lit cr2 r rsp s =
     bindE (array_get exception_messages (fr_vector r)) (\<lambda>msg.
     bindE (kerr fuel (chars report_format)
        [fr_vector r, lit msg, fr_rax r, fr_rbx r, fr_rcx r, fr_rdx r, fr_rsi r, fr_rdi r, rsp, fr_rbp r,
         fr_r8 r, fr_r9 r, fr_r10 r, fr_r11 r, fr_r12 r, fr_r13 r, fr_r14 r, fr_r15 r, fr_rip r, fr_flags r,
         fr_err_code r] (ir_io s)) (\<lambda>(io, _).
     bindE (if fr_vector r = 14
            then bindE (array_get page_fault_messages (fr_err_code r)) (\<lambda>msg.
                 kerr fuel (chars fault_format) [lit msg, cr2] io)
            else Inr (io, 0)) (\<lambda>(io, _).
     bindE (kerr fuel (chars ''\<newline>'') [] io) (\<lambda>(io, _).
     bindE (kerr fuel (chars dead_computer) [] io) (\<lambda>(io, _).
     Inr (Halted (s\<lparr>ir_io := io\<rparr>)))))))"

definition isr_handler ::
  "nat \<Rightarrow> (string \<Rightarrow> vaddr_t) \<Rightarrow> (vaddr_t \<Rightarrow> int_frame \<Rightarrow> irq \<Rightarrow> (int_frame \<times> irq) exec) \<Rightarrow> u64 \<Rightarrow>
   int_frame \<Rightarrow> u64 \<Rightarrow> irq \<Rightarrow> isr_result exec" where
  "isr_handler fuel lit call cr2 regs arg s =
     bindE (array_get (ir_handlers s) (fr_vector regs)) (\<lambda>handler.
     if handler \<noteq> nullptr then bindE (call handler regs s) (\<lambda>(regs, s). Inr (HandlerReturned regs s))
     else if fr_vector regs < 32 then exception_handler fuel lit cr2 regs arg s
     else bindE (kerr fuel (chars ''Unhandled interrupt: %d\<newline>'') [fr_vector regs] (ir_io s)) (\<lambda>(io, _).
          Inr (Halted (s\<lparr>ir_io := io\<rparr>))))"
section \<open>What the processor reads from a descriptor\<close>

definition field :: "nat \<Rightarrow> nat \<Rightarrow> u64 \<Rightarrow> u64" where
  "field pos width w = take_bit width (drop_bit pos w)"

lemma field_hd: "u \<le> 64 \<Longrightarrow> field 0 u (pack ((u, x) # fs)) = take_bit u x"
  by (auto intro!: bit_eqI simp: field_def bit_simps)

lemma field_tl: "u \<le> pos \<Longrightarrow> pos + width \<le> 64 \<Longrightarrow> field pos width (pack ((u, x) # fs)) = field (pos - u) width (pack fs)"
  by (auto intro!: bit_eqI simp: field_def bit_simps)

text \<open>The segment descriptor of the Intel manual, volume 3, figure 3-8.\<close>

definition seg_base :: "u64 \<Rightarrow> u32" where
  "seg_base w = ucast (field 16 16 w OR push_bit 16 (field 32 8 w) OR push_bit 24 (field 56 8 w))"

definition seg_limit :: "u64 \<Rightarrow> u32" where
  "seg_limit w = ucast (field 0 16 w OR push_bit 16 (field 48 4 w))"

text \<open>The interrupt gate, figure 6-8.\<close>

definition gate_offset :: "u64 \<Rightarrow> u64 \<Rightarrow> u64" where
  "gate_offset lo hi = field 0 16 lo OR push_bit 16 (field 48 16 lo) OR push_bit 32 (field 0 32 hi)"

lemma mask_numerals:
  "(0xF :: 'a::len word) = mask 4" "(0xFF :: 'a::len word) = mask 8" "(0xFFFF :: 'a::len word) = mask 16"
  "(0xFFFFFFFF :: 'a::len word) = mask 32"
  by (simp_all add: mask_eq_exp_minus_1)

lemma take_bit_ucast_self:
  fixes x :: "'a::len word"
  assumes "LENGTH('a) \<le> n"
  shows "take_bit n (ucast x :: u64) = ucast x"
  using assms by (intro bit_eqI) (auto simp: bit_simps dest: bit_imp_le_length)

lemma ucast_bit: "(ucast (x :: 1 word) :: u64) mod 2 = ucast x"
  using take_bit_ucast_self [of 1 x] by (simp add: take_bit_eq_mod)

lemma gdt_fields:
  shows "field 0 16 (gdt_word e) = ucast (ge_limit_low e)"
    "field 16 16 (gdt_word e) = ucast (ge_base_low e)"
    "field 32 8 (gdt_word e) = ucast (ge_base_middle e)"
    "field 40 4 (gdt_word e) = ucast (ge_seg_type e)"
    "field 44 1 (gdt_word e) = ucast (ge_desc_type e)"
    "field 45 2 (gdt_word e) = ucast (ge_desc_priv e)"
    "field 47 1 (gdt_word e) = ucast (ge_present e)"
    "field 48 4 (gdt_word e) = ucast (ge_limit_high e)"
    "field 52 1 (gdt_word e) = ucast (ge_available e)"
    "field 53 1 (gdt_word e) = ucast (ge_long_mode e)"
    "field 54 1 (gdt_word e) = ucast (ge_op_size e)"
    "field 55 1 (gdt_word e) = ucast (ge_granularity e)"
    "field 56 8 (gdt_word e) = ucast (ge_base_high e)"
  unfolding gdt_word_def by (simp_all add: field_hd field_tl take_bit_ucast_self ucast_bit del: pack.simps)

lemma idt_low_fields:
  shows "field 0 16 (idt_low e) = ucast (ie_offset_low e)"
    "field 16 16 (idt_low e) = ucast (ie_selector e)"
    "field 32 3 (idt_low e) = ucast (ie_ist e)"
    "field 35 5 (idt_low e) = ucast (ie_reserved0 e)"
    "field 40 4 (idt_low e) = ucast (ie_type e)"
    "field 44 1 (idt_low e) = ucast (ie_zero e)"
    "field 45 2 (idt_low e) = ucast (ie_dpl e)"
    "field 47 1 (idt_low e) = ucast (ie_present e)"
    "field 48 16 (idt_low e) = ucast (ie_offset_mid e)"
  unfolding idt_low_def by (simp_all add: field_hd field_tl take_bit_ucast_self ucast_bit del: pack.simps)

lemma idt_high_fields:
  shows "field 0 32 (idt_high e) = ucast (ie_offset_high e)"
    "field 32 32 (idt_high e) = ucast (ie_reserved1 e)"
  unfolding idt_high_def by (simp_all add: field_hd field_tl take_bit_ucast_self ucast_bit del: pack.simps)

text \<open>
  The constructor of \<open>gdt_entry\<close> makes a well-formed 8-byte descriptor for every base, limit
  and type: the base the processor puts together from its three parts is the base given, the
  limit is the low 20 bits of the limit given, the type is in its field, the descriptor is a
  present code or data segment of privilege 0, and the long mode bit is set with the default
  size bit clear.
\<close>

theorem gdt_entry_well_formed:
  "let w = gdt_word (gdt_entry_make base limit type)
   in seg_base w = base \<and> seg_limit w = take_bit 20 limit \<and> field 40 4 w = ucast (segment_code type) \<and>
      field 44 1 w = 1 \<and> field 45 2 w = 0 \<and> field 47 1 w = 1 \<and> field 53 1 w = 1 \<and> field 54 1 w = 0"
proof -
  let ?w = "gdt_word (gdt_entry_make base limit type)"
  have "seg_base ?w = base"
  proof (rule bit_eqI)
    fix n assume n: "possible_bit TYPE(u32) n"
    show "bit (seg_base ?w) n = bit base n" unfolding seg_base_def gdt_fields
      by (cases "n < 24") (use n in \<open>auto simp: gdt_entry_make_def mask_numerals bit_simps\<close>)
  qed
  moreover have "seg_limit ?w = take_bit 20 limit"
    unfolding seg_limit_def gdt_fields
    by (rule bit_eqI) (auto simp: gdt_entry_make_def mask_numerals bit_simps)
  moreover have "field 40 4 ?w = ucast (segment_code type)"
    unfolding gdt_fields by (cases type) (simp_all add: gdt_entry_make_def)
  moreover have "field 44 1 ?w = 1" "field 45 2 ?w = 0" "field 47 1 ?w = 1" "field 53 1 ?w = 1" "field 54 1 ?w = 0"
    unfolding gdt_fields by (simp_all add: gdt_entry_make_def)
  ultimately show ?thesis by (simp add: Let_def)
qed

lemma idt_gate:
  fixes f :: u64 and t :: descriptor_type
  defines "lo \<equiv> idt_low (idt_entry_make f t)" and "hi \<equiv> idt_high (idt_entry_make f t)"
  shows "gate_offset lo hi = f" "field 16 16 lo = 8" "field 32 3 lo = 0" "field 40 4 lo = ucast (descriptor_code t)"
    "field 45 2 lo = 0" "field 47 1 lo = 1" "field 32 32 hi = 0"
proof -
  show "gate_offset lo hi = f"
  proof (rule bit_eqI)
    fix n assume n: "possible_bit TYPE(u64) n"
    show "bit (gate_offset lo hi) n = bit f n"
      unfolding gate_offset_def lo_def hi_def idt_low_fields idt_high_fields
      by (cases "n < 32") (use n in \<open>auto simp: idt_entry_make_def mask_numerals bit_simps\<close>)
  qed
  show "field 40 4 lo = ucast (descriptor_code t)"
    unfolding lo_def idt_low_fields by (cases t) (simp_all add: idt_entry_make_def)
  show "field 16 16 lo = 8" "field 32 3 lo = 0" "field 45 2 lo = 0" "field 47 1 lo = 1" "field 32 32 hi = 0"
    unfolding lo_def hi_def idt_low_fields idt_high_fields by (simp_all add: idt_entry_make_def)
qed

section \<open>The table of handlers\<close>

definition irq_wf :: "irq \<Rightarrow> bool" where
  "irq_wf s \<longleftrightarrow> length (ir_idt s) = 256 \<and> length (ir_handlers s) = 256"

lemma init_idt_loop:
  assumes "n \<le> length (ir_idt s)" and "n \<le> length (ir_handlers s)"
  shows "fold (\<lambda>i s. s\<lparr>ir_idt := (ir_idt s)[i := idt_entry_make (stubs i) INTERRUPT_GATE],
                       ir_handlers := (ir_handlers s)[i := nullptr]\<rparr>) [0..<n] s =
    s\<lparr>ir_idt := map (\<lambda>i. idt_entry_make (stubs i) INTERRUPT_GATE) [0..<n] @ drop n (ir_idt s),
      ir_handlers := replicate n nullptr @ drop n (ir_handlers s)\<rparr>"
  using assms
proof (induction n)
  case (Suc n)
  then have "drop n (ir_idt s) = ir_idt s ! n # drop (Suc n) (ir_idt s)"
    "drop n (ir_handlers s) = ir_handlers s ! n # drop (Suc n) (ir_handlers s)"
    by (simp_all add: Cons_nth_drop_Suc)
  then show ?case using Suc by (simp add: list_update_append replicate_append_same [symmetric])
qed simp

lemma init_idt_eq:
  assumes "irq_wf s"
  shows "init_idt idt stubs s = s\<lparr>ir_idt := map (\<lambda>i. idt_entry_make (stubs i) INTERRUPT_GATE) [0..<256],
    ir_handlers := replicate 256 nullptr, ir_idtr := \<lparr>tp_limit = 4095, tp_base = idt\<rparr>\<rparr>"
  using assms init_idt_loop [of 256 s stubs] by (simp add: init_idt_def irq_wf_def Let_def)

text \<open>
  C23. After \<open>init_idt\<close> every one of the 256 interrupt vectors leads to its stub: the gate the
  processor decodes from the table is a present interrupt gate of privilege 0 in the kernel's
  code segment whose offset is the whole 64-bit address of the stub, the limit register covers
  exactly the table, and no handler is installed.
\<close>

theorem idt_leads_to_stubs:
  assumes "irq_wf s" and "i < 256"
  shows "let t = init_idt idt stubs s; e = ir_idt t ! i
    in gate_offset (idt_low e) (idt_high e) = stubs i \<and> field 16 16 (idt_low e) = 8 \<and> field 32 3 (idt_low e) = 0 \<and>
       field 40 4 (idt_low e) = 14 \<and> field 45 2 (idt_low e) = 0 \<and> field 47 1 (idt_low e) = 1 \<and>
       field 32 32 (idt_high e) = 0 \<and> ir_handlers t ! i = nullptr \<and>
       unat (tp_limit (ir_idtr t)) + 1 = 16 * length (ir_idt t) \<and> irq_wf t"
proof -
  have "ir_idt (init_idt idt stubs s) ! i = idt_entry_make (stubs i) INTERRUPT_GATE"
    using assms(2) by (simp add: init_idt_eq [OF assms(1)])
  then show ?thesis
    using assms(2) idt_gate [of "stubs i" INTERRUPT_GATE]
    by (simp add: Let_def) (simp add: init_idt_eq [OF assms(1)] irq_wf_def)
qed

definition example_irq :: irq where
  "example_irq = \<lparr>ir_idt = replicate 256 (idt_entry_make 0 TASK_GATE), ir_handlers = replicate 256 nullptr,
     ir_idtr = \<lparr>tp_limit = 0, tp_base = 0\<rparr>, ir_io = quiet_io\<rparr>"

lemma example_irq_wf: "irq_wf example_irq"
  by (simp add: irq_wf_def example_irq_def)

theorem idt_leads_to_stubs_witness:
  "let e = ir_idt (init_idt 0x5000 (\<lambda>i. 0xFFFF800000100000 + 16 * of_nat i) example_irq) ! 3
   in gate_offset (idt_low e) (idt_high e) = 0xFFFF800000100030"
  using idt_leads_to_stubs [OF example_irq_wf, of 3 "0x5000" "\<lambda>i. 0xFFFF800000100000 + 16 * of_nat i"]
  by (simp add: Let_def)
section \<open>Dispatch\<close>

text \<open>The calls on the table of handlers, and the handler a vector has after them.\<close>

datatype irq_call = Install u8 vaddr_t | Remove u8

fun irq_exec :: "irq \<Rightarrow> irq_call \<Rightarrow> irq" where
  "irq_exec s (Install v fn) = irq_install_handler s v fn"
| "irq_exec s (Remove v) = irq_remove_handler s v"

fun irq_spec :: "(u8 \<Rightarrow> vaddr_t) \<Rightarrow> irq_call \<Rightarrow> (u8 \<Rightarrow> vaddr_t)" where
  "irq_spec m (Install v fn) = m(v := fn)"
| "irq_spec m (Remove v) = m(v := nullptr)"

lemma unat_u8_less: "unat (v :: u8) < 256"
  using unsigned_less [of v] by simp

lemma irq_exec_table:
  assumes "irq_wf s" and "irq_get_handler s = m"
  shows "irq_wf (irq_exec s c)" and "irq_get_handler (irq_exec s c) = irq_spec m c"
  using assms unat_u8_less
  by (cases c; auto simp: irq_wf_def irq_install_handler_def irq_remove_handler_def irq_get_handler_def fun_eq_iff
      nth_list_update word_unat_eq_iff)+

lemma irq_exec_all:
  assumes "irq_wf s" and "irq_get_handler s = m"
  shows "irq_wf (foldl irq_exec s cs) \<and> irq_get_handler (foldl irq_exec s cs) = foldl irq_spec m cs"
  using assms
proof (induction cs arbitrary: s m)
  case (Cons c cs)
  then show ?case using irq_exec_table [OF Cons.prems, of c] by simp
qed simp

lemma isr_handler_dispatch:
  assumes "irq_wf s" and "fr_vector regs = ucast v"
  shows "isr_handler fuel lit call cr2 regs arg s =
    (if irq_get_handler s v \<noteq> nullptr
     then bindE (call (irq_get_handler s v) regs s) (\<lambda>(regs, s). Inr (HandlerReturned regs s))
     else if v < 32 then exception_handler fuel lit cr2 regs arg s
     else bindE (kerr fuel (chars ''Unhandled interrupt: %d\<newline>'') [fr_vector regs] (ir_io s)) (\<lambda>(io, _).
          Inr (Halted (s\<lparr>ir_io := io\<rparr>))))"
proof -
  have "unat (fr_vector regs) = unat v" using assms(2) by (simp add: unat_ucast_widen)
  then have "unat (fr_vector regs) < length (ir_handlers s)" "ir_handlers s ! unat (fr_vector regs) = irq_get_handler s v"
    "fr_vector regs < 32 \<longleftrightarrow> v < 32"
    using assms(1) unat_u8_less [of v] by (simp_all add: irq_wf_def irq_get_handler_def word_less_nat_alt)
  then show ?thesis by (simp add: isr_handler_def array_get_def)
qed

text \<open>
  C16. The table of handlers implements a map from interrupt vectors to functions: after
  \<open>init_idt\<close> and any sequence of installs and removals, \<open>irq_get_handler\<close> returns the last function
  installed and not removed since, and \<open>isr_handler\<close>, given a frame with that vector, calls exactly
  this function with the frame and the registers as they are and then returns to the stub that
  called it, with the frame as the function left it. What the stubs make of it is not part of this:
  they build a shifted frame for the vectors 20, 21 and 29, and their \<open>iret\<close> does not resume the
  interrupted code.
\<close>

theorem irq_table_refines:
  assumes "irq_wf s" and "fr_vector regs = ucast v"
  shows "let t = foldl irq_exec (init_idt idt stubs s) cs; m = foldl irq_spec (\<lambda>_. nullptr) cs
    in irq_get_handler t v = m v \<and>
       (m v \<noteq> nullptr \<longrightarrow> isr_handler fuel lit call cr2 regs arg t =
          bindE (call (m v) regs t) (\<lambda>(regs, s). Inr (HandlerReturned regs s)))"
proof -
  let ?t = "foldl irq_exec (init_idt idt stubs s) cs" and ?m = "foldl irq_spec (\<lambda>_. nullptr) cs"
  have "irq_wf (init_idt idt stubs s)" "irq_get_handler (init_idt idt stubs s) = (\<lambda>_. nullptr)"
    using unat_u8_less by (auto simp: init_idt_eq [OF assms(1)] irq_wf_def irq_get_handler_def)
  then have "irq_wf ?t \<and> irq_get_handler ?t = ?m" by (rule irq_exec_all)
  then show ?thesis using isr_handler_dispatch [OF _ assms(2), of ?t] by (simp add: Let_def)
qed

definition example_frame :: int_frame where
  "example_frame = \<lparr>fr_rdi = 0, fr_rsi = 0, fr_rbp = 0, fr_rbx = 0, fr_rdx = 0, fr_rcx = 0, fr_rax = 0, fr_r8 = 0,
     fr_r9 = 0, fr_r10 = 0, fr_r11 = 0, fr_r12 = 0, fr_r13 = 0, fr_r14 = 0, fr_r15 = 0, fr_vector = 33,
     fr_err_code = 0, fr_rip = 0, fr_cs = 8, fr_flags = 2, fr_user_sp = 0, fr_user_ss = 0\<rparr>"

theorem irq_table_refines_witness:
  "isr_handler 0 (\<lambda>_. 0) (\<lambda>f r s. if f = 0x2000 then Inr (r\<lparr>fr_rax := 7\<rparr>, s) else Inl UndefinedBehaviour) 0 example_frame 0
     (foldl irq_exec (init_idt 0 (\<lambda>_. 0) example_irq) [Install 33 0x1000, Install 33 0x2000, Remove 34]) =
   Inr (HandlerReturned (example_frame\<lparr>fr_rax := 7\<rparr>)
     (foldl irq_exec (init_idt 0 (\<lambda>_. 0) example_irq) [Install 33 0x1000, Install 33 0x2000, Remove 34]))"
proof -
  have "fr_vector example_frame = ucast (33 :: u8)" by (simp add: example_frame_def)
  from irq_table_refines [OF example_irq_wf this, of 0 "\<lambda>_. 0" "[Install 33 0x1000, Install 33 0x2000, Remove 34]" 0
      "\<lambda>_. 0" "\<lambda>f r s. if f = 0x2000 then Inr (r\<lparr>fr_rax := 7\<rparr>, s) else Inl UndefinedBehaviour" 0 0]
  show ?thesis by (simp add: Let_def)
qed

section \<open>The report of an unhandled interrupt\<close>

definition fields_text :: "(string \<times> u64) list \<Rightarrow> u8 list" where
  "fields_text fs = concat (map (\<lambda>(name, v). chars name @ hex 16 v) fs)"

definition report_text :: "int_frame \<Rightarrow> u64 \<Rightarrow> string \<Rightarrow> u8 list" where
  "report_text r rsp message =
     chars ''\<newline>=== KERNEL UNHANDLED EXCEPTION 0x'' @ hex 2 (fr_vector r) @
     chars '' ===\<newline>=== '' @ chars message @ chars ''\<newline>=== Dumping register contents below\<newline>'' @
     fields_text
       [(''> rax: 0x'', fr_rax r), ('' rbx: 0x'', fr_rbx r), ('' rcx: 0x'', fr_rcx r), ('' rdx: 0x'', fr_rdx r),
        (''\<newline>> rsi: 0x'', fr_rsi r), ('' rdi: 0x'', fr_rdi r), ('' rsp: 0x'', rsp), ('' rbp: 0x'', fr_rbp r),
        (''\<newline>> r8:  0x'', fr_r8 r), ('' r9:  0x'', fr_r9 r), ('' r10: 0x'', fr_r10 r), ('' r11: 0x'', fr_r11 r),
        (''\<newline>> r12: 0x'', fr_r12 r), ('' r13: 0x'', fr_r13 r), ('' r14: 0x'', fr_r14 r), ('' r15: 0x'', fr_r15 r),
        (''\<newline>> rip: 0x'', fr_rip r)] @
     chars '' eflags: 0x'' @ hex 0 (fr_flags r) @ fields_text [(''\<newline>=== Error code: 0x'', fr_err_code r)] @ chars ''\<newline>''"

definition fault_text :: "string \<Rightarrow> u64 \<Rightarrow> u8 list" where
  "fault_text message cr2 =
     chars ''=== Page fault data:\<newline>=== '' @ chars message @
     fields_text [(''\<newline>=== Faulting address: 0x'', cr2)] @ chars ''\<newline>''"

lemma report_format_text:
  assumes "strs m = Some (chars msg)"
  shows "format_text strs (chars report_format)
      [fr_vector r, m, fr_rax r, fr_rbx r, fr_rcx r, fr_rdx r, fr_rsi r, fr_rdi r, rsp, fr_rbp r,
       fr_r8 r, fr_r9 r, fr_r10 r, fr_r11 r, fr_r12 r, fr_r13 r, fr_r14 r, fr_r15 r, fr_rip r, fr_flags r,
       fr_err_code r] = Some (report_text r rsp msg)"
  using assms by (simp add: report_format_def report_text_def fields_text_def chars_def format_text_rules)

lemma fault_format_text:
  assumes "strs m = Some (chars msg)"
  shows "format_text strs (chars fault_format) [m, cr2] = Some (fault_text msg cr2)"
  using assms by (simp add: fault_format_def fault_text_def fields_text_def chars_def format_text_rules)
text \<open>The string literals of the messages, as the strings a pointer can lead to.\<close>

definition literals :: "(string \<Rightarrow> vaddr_t) \<Rightarrow> strings \<Rightarrow> bool" where
  "literals lit strs \<longleftrightarrow>
     (\<forall>msg \<in> set exception_messages \<union> set page_fault_messages. strs (lit msg) = Some (chars msg))"

definition unhandled_text :: "int_frame \<Rightarrow> u64 \<Rightarrow> u64 \<Rightarrow> u8 list" where
  "unhandled_text r rsp cr2 =
     (if fr_vector r < 32
      then report_text r rsp (exception_messages ! unat (fr_vector r)) @
        (if fr_vector r = 14 then fault_text (page_fault_messages ! unat (fr_err_code r)) cr2 else []) @
        chars ''\<newline>'' @ chars dead_computer
      else chars ''Unhandled interrupt: '' @ decimal (unat (fr_vector r)) @ chars ''\<newline>'')"

lemma message_counts: "length exception_messages = 32" "length page_fault_messages = 8"
  by (simp_all add: exception_messages_def page_fault_messages_def)

lemma plain_messages: "37 \<notin> set (chars ''\<newline>'')" "37 \<notin> set (chars dead_computer)"
  by (simp_all add: chars_def dead_computer_def)

text \<open>The texts are short enough for the counter of \<open>ssprintf\<close>.\<close>

lemma message_lengths: "m \<in> set exception_messages \<union> set page_fault_messages \<Longrightarrow> length m < 256"
  by (auto simp: exception_messages_def page_fault_messages_def)

lemma report_short: "length m < 256 \<Longrightarrow> length (report_text r rsp m) < 2 ^ 31"
  using length_hex(1) [of 2 "fr_vector r"] length_hex(1) [of 0 "fr_flags r"]
  by (simp add: report_text_def fields_text_def chars_def length_hex(2))

lemma fault_short: "length m < 256 \<Longrightarrow> length (fault_text m cr2) < 2 ^ 31"
  by (simp add: fault_text_def fields_text_def chars_def length_hex(2))

lemma plain_short: "length (chars ''\<newline>'') < 2 ^ 31" "length (chars dead_computer) < 2 ^ 31"
  by (simp_all add: chars_def dead_computer_def)

lemma kerr_io:
  assumes "format_text strs fmt args = Some cs" and "readable strs fuel (io_mem io)" and "length cs < 2 ^ 31"
  shows "bindE (kerr fuel fmt args io) (\<lambda>(io, _). k io) = k (io\<lparr>io_buf := 0, io_com1 := io_com1 io @ cs\<rparr>)"
  using kerr_text [OF assms] by simp

lemma exception_handler_report:
  assumes "literals lit strs" and "readable strs fuel (io_mem (ir_io s))"
    and "fr_vector r < 32" and "fr_vector r = 14 \<longrightarrow> fr_err_code r < 8"
  shows "exception_handler fuel lit cr2 r rsp s =
    Inr (Halted (s\<lparr>ir_io := (ir_io s)\<lparr>io_buf := 0, io_com1 := io_com1 (ir_io s) @ unhandled_text r rsp cr2\<rparr>\<rparr>))"
proof -
  let ?msg = "exception_messages ! unat (fr_vector r)" and ?pf = "page_fault_messages ! unat (fr_err_code r)"
  have v: "unat (fr_vector r) < 32" using assms(3) by (simp add: word_less_nat_alt)
  have msg: "array_get exception_messages (fr_vector r) = Inr ?msg" "strs (lit ?msg) = Some (chars ?msg)"
    using v assms(1) by (auto simp: array_get_def message_counts literals_def)
  have pf: "array_get page_fault_messages (fr_err_code r) = Inr ?pf" "strs (lit ?pf) = Some (chars ?pf)" if "fr_vector r = 14"
    using that assms(1,4) by (auto simp: array_get_def message_counts literals_def word_less_nat_alt)
  have "?msg \<in> set exception_messages" using v message_counts by simp
  then have "length ?msg < 256" by (intro message_lengths) simp
  note report = kerr_io [OF report_format_text [where strs = strs and r = r and rsp = rsp, OF msg(2)] _ report_short [OF this]]
  have "?pf \<in> set page_fault_messages" if "fr_vector r = 14"
    using that assms(4) message_counts by (intro nth_mem) (simp add: word_less_nat_alt)
  then have pfs: "length (fault_text ?pf cr2) < 2 ^ 31" if "fr_vector r = 14"
    using that by (intro fault_short message_lengths) simp
  note plain = kerr_io [OF format_text_plain [OF plain_messages(1), of strs] _ plain_short(1)]
    kerr_io [OF format_text_plain [OF plain_messages(2), of strs] _ plain_short(2)]
  let ?io = "(ir_io s)\<lparr>io_buf := 0, io_com1 := io_com1 (ir_io s) @ report_text r rsp ?msg\<rparr>"
  have step: "exception_handler fuel lit cr2 r rsp s =
     bindE (if fr_vector r = 14
            then bindE (array_get page_fault_messages (fr_err_code r)) (\<lambda>msg. kerr fuel (chars fault_format) [lit msg, cr2] ?io)
            else Inr (?io, 0)) (\<lambda>(io, _).
     bindE (kerr fuel (chars ''\<newline>'') [] io) (\<lambda>(io, _).
     bindE (kerr fuel (chars dead_computer) [] io) (\<lambda>(io, _). Inr (Halted (s\<lparr>ir_io := io\<rparr>)))))"
    using assms(2) by (simp add: exception_handler_def msg(1) report)
  show ?thesis
  proof (cases "fr_vector r = 14")
    case True
    then show ?thesis
      using assms(2) pf(1) [OF True] kerr_text [OF fault_format_text [where strs = strs, OF pf(2) [OF True]] _ pfs [OF True]]
      unfolding step by (simp add: plain unhandled_text_def)
  next
    case False
    then show ?thesis
      using assms(2,3) unfolding step by (simp add: plain unhandled_text_def)
  qed
qed

text \<open>
  C17. An interrupt for which no handler is installed never resumes the interrupted code, and what is
  reported is exact. The exceptions 0 to 31 print the report with the vector, the name of the
  exception, all registers of the saved frame in 16 hexadecimal digits, for a page fault the kind
  of access and the address, and the final message; all other vectors print their number; then
  the processor is halted and the interrupt table is as before. The one exception: for a page
  fault whose error code has a bit above the third (reserved bits, instruction fetch, \<dots>) the
  report itself reads behind the end of the table of messages.
\<close>

theorem unhandled_reports_and_halts:
  assumes "irq_wf s" and "fr_vector regs = ucast v" and "irq_get_handler s v = nullptr"
    and "literals lit strs" and "readable strs fuel (io_mem (ir_io s))"
  shows "isr_handler fuel lit call cr2 regs arg s =
    (if v = 14 \<and> 8 \<le> fr_err_code regs then Inl OutOfBounds
     else Inr (Halted (s\<lparr>ir_io := (ir_io s)\<lparr>io_buf := 0,
       io_com1 := io_com1 (ir_io s) @ unhandled_text regs arg cr2\<rparr>\<rparr>)))"
proof -
  have v: "fr_vector regs < 32 \<longleftrightarrow> v < 32" "fr_vector regs = 14 \<longleftrightarrow> v = 14"
    unfolding assms(2) using unat_ucast_widen [where 'b = 64, of v]
    by (simp_all add: word_less_nat_alt word_unat_eq_iff)
  show ?thesis
  proof (cases "v < 32")
    case True
    show ?thesis
    proof (cases "v = 14 \<and> 8 \<le> fr_err_code regs")
      case bad: True
      then have vec: "fr_vector regs = 14" using v by simp
      let ?msg = "exception_messages ! 14"
      have "strs (lit ?msg) = Some (chars ?msg)" using assms(4) message_counts by (auto simp: literals_def)
      moreover have "length ?msg < 256" by (rule message_lengths) (simp add: message_counts)
      ultimately have report: "bindE (kerr fuel (chars report_format)
        [fr_vector regs, lit ?msg, fr_rax regs, fr_rbx regs, fr_rcx regs, fr_rdx regs, fr_rsi regs, fr_rdi regs, arg,
         fr_rbp regs, fr_r8 regs, fr_r9 regs, fr_r10 regs, fr_r11 regs, fr_r12 regs, fr_r13 regs, fr_r14 regs,
         fr_r15 regs, fr_rip regs, fr_flags regs, fr_err_code regs] (ir_io s)) (\<lambda>(io, _). Inl e) = Inl e" for e :: fault
        using kerr_io [OF report_format_text [where strs = strs] assms(5) report_short, of _ ?msg] by simp
      have "\<not> unat (fr_err_code regs) < 8" using bad by (simp add: word_le_nat_alt)
      then have "exception_handler fuel lit cr2 regs arg s = Inl OutOfBounds"
        using report by (simp add: exception_handler_def array_get_def message_counts vec guardE_def)
      with True bad assms(3) show ?thesis by (simp add: isr_handler_dispatch [OF assms(1,2)])
    next
      case False
      with True show ?thesis
        using exception_handler_report [OF assms(4,5)] v by (auto simp: isr_handler_dispatch [OF assms(1,2)] assms(3))
    qed
  next
    case False
    have "0 \<le>s fr_vector regs" unfolding assms(2)
      by (auto simp: word_sle_eq signed_ucast_eq bit_uint_iff dest: bit_imp_le_length)
    then have fmt: "format_text strs (chars ''Unhandled interrupt: %d\<newline>'') [fr_vector regs] =
        Some (chars ''Unhandled interrupt: '' @ decimal (unat (fr_vector regs)) @ chars ''\<newline>'')"
      by (simp add: chars_def format_text_rules)
    have len: "length (chars ''Unhandled interrupt: '' @ decimal (unat (fr_vector regs)) @ chars ''\<newline>'') < 2 ^ 31"
      using length_decimal [of "fr_vector regs"] by (simp add: chars_def)
    from kerr_io [OF fmt assms(5) len] False v show ?thesis
      by (auto simp: isr_handler_dispatch [OF assms(1,2)] assms(3) unhandled_text_def)
  qed
qed

text \<open>A memory that holds the messages.\<close>

definition all_messages :: "string list" where
  "all_messages = exception_messages @ page_fault_messages"

definition sample_lit :: "string \<Rightarrow> vaddr_t" where
  "sample_lit = table_lit 0x10000 all_messages"

definition sample_literals :: strings where
  "sample_literals = table_strings 0x10000 (map chars all_messages)"

definition literal_mem :: mem where
  "literal_mem = table_mem 0x10000 (map chars all_messages)"

lemma sample_literals_ok: "literals sample_lit sample_literals"
  using table_lit_strings [of _ all_messages "0x10000"]
  by (auto simp: literals_def sample_literals_def sample_lit_def all_messages_def message_counts)

lemma sample_literals_readable: "readable sample_literals 100 literal_mem"
  unfolding sample_literals_def literal_mem_def
proof (rule table_readable)
  show "length (map chars all_messages) \<le> 2 ^ 32" by (simp add: all_messages_def message_counts)
  show "\<forall>m \<in> set (map chars all_messages). length m < 256 \<and> length m < 100 \<and> 0 \<notin> set m"
    by (simp add: all_messages_def exception_messages_def page_fault_messages_def chars_def)
qed simp

theorem unhandled_reports_and_halts_witness:
  "isr_handler 100 sample_lit (\<lambda>f r s. Inr (r, s)) 0 (example_frame\<lparr>fr_vector := 14, fr_err_code := 16\<rparr>) 0
     (example_irq\<lparr>ir_io := quiet_io\<lparr>io_mem := literal_mem\<rparr>\<rparr>) = Inl OutOfBounds \<and>
   (\<exists>s. isr_handler 100 sample_lit (\<lambda>f r s. Inr (r, s)) 0 example_frame 0
     (example_irq\<lparr>ir_io := quiet_io\<lparr>io_mem := literal_mem\<rparr>\<rparr>) = Inr (Halted s) \<and>
     io_com1 (ir_io s) = chars ''Unhandled interrupt: 33\<newline>'')"
proof -
  let ?s = "example_irq\<lparr>ir_io := quiet_io\<lparr>io_mem := literal_mem\<rparr>\<rparr>"
  have wf: "irq_wf ?s" using example_irq_wf by (simp add: irq_wf_def)
  have h: "irq_get_handler ?s v = nullptr" for v
    using unat_u8_less [of v] by (simp add: irq_get_handler_def example_irq_def)
  have v: "fr_vector example_frame = ucast (33 :: u8)"
    "fr_vector (example_frame\<lparr>fr_vector := 14, fr_err_code := 16\<rparr>) = ucast (14 :: u8)"
    by (simp_all add: example_frame_def)
  have mem: "readable sample_literals 100 (io_mem (ir_io ?s))" by (simp add: sample_literals_readable)
  have "decimal 33 = [51, 51]" by code_simp
  then have "unhandled_text example_frame 0 0 = chars ''Unhandled interrupt: 33\<newline>''"
    by (simp add: unhandled_text_def example_frame_def chars_def)
  then show ?thesis
    using unhandled_reports_and_halts [OF wf v(1) h sample_literals_ok mem, of "\<lambda>f r s. Inr (r, s)" 0 0]
      unhandled_reports_and_halts [OF wf v(2) h sample_literals_ok mem, of "\<lambda>f r s. Inr (r, s)" 0 0]
    by (simp add: quiet_io_def)
qed

end
