(* ===== verification/Core_VmRegion.thy ===== *)
theory Core_VmRegion
  imports Ebl_Memory
begin

text \<open>
  \<open>core/vmregion.cc\<close>, \<open>core/include/core/vmregion.h\<close> and the address space of
  \<open>core/include/core/vm.h\<close>: the tree of virtual memory regions of an address space.

  The fields of every \<open>VmRegion\<close> are functions of its address; the children of a region are
  an intrusive list of reference-counted nodes (theories \<open>Ebl_Linked_List\<close> and
  \<open>Ebl_Memory\<close>). The pointer that \<open>kmem::alloc\<close> returns for a new region is an argument of
  the operation that allocates it, because that function is linked in (the slab allocator in
  the kernel, \<open>malloc\<close> in the tests); null stands for its failure.
\<close>

section \<open>Regions\<close>

text \<open>\<open>VmRegionFlags\<close>: a union of bit fields over one byte.\<close>

type_synonym vm_flags_t = u8

definition flag_capability :: "vm_flags_t \<Rightarrow> u8" where
  "flag_capability f = bf_get 0 4 f"

definition flag_type :: "vm_flags_t \<Rightarrow> u8" where
  "flag_type f = bf_get 4 1 f"

definition flag_is_root :: "vm_flags_t \<Rightarrow> u8" where
  "flag_is_root f = bf_get 5 1 f"

definition set_capability :: "vm_flags_t \<Rightarrow> u8 \<Rightarrow> vm_flags_t" where
  "set_capability f v = bf_assign 0 4 f v"

definition set_type :: "vm_flags_t \<Rightarrow> u8 \<Rightarrow> vm_flags_t" where
  "set_type f v = bf_assign 4 1 f v"

definition set_is_root :: "vm_flags_t \<Rightarrow> u8 \<Rightarrow> vm_flags_t" where
  "set_is_root f v = bf_assign 5 1 f v"

definition REGION :: u8 where
  "REGION = 0"

definition MAPPING :: u8 where
  "MAPPING = 1"

record vmm =
  vm_heap :: ref_heap
  vm_base :: "vaddr_t \<Rightarrow> vaddr_t"
  vm_size :: "vaddr_t \<Rightarrow> u64"
  vm_flags :: "vaddr_t \<Rightarrow> vm_flags_t"
  vm_parent :: "vaddr_t \<Rightarrow> vaddr_t"
  vm_aspace :: "vaddr_t \<Rightarrow> vaddr_t"
  vm_object :: "vaddr_t \<Rightarrow> vaddr_t"
  vm_children :: "vaddr_t \<Rightarrow> vaddr_t"
  as_pml4 :: "vaddr_t \<Rightarrow> u64"

text \<open>The constructor of a region, on memory already obtained.\<close>

definition vmregion_init ::
  "vmm \<Rightarrow> vaddr_t \<Rightarrow> vaddr_t \<Rightarrow> u64 \<Rightarrow> vm_flags_t \<Rightarrow> vaddr_t \<Rightarrow> vmm" where
  "vmregion_init s this base sz flags aspace =
     s\<lparr>vm_heap := (vm_heap s)\<lparr>rl_links := node_init (rl_links (vm_heap s)) this\<rparr>,
       vm_base := (vm_base s)(this := base),
       vm_size := (vm_size s)(this := sz),
       vm_flags := (vm_flags s)(this := flags),
       vm_parent := (vm_parent s)(this := nullptr),
       vm_aspace := (vm_aspace s)(this := aspace),
       vm_object := (vm_object s)(this := nullptr),
       vm_children := (vm_children s)(this := nullptr)\<rparr>"

text \<open>\<open>AddressSpace\<close>: its constructor sets up the two root regions.\<close>

definition root_flags :: vm_flags_t where
  "root_flags = set_is_root (set_type (set_capability 0 15) REGION) 1"

definition address_space_init :: "vmm \<Rightarrow> vaddr_t \<Rightarrow> vaddr_t \<Rightarrow> vaddr_t \<Rightarrow> vmm" where
  "address_space_init s this user_root kernel_root =
     (let s = vmregion_init s user_root 0 0 0 this;
          s = vmregion_init s kernel_root 0 0 0 this
      in s\<lparr>vm_flags := (vm_flags s)(user_root := root_flags, kernel_root := root_flags)\<rparr>)"

text \<open>
  \<open>arch::init_aspace\<close> of \<open>arch/x86-64/thread.cc\<close>: the page table root (\<open>cr3\<close> is what the
  control register holds) and the extent of the two root regions.
\<close>

definition init_aspace :: "vmm \<Rightarrow> vaddr_t \<Rightarrow> vaddr_t \<Rightarrow> vaddr_t \<Rightarrow> u64 \<Rightarrow> vmm" where
  "init_aspace s aspace user_root kernel_root cr3 =
     s\<lparr>as_pml4 := (as_pml4 s)(aspace := cr3),
       vm_base := (vm_base s)(user_root := 0, kernel_root := 0xFFFF800000000000),
       vm_size := (vm_size s)(user_root := 0x00007FFFFFFFFFFF,
                              kernel_root := 0x00007FFFFFFFFFFF)\<rparr>"

section \<open>Holes\<close>

text \<open>
  \<open>foreach_hole\<close>: the callback gets the child above the hole (or null), the base and the
  size of the hole, and returns whether to continue. \<open>offset\<close> starts at 0 and is then the
  end of the last child.
\<close>

definition foreach_hole ::
  "nat \<Rightarrow> vmm \<Rightarrow> vaddr_t \<Rightarrow> (vaddr_t \<Rightarrow> vaddr_t \<Rightarrow> u64 \<Rightarrow> 'b \<Rightarrow> 'b \<times> bool) \<Rightarrow> 'b \<Rightarrow> 'b exec" where
  "foreach_hole fuel s this func acc =
     bindE
       (for_nodes fuel (rl_links (vm_heap s)) (list_begin (vm_children s this))
          (list_end (vm_children s this))
          (\<lambda>child (offset, acc). guardE (child \<noteq> nullptr) NullDeref
             (if vm_base s child > vm_base s this + offset
              then let (acc, go_on) = func child offset (vm_base s child - vm_base s this - offset) acc
                   in Inr ((vm_base s child + vm_size s child, acc), go_on)
              else Inr ((vm_base s child + vm_size s child, acc), True)))
          (0, acc))
       (\<lambda>((offset, acc), finished).
          if finished \<and> vm_base s this + vm_size s this > vm_base s this + offset
          then Inr (fst (func nullptr offset
                           (vm_base s this + vm_size s this - vm_base s this - offset) acc))
          else Inr acc)"

text \<open>The first-fit callback of \<open>allocate_vmr_compact\<close>.\<close>

definition first_fit ::
  "u64 \<Rightarrow> u64 \<Rightarrow> vaddr_t \<Rightarrow> vaddr_t \<Rightarrow> u64 \<Rightarrow> (vaddr_t \<times> u64 \<times> vaddr_t) option
     \<Rightarrow> (vaddr_t \<times> u64 \<times> vaddr_t) option \<times> bool" where
  "first_fit align sz x hole_base hole_size found =
     (let aligned_base = align_up hole_base align in
      if aligned_base + sz > hole_base + hole_size then (found, True)
      else (Some (aligned_base, sz, x), False))"

section \<open>Operations\<close>

definition vmr_align :: "u8 \<Rightarrow> u64" where
  "vmr_align align_pow2 = ucast (ebl_max (push_bit (unat align_pow2) 1 :: u32) page_size)"

definition vmr_insert :: "vmm \<Rightarrow> vaddr_t \<Rightarrow> vaddr_t \<Rightarrow> vaddr_t \<Rightarrow> vmm exec" where
  "vmr_insert s this child new_vmr =
     bindE (refptr_raw (rl_rc (vm_heap s)) new_vmr) (\<lambda>rc.
     bindE (if child = nullptr
            then ref_push_back ((vm_heap s)\<lparr>rl_rc := rc\<rparr>) (vm_children s this) new_vmr
            else ref_insert_before ((vm_heap s)\<lparr>rl_rc := rc\<rparr>) (vm_children s this) child new_vmr)
       (\<lambda>(heap, root).
     bindE (refptr_destroy (rl_rc heap) new_vmr) (\<lambda>rc.
     Inr (s\<lparr>vm_heap := heap\<lparr>rl_rc := rc\<rparr>, vm_children := (vm_children s)(this := root)\<rparr>))))"

definition allocate_vmr_compact ::
  "nat \<Rightarrow> vmm \<Rightarrow> vaddr_t \<Rightarrow> u64 \<Rightarrow> u8 \<Rightarrow> vm_flags_t \<Rightarrow> vaddr_t \<Rightarrow> (vmm \<times> (E + vaddr_t)) exec" where
  "allocate_vmr_compact fuel s this sz align_pow2 flags ptr =
     guardE (this \<noteq> nullptr) NullDeref
     (if flag_capability flags AND flag_capability (vm_flags s this) \<noteq> flag_capability flags
      then Inr (s, Inl PERMISSION_DENIED)
      else if flag_type flags \<noteq> REGION then Inr (s, Inl INVALID_ARGUMENT)
      else guardE (unat align_pow2 < 32) UndefinedBehaviour
       (guardE (sz mod page_size64 = 0) AssertFailed
        (bindE (foreach_hole fuel s this (first_fit (vmr_align align_pow2) sz) None) (\<lambda>found.
           case found of
             None \<Rightarrow> Inr (s, Inl ALLOCATION_FAILED)
           | Some (new_hole_base, new_hole_size, child) \<Rightarrow>
             let new_flags = set_is_root (set_capability (set_type 0 REGION) (flag_capability flags)) 0
             in case make_ref (rl_rc (vm_heap s)) ptr of
                  Inl e \<Rightarrow> Inr (s, Inl e)
                | Inr (rc, new_vmr) \<Rightarrow>
                  let s = vmregion_init (s\<lparr>vm_heap := (vm_heap s)\<lparr>rl_rc := rc\<rparr>\<rparr>) new_vmr
                            new_hole_base new_hole_size new_flags (vm_aspace s this);
                      s = s\<lparr>vm_parent := (vm_parent s)(new_vmr := this)\<rparr>
                  in bindE (vmr_insert s this child new_vmr) (\<lambda>s. Inr (s, Inr new_vmr))))))"

definition allocate_vmr_sparse ::
  "vmm \<Rightarrow> vaddr_t \<Rightarrow> u64 \<Rightarrow> u8 \<Rightarrow> vm_flags_t \<Rightarrow> (vmm \<times> (E + vaddr_t)) exec" where
  "allocate_vmr_sparse s this sz align_pow2 flags = Inr (s, Inl NOT_IMPLEMENTED)"

definition vmr_map_pages ::
  "vmm \<Rightarrow> vaddr_t \<Rightarrow> vaddr_t \<Rightarrow> u64 \<Rightarrow> vm_flags_t \<Rightarrow> vaddr_t \<Rightarrow> vaddr_t \<Rightarrow> u64
     \<Rightarrow> (vmm \<times> (E + vaddr_t)) exec" where
  "vmr_map_pages s this offset sz flags object vmo_offset mmu_flags = Inr (s, Inl NOT_IMPLEMENTED)"

definition vmr_protect :: "vmm \<Rightarrow> vaddr_t \<Rightarrow> vaddr_t \<Rightarrow> u64 \<Rightarrow> u64 \<Rightarrow> (vmm \<times> E) exec" where
  "vmr_protect s this addr sz flags = Inr (s, NOT_IMPLEMENTED)"

text \<open>
  \<open>find_child_above\<close> returns a new reference to the first child at or above the offset;
  \<open>does_overlap_child\<close> drops it again.
\<close>

definition find_child_above :: "nat \<Rightarrow> vmm \<Rightarrow> vaddr_t \<Rightarrow> vaddr_t \<Rightarrow> (vmm \<times> vaddr_t) exec" where
  "find_child_above fuel s this offset =
     bindE
       (for_nodes fuel (rl_links (vm_heap s)) (list_begin (vm_children s this))
          (list_end (vm_children s this))
          (\<lambda>child found. guardE (child \<noteq> nullptr) NullDeref
             (if vm_base s child \<ge> vm_base s this + offset then Inr (child, False)
              else Inr (found, True)))
          nullptr)
       (\<lambda>(child, _).
     bindE (refptr_raw (rl_rc (vm_heap s)) child) (\<lambda>rc.
     Inr (s\<lparr>vm_heap := (vm_heap s)\<lparr>rl_rc := rc\<rparr>\<rparr>, child)))"

definition does_overlap_child ::
  "nat \<Rightarrow> vmm \<Rightarrow> vaddr_t \<Rightarrow> vaddr_t \<Rightarrow> u64 \<Rightarrow> (vmm \<times> bool) exec" where
  "does_overlap_child fuel s this offset sz =
     (let end_ad = vm_base s this + offset + sz in
      bindE (find_child_above fuel s this offset) (\<lambda>(s, child).
      if child = nullptr then Inr (s, False)
      else let answer = vm_base s child \<le> end_ad
           in bindE (refptr_destroy (rl_rc (vm_heap s)) child) (\<lambda>rc.
              Inr (s\<lparr>vm_heap := (vm_heap s)\<lparr>rl_rc := rc\<rparr>\<rparr>, answer))))"

text \<open>
  \<open>destroy\<close>: pop every child, detach it, destroy it and drop the popped reference; then
  remove the region from its parent's list. One unit of fuel per loop iteration and per
  level.
\<close>

fun vmr_destroy :: "nat \<Rightarrow> vmm \<Rightarrow> vaddr_t \<Rightarrow> (vmm \<times> E) exec"
  and destroy_children :: "nat \<Rightarrow> vmm \<Rightarrow> vaddr_t \<Rightarrow> E \<Rightarrow> (vmm \<times> E) exec" where
  "vmr_destroy 0 s this = Inl OutOfFuel"
| "vmr_destroy (Suc fuel) s this =
     bindE (destroy_children fuel s this OK) (\<lambda>(s, status).
       if vm_parent s this \<noteq> nullptr
       then let parent = vm_parent s this in
            bindE (refptr_raw (rl_rc (vm_heap s)) this) (\<lambda>rc.
            bindE (ref_remove ((vm_heap s)\<lparr>rl_rc := rc\<rparr>) (vm_children s parent) this) (\<lambda>(heap, root).
            bindE (refptr_destroy (rl_rc heap) this) (\<lambda>rc.
            Inr (s\<lparr>vm_heap := heap\<lparr>rl_rc := rc\<rparr>,
                   vm_children := (vm_children s)(parent := root)\<rparr>, status))))
       else Inr (s, status))"
| "destroy_children 0 s this status = Inl OutOfFuel"
| "destroy_children (Suc fuel) s this status =
     (if empty_list (vm_children s this) then Inr (s, status)
      else bindE (ref_pop_front (vm_heap s) (vm_children s this)) (\<lambda>(heap, root, child).
           let s = s\<lparr>vm_heap := heap, vm_children := (vm_children s)(this := root),
                     vm_parent := (vm_parent s)(child := nullptr)\<rparr>
           in bindE (vmr_destroy fuel s child) (\<lambda>(s, res).
              let status = (if res = OK then res else status)
              in bindE (refptr_destroy (rl_rc (vm_heap s)) child) (\<lambda>rc.
                 destroy_children fuel (s\<lparr>vm_heap := (vm_heap s)\<lparr>rl_rc := rc\<rparr>\<rparr>) this status))))"

section \<open>The first-fit search on the list of children\<close>

abbreviation region_lo :: "vmm \<Rightarrow> vaddr_t \<Rightarrow> nat" where
  "region_lo s p \<equiv> unat (vm_base s p)"

abbreviation region_hi :: "vmm \<Rightarrow> vaddr_t \<Rightarrow> nat" where
  "region_hi s p \<equiv> unat (vm_base s p) + unat (vm_size s p)"

fun hole_scan :: "vmm \<Rightarrow> u64 \<Rightarrow> u64 \<Rightarrow> u64 \<Rightarrow> u64 \<Rightarrow> vaddr_t list
    \<Rightarrow> (vaddr_t \<times> u64 \<times> vaddr_t) option" where
  "hole_scan s align sz lim off [] =
     (if off < lim then fst (first_fit align sz nullptr off (lim - off) None) else None)"
| "hole_scan s align sz lim off (x # xs) =
     (if off < vm_base s x \<and> \<not> snd (first_fit align sz x off (vm_base s x - off) None)
      then fst (first_fit align sz x off (vm_base s x - off) None)
      else hole_scan s align sz lim (vm_base s x + vm_size s x) xs)"

lemma foreach_hole_scan:
  assumes base: "vm_base s this = 0"
    and xs: "ilist (rl_links (vm_heap s)) (vm_children s this) xs" and fuel: "length xs < fuel"
  shows "foreach_hole fuel s this (first_fit align sz) None =
    Inr (hole_scan s align sz (vm_size s this) 0 xs)"
proof -
  let ?body = "\<lambda>child (offset, acc). guardE (child \<noteq> nullptr) NullDeref
      (if vm_base s child > vm_base s this + offset
       then let (acc, go_on) = first_fit align sz child offset (vm_base s child - vm_base s this - offset) acc
            in Inr ((vm_base s child + vm_size s child, acc), go_on)
       else Inr ((vm_base s child + vm_size s child, acc), True))"
  let ?post = "\<lambda>((offset, acc), finished).
      if finished \<and> vm_base s this + vm_size s this > vm_base s this + offset
      then Inr (fst (first_fit align sz nullptr offset
                       (vm_base s this + vm_size s this - vm_base s this - offset) acc))
      else Inr acc"
  have "nullptr \<notin> set xs" using xs by (simp add: ilist_def)
  then have "bindE (fold_nodes ?body xs (off, None)) ?post =
      Inr (hole_scan s align sz (vm_size s this) off xs)" for off
    by (induction xs arbitrary: off) (auto simp: base first_fit_def Let_def)
  then show ?thesis
    unfolding foreach_hole_def by (simp add: for_nodes_ilist [OF xs fuel])
qed

lemma vmr_align_pow2:
  assumes "unat k < 32"
  shows "pow2_alignment (vmr_align k) (max 12 (unat k))"
proof unfold_locales
  have u: "unat (push_bit (unat k) 1 :: u32) = 2 ^ unat k"
    using assms by (simp add: push_bit_eq_mult unat_pow2)
  have "unat (ebl_max (push_bit (unat k) 1 :: u32) page_size) = 2 ^ max 12 (unat k)"
  proof (cases "unat k < 12")
    case True
    then have "(2::nat) ^ unat k < 2 ^ 12" by (intro power_strict_increasing) auto
    with True u show ?thesis by (simp add: ebl_max_def page_size_def word_less_nat_alt)
  next
    case False
    then have "(2::nat) ^ 12 \<le> 2 ^ unat k" by (intro power_increasing) auto
    with False u show ?thesis by (simp add: ebl_max_def page_size_def word_less_nat_alt)
  qed
  then have "unat (vmr_align k) = 2 ^ max 12 (unat k)"
    by (simp add: vmr_align_def unat_ucast_widen)
  moreover have "unat (2 ^ max 12 (unat k) :: u64) = 2 ^ max 12 (unat k)"
    using assms by (intro unat_pow2) simp
  ultimately show "vmr_align k = 2 ^ max 12 (unat k)"
    by (simp add: word_unat_eq_iff)
  show "max 12 (unat k) < LENGTH(64)" using assms by simp
qed

text \<open>
  The bounds under which no sum of the search wraps: the region ends in the lower half of
  the 48-bit address range, the requested size is below \<open>2 ^ 63\<close>.
\<close>

definition scan_bounds :: "u64 \<Rightarrow> nat \<Rightarrow> u64 \<Rightarrow> u64 \<Rightarrow> bool" where
  "scan_bounds align m sz lim \<longleftrightarrow> pow2_alignment align m \<and> m < 32 \<and>
     unat lim \<le> 2 ^ 47 \<and> unat sz \<le> 2 ^ 63"

lemma first_fit_hole:
  assumes b: "scan_bounds align m sz lim" and off: "unat off \<le> unat e" and e: "unat e \<le> unat lim"
  shows "snd (first_fit align sz x off (e - off) None) \<longleftrightarrow>
      unat e < unat (align_up off align) + unat sz" (is ?A)
    and "\<not> snd (first_fit align sz x off (e - off) None) \<Longrightarrow>
      fst (first_fit align sz x off (e - off) None) = Some (align_up off align, sz, x)" (is "_ \<Longrightarrow> ?B")
    and "snd (first_fit align sz x off (e - off) None) \<Longrightarrow>
      fst (first_fit align sz x off (e - off) None) = None" (is "_ \<Longrightarrow> ?C")
    and "unat off \<le> unat (align_up off align)" and "2 ^ m dvd unat (align_up off align)"
    and "\<And>a. unat off \<le> a \<Longrightarrow> 2 ^ m dvd a \<Longrightarrow> unat (align_up off align) \<le> a"
proof -
  have p: "pow2_alignment align m" and m: "m < 32" and lim: "unat lim \<le> 2 ^ 47"
    and sz: "unat sz \<le> 2 ^ 63"
    using b by (auto simp: scan_bounds_def)
  have "(2::nat) ^ m \<le> 2 ^ 31" using m by (intro power_increasing) auto
  then have room: "unat off + (2 ^ m - 1) < 2 ^ LENGTH(64)" and small: "unat off + 2 ^ m \<le> 2 ^ 48"
    using off e lim by auto
  note ge = pow2_alignment.align_up_ge [OF p room]
  show "unat off \<le> unat (align_up off align)" by (rule ge(1))
  show "2 ^ m dvd unat (align_up off align)" by (rule pow2_alignment.align_up_dvd [OF p])
  show "unat (align_up off align) \<le> a" if "unat off \<le> a" "2 ^ m dvd a" for a
    using pow2_alignment.align_up_least [OF p room that] .
  have "unat (align_up off align + sz) = unat (align_up off align) + unat sz"
    using ge(2) small sz by (intro unat_plus_no_wrap) simp
  then have "off + (e - off) < align_up off align + sz \<longleftrightarrow>
      unat e < unat (align_up off align) + unat sz"
    by (simp add: word_less_nat_alt)
  then show ?A and "\<not> snd (first_fit align sz x off (e - off) None) \<Longrightarrow> ?B"
    and "snd (first_fit align sz x off (e - off) None) \<Longrightarrow> ?C"
    by (auto simp: first_fit_def Let_def)
qed

text \<open>What the search relies on of the children: in order, disjoint, inside the region.\<close>

definition children_sorted :: "vmm \<Rightarrow> vaddr_t list \<Rightarrow> bool" where
  "children_sorted s xs \<longleftrightarrow> sorted_wrt (\<lambda>a b. region_hi s a \<le> region_lo s b) xs"

definition slot_free :: "vmm \<Rightarrow> nat \<Rightarrow> nat \<Rightarrow> nat \<Rightarrow> vaddr_t list \<Rightarrow> nat \<Rightarrow> bool" where
  "slot_free s m n lim xs a \<longleftrightarrow> 2 ^ m dvd a \<and> a + n \<le> lim \<and>
     (\<forall>x \<in> set xs. a + n \<le> region_lo s x \<or> region_hi s x \<le> a)"

definition scan_result :: "vmm \<Rightarrow> nat \<Rightarrow> u64 \<Rightarrow> u64 \<Rightarrow> vaddr_t list \<Rightarrow> vaddr_t \<Rightarrow> vaddr_t \<Rightarrow> bool" where
  "scan_result s m sz lim xs nb c \<longleftrightarrow> 2 ^ m dvd unat nb \<and> unat nb + unat sz \<le> unat lim \<and>
     (\<exists>us vs. xs = us @ vs \<and> c = (case vs of [] \<Rightarrow> nullptr | v # _ \<Rightarrow> v) \<and>
        (\<forall>u \<in> set us. region_hi s u \<le> unat nb) \<and>
        (\<forall>v \<in> set vs. unat nb + unat sz \<le> region_lo s v))"

lemma scan_result_Cons:
  assumes "scan_result s m sz lim xs nb c" and "region_hi s x \<le> unat nb"
  shows "scan_result s m sz lim (x # xs) nb c"
proof -
  obtain us vs where "xs = us @ vs" "c = (case vs of [] \<Rightarrow> nullptr | v # _ \<Rightarrow> v)"
    "\<forall>u \<in> set us. region_hi s u \<le> unat nb" "\<forall>v \<in> set vs. unat nb + unat sz \<le> region_lo s v"
    using assms(1) unfolding scan_result_def by blast
  with assms show ?thesis
    unfolding scan_result_def by (intro conjI exI [of _ "x # us"] exI [of _ vs]) auto
qed

lemma hole_scan_sound:
  assumes b: "scan_bounds align m sz lim"
    and "children_sorted s xs" and "\<forall>x \<in> set xs. unat off \<le> region_lo s x \<and> region_hi s x \<le> unat lim"
    and "unat off \<le> unat lim"
    and "hole_scan s align sz lim off xs = Some (nb, sz', c)"
  shows "sz' = sz \<and> unat off \<le> unat nb \<and> scan_result s m sz lim xs nb c"
  using assms(2-)
proof (induction xs arbitrary: off)
  case Nil
  have e: "off < lim" and ff: "fst (first_fit align sz nullptr off (lim - off) None) = Some (nb, sz', c)"
    using Nil.prems by (auto split: if_splits)
  note h = first_fit_hole(1-3) [OF b Nil.prems(3) order_refl, of nullptr] and g = first_fit_hole(4-6) [OF b Nil.prems(3) order_refl]
  have "\<not> snd (first_fit align sz nullptr off (lim - off) None)"
    using h(3) ff by auto
  with h g ff show ?case by (auto simp: scan_result_def)
next
  case (Cons x xs)
  have lo: "unat off \<le> region_lo s x" and hi: "region_hi s x \<le> unat lim" using Cons.prems by auto
  have lim: "unat lim \<le> 2 ^ 47" using b by (simp add: scan_bounds_def)
  have x_le: "unat (vm_base s x) \<le> unat lim" using hi by simp
  have wrap: "unat (vm_base s x + vm_size s x) = region_hi s x"
    by (rule unat_plus_no_wrap) (use hi lim in simp)
  have above: "\<forall>y \<in> set xs. region_hi s x \<le> region_lo s y"
    using Cons.prems(1) by (auto simp: children_sorted_def)
  note h = first_fit_hole(1-3) [OF b lo x_le, of x] and g = first_fit_hole(4-6) [OF b lo x_le]
  show ?case
  proof (cases "off < vm_base s x \<and> \<not> snd (first_fit align sz x off (vm_base s x - off) None)")
    case True
    then have r: "nb = align_up off align" "sz' = sz" "c = x"
      and fit: "unat nb + unat sz \<le> region_lo s x"
      using Cons.prems(4) h(1,2) by auto
    have "\<forall>v \<in> set (x # xs). unat nb + unat sz \<le> region_lo s v"
      using fit above by fastforce
    then have "scan_result s m sz lim (x # xs) nb c"
      using r fit x_le g(2) unfolding scan_result_def
      by (intro conjI exI [of _ "[]"] exI [of _ "x # xs"]) auto
    with r g(1) show ?thesis by simp
  next
    case False
    then have rec: "hole_scan s align sz lim (vm_base s x + vm_size s x) xs = Some (nb, sz', c)"
      using Cons.prems(4) by (simp only: hole_scan.simps if_False)
    have "sz' = sz \<and> unat (vm_base s x + vm_size s x) \<le> unat nb \<and> scan_result s m sz lim xs nb c"
      by (rule Cons.IH [OF _ _ _ rec])
        (use Cons.prems above hi wrap in \<open>auto simp: children_sorted_def\<close>)
    then show ?thesis using wrap lo scan_result_Cons by auto
  qed
qed

lemma hole_scan_complete:
  assumes b: "scan_bounds align m sz lim" and pos: "0 < unat sz"
    and "children_sorted s xs" and "\<forall>x \<in> set xs. unat off \<le> region_lo s x \<and> region_hi s x \<le> unat lim"
    and "slot_free s m (unat sz) (unat lim) xs a" and "unat off \<le> a"
  shows "\<exists>nb c. hole_scan s align sz lim off xs = Some (nb, sz, c) \<and> unat nb \<le> a"
  using assms(3-)
proof (induction xs arbitrary: off)
  case Nil
  have "unat off < unat lim" using Nil.prems pos by (auto simp: slot_free_def)
  then have e: "off < lim" "unat off \<le> unat lim" by (auto simp: word_less_nat_alt)
  note h = first_fit_hole(1-3) [OF b e(2) order_refl, of nullptr] and g = first_fit_hole(4-6) [OF b e(2) order_refl]
  have le: "unat (align_up off align) \<le> a" using g(3) Nil.prems by (auto simp: slot_free_def)
  then have "\<not> snd (first_fit align sz nullptr off (lim - off) None)"
    using h(1) Nil.prems by (auto simp: slot_free_def)
  with h(2) e le show ?case by simp
next
  case (Cons x xs)
  have lo: "unat off \<le> region_lo s x" and hi: "region_hi s x \<le> unat lim" using Cons.prems by auto
  have lim: "unat lim \<le> 2 ^ 47" using b by (simp add: scan_bounds_def)
  have x_le: "unat (vm_base s x) \<le> unat lim" using hi by simp
  have wrap: "unat (vm_base s x + vm_size s x) = region_hi s x"
    by (rule unat_plus_no_wrap) (use hi lim in simp)
  note h = first_fit_hole(1-3) [OF b lo x_le, of x] and g = first_fit_hole(4-6) [OF b lo x_le]
  have le: "unat (align_up off align) \<le> a" using g(3) Cons.prems by (auto simp: slot_free_def)
  show ?case
  proof (cases "off < vm_base s x \<and> \<not> snd (first_fit align sz x off (vm_base s x - off) None)")
    case True
    with h(2) le show ?thesis by simp
  next
    case False
    have past: "region_hi s x \<le> a"
    proof (rule ccontr)
      assume "\<not> region_hi s x \<le> a"
      then have fit: "a + unat sz \<le> region_lo s x" using Cons.prems(3) by (auto simp: slot_free_def)
      then have "off < vm_base s x" using pos Cons.prems(4) by (simp add: word_less_nat_alt)
      then show False using False h(1) le fit by auto
    qed
    have "\<exists>nb c. hole_scan s align sz lim (vm_base s x + vm_size s x) xs = Some (nb, sz, c) \<and> unat nb \<le> a"
      by (rule Cons.IH)
        (use Cons.prems past wrap in \<open>auto simp: children_sorted_def slot_free_def\<close>)
    with False show ?thesis by (simp only: hole_scan.simps if_False)
  qed
qed

section \<open>Allocation in a region based at address 0\<close>

definition region_inv :: "vmm \<Rightarrow> vaddr_t \<Rightarrow> vaddr_t list \<Rightarrow> bool" where
  "region_inv s this xs \<longleftrightarrow> this \<noteq> nullptr \<and> vm_base s this = 0 \<and> unat (vm_size s this) \<le> 2 ^ 47 \<and>
     ilist (rl_links (vm_heap s)) (vm_children s this) xs \<and> this \<notin> set xs \<and>
     children_sorted s xs \<and> (\<forall>x \<in> set xs. region_hi s x \<le> unat (vm_size s this))"

definition request_ok :: "vmm \<Rightarrow> vaddr_t \<Rightarrow> u64 \<Rightarrow> u8 \<Rightarrow> vm_flags_t \<Rightarrow> bool" where
  "request_ok s this sz align_pow2 flags \<longleftrightarrow>
     flag_capability flags AND flag_capability (vm_flags s this) = flag_capability flags \<and>
     flag_type flags = REGION \<and> unat align_pow2 < 32 \<and> sz mod page_size64 = 0 \<and>
     0 < unat sz \<and> unat sz \<le> 2 ^ 63"

lemma vmr_insert_ok:
  assumes il: "ilist (rl_links (vm_heap s)) (vm_children s this) (us @ vs)"
    and n: "n \<notin> set (us @ vs)" "n \<noteq> nullptr" and r1: "refs (rl_rc (vm_heap s)) n = 1"
    and c: "child = (case vs of [] \<Rightarrow> nullptr | v # _ \<Rightarrow> v)"
  shows "\<exists>l root. vmr_insert s this child n =
      Inr (s\<lparr>vm_heap := \<lparr>rl_links = l, rl_rc = (rl_rc (vm_heap s))\<lparr>refs := (refs (rl_rc (vm_heap s)))(n := 2)\<rparr>\<rparr>,
             vm_children := (vm_children s)(this := root)\<rparr>) \<and> ilist l root (us @ n # vs)"
proof -
  let ?rc = "rl_rc (vm_heap s)"
  have raw: "refptr_raw ?rc n = Inr (?rc\<lparr>refs := (refs ?rc)(n := 2)\<rparr>)"
    using n r1 by (simp add: refptr_raw_def add_ref_def)
  have push: "\<exists>l root. (if child = nullptr
        then ref_push_back ((vm_heap s)\<lparr>rl_rc := ?rc\<lparr>refs := (refs ?rc)(n := 2)\<rparr>\<rparr>) (vm_children s this) n
        else ref_insert_before ((vm_heap s)\<lparr>rl_rc := ?rc\<lparr>refs := (refs ?rc)(n := 2)\<rparr>\<rparr>)
               (vm_children s this) child n) =
      Inr (\<lparr>rl_links = l, rl_rc = ?rc\<lparr>refs := (refs ?rc)(n := 3)\<rparr>\<rparr>, root) \<and> ilist l root (us @ n # vs)"
  proof (cases vs)
    case Nil
    then obtain l root where "push_back_unsafe (rl_links (vm_heap s)) (vm_children s this) n = Inr (l, root)"
      "ilist l root (us @ [n])"
      using push_back_ilist [of "rl_links (vm_heap s)" "vm_children s this" us n] il n by auto
    then show ?thesis
      using Nil c n by (simp add: ref_push_back_def add_ref_def)
  next
    case (Cons v vs')
    then have "child = v" "v \<noteq> nullptr" using c il by (auto simp: ilist_def)
    moreover obtain l root where
      "list_insert_before (rl_links (vm_heap s)) (vm_children s this) v n = Inr (l, root)"
      "ilist l root (us @ n # v # vs')"
      using list_insert_before_ilist [of "rl_links (vm_heap s)" "vm_children s this" us v vs' n] il n Cons
      by blast
    ultimately show ?thesis
      using Cons n by (auto simp: ref_insert_before_def add_ref_def list_insert_before_def exec_simps)
  qed
  have drop: "refptr_destroy (?rc\<lparr>refs := (refs ?rc)(n := 3)\<rparr>) n = Inr (?rc\<lparr>refs := (refs ?rc)(n := 2)\<rparr>)"
    using n by (simp add: refptr_destroy_def release_def Let_def)
  from push obtain l root where p: "(if child = nullptr
        then ref_push_back ((vm_heap s)\<lparr>rl_rc := ?rc\<lparr>refs := (refs ?rc)(n := 2)\<rparr>\<rparr>) (vm_children s this) n
        else ref_insert_before ((vm_heap s)\<lparr>rl_rc := ?rc\<lparr>refs := (refs ?rc)(n := 2)\<rparr>\<rparr>)
               (vm_children s this) child n) =
      Inr (\<lparr>rl_links = l, rl_rc = ?rc\<lparr>refs := (refs ?rc)(n := 3)\<rparr>\<rparr>, root)" "ilist l root (us @ n # vs)"
    by blast
  show ?thesis
    by (rule exI [of _ l], rule exI [of _ root]) (simp add: vmr_insert_def raw p drop)
qed

lemma allocate_search:
  assumes inv: "region_inv s this xs" and req: "request_ok s this sz k flags" and fuel: "length xs < fuel"
  shows "scan_bounds (vmr_align k) (max 12 (unat k)) sz (vm_size s this)"
    and "foreach_hole fuel s this (first_fit (vmr_align k) sz) None =
      Inr (hole_scan s (vmr_align k) sz (vm_size s this) 0 xs)"
  using inv req fuel vmr_align_pow2 [of k] foreach_hole_scan [of s this xs fuel]
  by (auto simp: scan_bounds_def region_inv_def request_ok_def)

lemma allocate_none:
  assumes inv: "region_inv s this xs" and req: "request_ok s this sz k flags" and fuel: "length xs < fuel"
    and full: "\<And>a. \<not> slot_free s (max 12 (unat k)) (unat sz) (unat (vm_size s this)) xs a"
  shows "allocate_vmr_compact fuel s this sz k flags ptr = Inr (s, Inl ALLOCATION_FAILED)"
proof -
  note b = allocate_search [OF inv req fuel]
  have "hole_scan s (vmr_align k) sz (vm_size s this) 0 xs = None"
  proof (rule ccontr)
    assume "hole_scan s (vmr_align k) sz (vm_size s this) 0 xs \<noteq> None"
    then obtain nb sz' c where r: "hole_scan s (vmr_align k) sz (vm_size s this) 0 xs = Some (nb, sz', c)"
      by auto
    have "scan_result s (max 12 (unat k)) sz (vm_size s this) xs nb c"
      using hole_scan_sound [OF b(1) _ _ _ r] inv by (auto simp: region_inv_def)
    then have "slot_free s (max 12 (unat k)) (unat sz) (unat (vm_size s this)) xs (unat nb)"
      by (auto simp: scan_result_def slot_free_def)
    with full show False by blast
  qed
  with b(2) inv req show ?thesis
    by (simp add: allocate_vmr_compact_def request_ok_def region_inv_def)
qed

definition vmr_child :: "vmm \<Rightarrow> vaddr_t \<Rightarrow> vaddr_t \<Rightarrow> u64 \<Rightarrow> vm_flags_t \<Rightarrow> bool" where
  "vmr_child s this n sz flags \<longleftrightarrow> vm_size s n = sz \<and> vm_parent s n = this \<and>
     vm_aspace s n = vm_aspace s this \<and> flag_capability (vm_flags s n) = flag_capability flags \<and>
     flag_type (vm_flags s n) = REGION \<and> flag_is_root (vm_flags s n) = 0 \<and>
     vm_children s n = nullptr \<and> refs (rl_rc (vm_heap s)) n = 2 \<and> objs (rl_rc (vm_heap s)) n"

definition others_kept :: "vaddr_t \<Rightarrow> vmm \<Rightarrow> vmm \<Rightarrow> bool" where
  "others_kept n s s' \<longleftrightarrow> (\<forall>p. p \<noteq> n \<longrightarrow> vm_base s' p = vm_base s p \<and> vm_size s' p = vm_size s p \<and>
     vm_flags s' p = vm_flags s p \<and> vm_parent s' p = vm_parent s p \<and> vm_aspace s' p = vm_aspace s p)"

lemma new_flags_fields:
  "flag_capability (set_is_root (set_capability (set_type 0 REGION) (flag_capability f)) 0) = flag_capability f"
  "flag_type (set_is_root (set_capability (set_type 0 REGION) c) 0) = REGION"
  "flag_is_root (set_is_root (set_capability (set_type 0 REGION) c) 0) = 0"
  by (simp_all add: flag_capability_def flag_type_def flag_is_root_def set_is_root_def
      set_capability_def set_type_def REGION_def bf_get_assign bf_get_assign_other)
    (simp add: bf_get_def)

lemma children_sorted_insert:
  assumes "children_sorted s (us @ vs)"
    and same: "\<And>p. p \<in> set (us @ vs) \<Longrightarrow> vm_base s' p = vm_base s p \<and> vm_size s' p = vm_size s p"
    and below: "\<And>u. u \<in> set us \<Longrightarrow> region_hi s u \<le> region_lo s' n"
    and above: "\<And>v. v \<in> set vs \<Longrightarrow> region_hi s' n \<le> region_lo s v"
  shows "children_sorted s' (us @ n # vs)"
proof -
  have "children_sorted s' (us @ vs)"
    using assms(1) unfolding children_sorted_def
    by (rule sorted_wrt_mono_rel [rotated]) (simp add: same)
  moreover have "\<forall>u \<in> set us. region_hi s' u \<le> region_lo s' n"
    using below same by simp
  moreover have "\<forall>v \<in> set vs. region_hi s' n \<le> region_lo s' v"
    using above same by simp
  ultimately show ?thesis
    unfolding children_sorted_def sorted_wrt_append sorted_wrt.simps set_simps ball_simps by blast
qed

lemma allocate_some:
  assumes inv: "region_inv s this xs" and req: "request_ok s this sz k flags" and fuel: "length xs < fuel"
    and ptr: "ptr \<noteq> nullptr" "ptr \<noteq> this" "ptr \<notin> set xs"
    and free: "slot_free s (max 12 (unat k)) (unat sz) (unat (vm_size s this)) xs a"
  shows "\<exists>s' us vs. allocate_vmr_compact fuel s this sz k flags ptr = Inr (s', Inr ptr) \<and> xs = us @ vs \<and>
    region_inv s' this (us @ ptr # vs) \<and> vmr_child s' this ptr sz flags \<and> others_kept ptr s s' \<and>
    slot_free s (max 12 (unat k)) (unat sz) (unat (vm_size s this)) xs (region_lo s' ptr) \<and>
    region_lo s' ptr \<le> a"
proof -
  note b = allocate_search [OF inv req fuel]
  obtain nb c where r: "hole_scan s (vmr_align k) sz (vm_size s this) 0 xs = Some (nb, sz, c)"
    and least: "unat nb \<le> a"
    using hole_scan_complete [OF b(1) _ _ _ free, of 0] inv req
    by (auto simp: region_inv_def request_ok_def)
  have res: "scan_result s (max 12 (unat k)) sz (vm_size s this) xs nb c"
    using hole_scan_sound [OF b(1) _ _ _ r] inv by (auto simp: region_inv_def)
  then obtain us vs where xs: "xs = us @ vs" and c: "c = (case vs of [] \<Rightarrow> nullptr | v # _ \<Rightarrow> v)"
    and below: "\<forall>u \<in> set us. region_hi s u \<le> unat nb"
    and above: "\<forall>v \<in> set vs. unat nb + unat sz \<le> region_lo s v"
    unfolding scan_result_def by blast
  have slot: "slot_free s (max 12 (unat k)) (unat sz) (unat (vm_size s this)) xs (unat nb)"
    using res by (auto simp: scan_result_def slot_free_def)
  let ?fl = "set_is_root (set_capability (set_type 0 REGION) (flag_capability flags)) 0"
  let ?rc = "(rl_rc (vm_heap s))\<lparr>refs := (refs (rl_rc (vm_heap s)))(ptr := 1),
               objs := (objs (rl_rc (vm_heap s)))(ptr := True)\<rparr>"
  let ?s1 = "vmregion_init (s\<lparr>vm_heap := (vm_heap s)\<lparr>rl_rc := ?rc\<rparr>\<rparr>) ptr nb sz ?fl (vm_aspace s this)"
  let ?s2 = "?s1\<lparr>vm_parent := (vm_parent ?s1)(ptr := this)\<rparr>"
  have mk: "make_ref (rl_rc (vm_heap s)) ptr = Inr (?rc, ptr)"
    using ptr by (simp add: make_ref_def refptr_adopt_def adopt_def ref_init_def Let_def)
  have il: "ilist (rl_links (vm_heap s)) (vm_children s this) xs" using inv by (simp add: region_inv_def)
  have "same_links {ptr} (rl_links (vm_heap s)) (rl_links (vm_heap ?s2))"
    by (simp add: same_links_def vmregion_init_def node_init_def)
  from ilist_frame [OF il this]
  have il2: "ilist (rl_links (vm_heap ?s2)) (vm_children ?s2 this) (us @ vs)"
    using ptr xs by (simp add: vmregion_init_def)
  obtain l root where ins: "vmr_insert ?s2 this c ptr =
      Inr (?s2\<lparr>vm_heap := \<lparr>rl_links = l, rl_rc = (rl_rc (vm_heap ?s2))\<lparr>refs := (refs (rl_rc (vm_heap ?s2)))(ptr := 2)\<rparr>\<rparr>,
             vm_children := (vm_children ?s2)(this := root)\<rparr>)" and new: "ilist l root (us @ ptr # vs)"
    using vmr_insert_ok [OF il2 _ ptr(1) _ c] ptr xs by (auto simp: vmregion_init_def)
  let ?s3 = "?s2\<lparr>vm_heap := \<lparr>rl_links = l, rl_rc = (rl_rc (vm_heap ?s2))\<lparr>refs := (refs (rl_rc (vm_heap ?s2)))(ptr := 2)\<rparr>\<rparr>,
             vm_children := (vm_children ?s2)(this := root)\<rparr>"
  have run: "allocate_vmr_compact fuel s this sz k flags ptr = Inr (?s3, Inr ptr)"
    using b(2) r mk ins inv req
    by (simp add: allocate_vmr_compact_def request_ok_def region_inv_def Let_def)
  have lo: "region_lo ?s3 ptr = unat nb" by (simp add: vmregion_init_def)
  have kept: "others_kept ptr s ?s3" by (simp add: others_kept_def vmregion_init_def)
  have child: "vmr_child ?s3 this ptr sz flags"
    using ptr by (simp add: vmr_child_def vmregion_init_def new_flags_fields)
  have same: "vm_base ?s3 p = vm_base s p" "vm_size ?s3 p = vm_size s p" if "p \<in> set xs" for p
    using that ptr by (auto simp: vmregion_init_def)
  have hi: "region_hi ?s3 ptr = unat nb + unat sz" by (simp add: vmregion_init_def)
  have "children_sorted ?s3 (us @ ptr # vs)"
  proof (rule children_sorted_insert)
    show "children_sorted s (us @ vs)" using inv xs by (simp add: region_inv_def)
  qed (use xs below above lo hi same in auto)
  moreover have "\<forall>x \<in> set (us @ ptr # vs). region_hi ?s3 x \<le> unat (vm_size s this)"
    using inv xs hi same res by (auto simp: region_inv_def scan_result_def)
  ultimately have "region_inv ?s3 this (us @ ptr # vs)"
    using inv new ptr xs by (auto simp: region_inv_def vmregion_init_def)
  with run xs child kept slot least show ?thesis
    by (metis lo)
qed

section \<open>Destroying a tree of regions\<close>

datatype vtree = VNode (vt_root: vaddr_t) (vt_subs: "vtree list")

fun vt_nodes :: "vtree \<Rightarrow> vaddr_t list" where
  "vt_nodes (VNode p ts) = p # concat (map vt_nodes ts)"

fun vm_tree :: "vmm \<Rightarrow> vtree \<Rightarrow> bool" where
  "vm_tree s (VNode p ts) \<longleftrightarrow> p \<noteq> nullptr \<and>
     ilist (rl_links (vm_heap s)) (vm_children s p) (map vt_root ts) \<and> (\<forall>t \<in> set ts. vm_tree s t)"

definition same_regions :: "vaddr_t set \<Rightarrow> vmm \<Rightarrow> vmm \<Rightarrow> bool" where
  "same_regions A s s' \<longleftrightarrow> same_links A (rl_links (vm_heap s)) (rl_links (vm_heap s')) \<and>
     (\<forall>q. q \<notin> A \<longrightarrow> vm_children s' q = vm_children s q \<and> vm_parent s' q = vm_parent s q)"

lemma same_regions_trans:
  "same_regions A s s' \<Longrightarrow> same_regions B s' s'' \<Longrightarrow> same_regions (A \<union> B) s s''"
  by (auto simp: same_regions_def intro: same_links_trans)

lemma same_regions_mono: "same_regions A s s' \<Longrightarrow> A \<subseteq> B \<Longrightarrow> same_regions B s s'"
  by (auto simp: same_regions_def intro: same_links_mono)

lemma vt_root_in_nodes: "vt_root t \<in> set (vt_nodes t)"
  by (cases t) simp

lemma vt_tl_nodes: "set (tl (vt_nodes t)) \<subseteq> set (vt_nodes t)"
  by (cases t) auto

lemma vt_nodes_eq: "vt_nodes t = vt_root t # concat (map vt_nodes (vt_subs t))"
  by (cases t) simp

lemma vt_roots_nodes: "set (map vt_root ts) \<subseteq> set (concat (map vt_nodes ts))"
  using vt_root_in_nodes by auto

lemma vm_tree_frame:
  assumes "vm_tree s t"
    and "same_links L (rl_links (vm_heap s)) (rl_links (vm_heap s'))" and "L \<inter> set (tl (vt_nodes t)) = {}"
    and "\<And>q. q \<in> set (vt_nodes t) \<Longrightarrow> vm_children s' q = vm_children s q"
  shows "vm_tree s' t"
  using assms
proof (induction t)
  case (VNode p ts)
  have "L \<inter> set (map vt_root ts) = {}"
    using VNode.prems(3) vt_roots_nodes [of ts] unfolding vt_nodes.simps list.sel by blast
  then have "ilist (rl_links (vm_heap s')) (vm_children s p) (map vt_root ts)"
    by (intro ilist_frame [OF _ VNode.prems(2)]) (use VNode.prems(1) in auto)
  moreover have "vm_tree s' t" if t: "t \<in> set ts" for t
  proof (rule VNode.IH [OF t])
    show "vm_tree s t" using VNode.prems(1) t by simp
    have "set (tl (vt_nodes t)) \<subseteq> set (vt_nodes t)" by (cases t) auto
    then show "L \<inter> set (tl (vt_nodes t)) = {}" using VNode.prems(3) t by auto
    show "vm_children s' q = vm_children s q" if "q \<in> set (vt_nodes t)" for q
      using VNode.prems(4) that t by auto
  qed (rule VNode.prems(2))
  ultimately show ?case using VNode.prems(1,4) by simp
qed

lemma roots_not_inner:
  assumes "distinct (concat (map vt_nodes ts))" and "u \<in> set ts"
  shows "set (map vt_root ts) \<inter> set (tl (vt_nodes u)) = {}"
  using assms
proof (induction ts)
  case (Cons t ts)
  have t: "vt_root t \<notin> set (tl (vt_nodes t))" using Cons.prems(1) by (cases t) auto
  have apart: "set (vt_nodes t) \<inter> set (concat (map vt_nodes ts)) = {}"
    and dist: "distinct (concat (map vt_nodes ts))" using Cons.prems(1) by auto
  have roots: "set (map vt_root (t # ts)) = insert (vt_root t) (set (map vt_root ts))" by simp
  show ?case
  proof (cases "u = t")
    case True
    then show ?thesis unfolding roots
      using t apart vt_tl_nodes [of t] vt_roots_nodes [of ts] by blast
  next
    case False
    then have u: "u \<in> set ts" using Cons.prems(2) by simp
    then have "set (vt_nodes u) \<subseteq> set (concat (map vt_nodes ts))" by auto
    then show ?thesis unfolding roots
      using Cons.IH [OF dist u] apart vt_tl_nodes [of u] vt_root_in_nodes [of t] by blast
  qed
qed simp

definition destroyed :: "vaddr_t set \<Rightarrow> vaddr_t set \<Rightarrow> vmm \<Rightarrow> vmm \<Rightarrow> bool" where
  "destroyed A D s s' \<longleftrightarrow> same_regions A s s' \<and> rl_rc (vm_heap s') = dropped D (rl_rc (vm_heap s)) \<and>
     (\<forall>q \<in> D. vm_children s' q = nullptr \<and> vm_parent s' q = nullptr)"

lemma destroyed_trans:
  assumes "destroyed A D s s'" and "destroyed B D' s' s''" and "D \<inter> D' = {}" and "B \<inter> D = {}"
  shows "destroyed (A \<union> B) (D \<union> D') s s''"
proof -
  have "\<forall>q \<in> D. vm_children s'' q = nullptr \<and> vm_parent s'' q = nullptr"
    using assms by (fastforce simp: destroyed_def same_regions_def)
  moreover have "dropped D' (dropped D (rl_rc (vm_heap s))) = dropped (D \<union> D') (rl_rc (vm_heap s))"
    using dropped_Un [of D' D] assms(3) by (simp add: Un_commute Int_commute)
  ultimately show ?thesis
    using assms(1,2) by (auto simp: destroyed_def intro: same_regions_trans)
qed

definition destroy_ok :: "vtree \<Rightarrow> bool" where
  "destroy_ok t \<longleftrightarrow> (\<forall>s fuel. vm_tree s t \<longrightarrow> distinct (vt_nodes t) \<longrightarrow> vm_parent s (vt_root t) = nullptr \<longrightarrow>
     2 * length (vt_nodes t) \<le> fuel \<longrightarrow>
     (\<exists>s'. vmr_destroy fuel s (vt_root t) = Inr (s', OK) \<and>
        destroyed (set (vt_nodes t)) (set (tl (vt_nodes t))) s s' \<and>
        vm_children s' (vt_root t) = nullptr \<and> vm_parent s' (vt_root t) = nullptr))"

lemma destroy_okD:
  assumes "destroy_ok t" and "vm_tree s t" and "distinct (vt_nodes t)" and "vm_parent s (vt_root t) = nullptr"
    and "2 * length (vt_nodes t) \<le> fuel"
  obtains s' where "vmr_destroy fuel s (vt_root t) = Inr (s', OK)"
    "destroyed (set (vt_nodes t)) (set (tl (vt_nodes t))) s s'"
    "vm_children s' (vt_root t) = nullptr" "vm_parent s' (vt_root t) = nullptr"
  using assms unfolding destroy_ok_def by blast

text \<open>The trees of the siblings are not touched when one child is taken out and destroyed.\<close>

lemma siblings_kept:
  assumes both: "same_links (set (map vt_root (t # ts)) \<union> set (vt_nodes t)) (rl_links (vm_heap s)) (rl_links (vm_heap s'))"
    and kids: "\<forall>q. q \<notin> set (vt_nodes t) \<longrightarrow> q \<noteq> p \<longrightarrow> vm_children s' q = vm_children s q"
    and dist: "distinct (p # concat (map vt_nodes (t # ts)))" and tree: "\<forall>u \<in> set ts. vm_tree s u"
  shows "\<forall>u \<in> set ts. vm_tree s' u"
proof
  let ?N = "set (vt_nodes t)"
  fix u assume u: "u \<in> set ts"
  have apart: "?N \<inter> set (concat (map vt_nodes ts)) = {}" "p \<notin> set (concat (map vt_nodes ts))" using dist by auto
  have d: "distinct (concat (map vt_nodes ts))" using dist by simp
  have sub: "set (vt_nodes u) \<subseteq> set (concat (map vt_nodes ts))" using u by auto
  have "set (map vt_root ts) \<inter> set (tl (vt_nodes u)) = {}" using d u by (rule roots_not_inner)
  moreover have "set (tl (vt_nodes u)) \<subseteq> set (vt_nodes u)" by (cases u) auto
  moreover have "set (map vt_root (t # ts)) \<union> ?N = set (map vt_root ts) \<union> ?N" using vt_root_in_nodes [of t] by auto
  ultimately have "(set (map vt_root (t # ts)) \<union> ?N) \<inter> set (tl (vt_nodes u)) = {}" using apart(1) sub by blast
  moreover have "vm_children s' q = vm_children s q" if "q \<in> set (vt_nodes u)" for q
  proof -
    have "q \<notin> ?N" "q \<noteq> p" using that apart sub by blast+
    then show ?thesis using kids by blast
  qed
  ultimately show "vm_tree s' u" using vm_tree_frame [OF _ both] tree u by blast
qed

lemma destroy_step:
  assumes ok: "destroy_ok t"
    and il: "ilist (rl_links (vm_heap s)) (vm_children s p) (map vt_root (t # ts))"
    and tree: "vm_tree s t" "\<forall>u \<in> set ts. vm_tree s u"
    and dist: "distinct (p # concat (map vt_nodes (t # ts)))" and fuel: "2 * length (vt_nodes t) \<le> fuel"
  shows "\<exists>s'. destroy_children (Suc fuel) s p OK = destroy_children fuel s' p OK \<and>
    ilist (rl_links (vm_heap s')) (vm_children s' p) (map vt_root ts) \<and> (\<forall>u \<in> set ts. vm_tree s' u) \<and>
    destroyed (insert p (set (concat (map vt_nodes (t # ts))))) (set (vt_nodes t)) s s' \<and>
    vm_parent s' p = vm_parent s p"
proof -
  let ?c = "vt_root t" and ?N = "set (vt_nodes t)"
  obtain l r where pop: "ref_pop_front (vm_heap s) (vm_children s p) =
      Inr (\<lparr>rl_links = l, rl_rc = rl_rc (vm_heap s)\<rparr>, r, ?c)" "ilist l r (map vt_root ts)"
    "same_links (set (map vt_root (t # ts))) (rl_links (vm_heap s)) l"
    using pop_and_drop [of "vm_heap s" "vm_children s p" ?c "map vt_root ts"] il by auto
  have c: "?c \<noteq> nullptr" "vm_children s p \<noteq> nullptr" using il by (auto simp: ilist_Cons)
  have apart: "?N \<inter> set (concat (map vt_nodes ts)) = {}" "p \<notin> ?N" "p \<notin> set (concat (map vt_nodes ts))"
    "distinct (vt_nodes t)"
    using dist by auto
  have root_tl: "?c \<notin> set (tl (vt_nodes t))" using apart(4) by (cases t) simp
  have N_tl: "?N = insert ?c (set (tl (vt_nodes t)))" by (cases t) simp
  let ?s1 = "s\<lparr>vm_heap := \<lparr>rl_links = l, rl_rc = rl_rc (vm_heap s)\<rparr>,
               vm_children := (vm_children s)(p := r), vm_parent := (vm_parent s)(?c := nullptr)\<rparr>"
  have "distinct (concat (map vt_nodes (t # ts)))" using dist by simp
  from roots_not_inner [OF this, of t]
  have "set (map vt_root (t # ts)) \<inter> set (tl (vt_nodes t)) = {}" by simp
  then have tree1: "vm_tree ?s1 t"
    by (intro vm_tree_frame [OF tree(1), where L = "set (map vt_root (t # ts))"]) (use pop(3) apart(2) in auto)
  obtain s2 where s2: "vmr_destroy fuel ?s1 ?c = Inr (s2, OK)"
    "destroyed ?N (set (tl (vt_nodes t))) ?s1 s2" "vm_children s2 ?c = nullptr" "vm_parent s2 ?c = nullptr"
    by (rule destroy_okD [OF ok tree1 apart(4) _ fuel]) simp
  let ?s3 = "s2\<lparr>vm_heap := (vm_heap s2)\<lparr>rl_rc := dropped {?c} (rl_rc (vm_heap s2))\<rparr>\<rparr>"
  have run: "destroy_children (Suc fuel) s p OK = destroy_children fuel ?s3 p OK"
    using c pop(1) s2(1) refptr_destroy_dropped [OF c(1)] by (simp add: empty_list_def Let_def)
  have links3: "same_links ?N l (rl_links (vm_heap ?s3))"
    using s2(2) by (simp add: destroyed_def same_regions_def)
  have kids3: "vm_children ?s3 q = ((vm_children s)(p := r)) q" "vm_parent ?s3 q = ((vm_parent s)(?c := nullptr)) q"
    if "q \<notin> ?N" for q
    using s2(2) that by (auto simp: destroyed_def same_regions_def)
  have p_c: "p \<noteq> ?c" using apart(2) vt_root_in_nodes [of t] by auto
  have il3: "ilist (rl_links (vm_heap ?s3)) (vm_children ?s3 p) (map vt_root ts)"
  proof -
    have "?N \<inter> set (map vt_root ts) = {}" using apart(1) vt_roots_nodes [of ts] by blast
    from ilist_frame [OF pop(2) links3 this] show ?thesis using kids3(1) [OF apart(2)] by simp
  qed
  have both: "same_links (set (map vt_root (t # ts)) \<union> ?N) (rl_links (vm_heap s)) (rl_links (vm_heap ?s3))"
    by (rule same_links_trans [OF pop(3) links3])
  have "\<forall>q. q \<notin> ?N \<longrightarrow> q \<noteq> p \<longrightarrow> vm_children ?s3 q = vm_children s q" using kids3(1) by auto
  note trees3 = siblings_kept [OF both this dist tree(2)]
  have "rl_rc (vm_heap ?s3) = dropped ?N (rl_rc (vm_heap s))"
    using s2(2) N_tl root_tl dropped_Un [of "{?c}" "set (tl (vt_nodes t))"] by (simp add: destroyed_def)
  moreover have "\<forall>q \<in> ?N. vm_children ?s3 q = nullptr \<and> vm_parent ?s3 q = nullptr"
    using s2 N_tl by (auto simp: destroyed_def)
  moreover have "same_regions (insert p (set (concat (map vt_nodes (t # ts))))) s ?s3"
  proof -
    have "set (map vt_root (t # ts)) \<union> ?N \<subseteq> insert p (set (concat (map vt_nodes (t # ts))))"
      using vt_roots_nodes [of "t # ts"] by auto
    with both have "same_links (insert p (set (concat (map vt_nodes (t # ts)))))
        (rl_links (vm_heap s)) (rl_links (vm_heap ?s3))" by (rule same_links_mono)
    then show ?thesis
      using kids3 p_c vt_root_in_nodes [of t] by (auto simp: same_regions_def)
  qed
  ultimately have "destroyed (insert p (set (concat (map vt_nodes (t # ts))))) ?N s ?s3"
    by (simp add: destroyed_def)
  then show ?thesis
    using run il3 trees3 kids3(2) [OF apart(2)] p_c by auto
qed

lemma destroy_children_all:
  assumes "\<forall>t \<in> set ts. destroy_ok t"
    and "ilist (rl_links (vm_heap s)) (vm_children s p) (map vt_root ts)" and "\<forall>t \<in> set ts. vm_tree s t"
    and "distinct (p # concat (map vt_nodes ts))" and "2 * length (concat (map vt_nodes ts)) < fuel"
  shows "\<exists>s'. destroy_children fuel s p OK = Inr (s', OK) \<and>
    destroyed (insert p (set (concat (map vt_nodes ts)))) (set (concat (map vt_nodes ts))) s s' \<and>
    vm_children s' p = nullptr \<and> vm_parent s' p = vm_parent s p"
  using assms
proof (induction ts arbitrary: s fuel)
  case Nil
  then obtain n where "fuel = Suc n" by (cases fuel) auto
  with Nil show ?case
    by (simp add: ilist_nullptr empty_list_def destroyed_def same_regions_def)
next
  case (Cons t ts)
  have nonempty: "0 < length (vt_nodes t)" by (cases t) simp
  obtain n where n: "fuel = Suc n" using Cons.prems(5) by (cases fuel) auto
  have len: "2 * length (vt_nodes t) + 2 * length (concat (map vt_nodes ts)) < Suc n"
    using Cons.prems(5) n by simp
  have fuel: "2 * length (vt_nodes t) \<le> n" using len by linarith
  have fuel': "2 * length (concat (map vt_nodes ts)) < n" using len nonempty by linarith
  obtain s1 where s1: "destroy_children fuel s p OK = destroy_children n s1 p OK"
    "ilist (rl_links (vm_heap s1)) (vm_children s1 p) (map vt_root ts)" "\<forall>u \<in> set ts. vm_tree s1 u"
    "destroyed (insert p (set (concat (map vt_nodes (t # ts))))) (set (vt_nodes t)) s s1"
    "vm_parent s1 p = vm_parent s p"
    using destroy_step [OF _ Cons.prems(2) _ _ Cons.prems(4) fuel] Cons.prems(1,3) n by auto
  obtain s2 where s2: "destroy_children n s1 p OK = Inr (s2, OK)"
    "destroyed (insert p (set (concat (map vt_nodes ts)))) (set (concat (map vt_nodes ts))) s1 s2"
    "vm_children s2 p = nullptr" "vm_parent s2 p = vm_parent s1 p"
    using Cons.IH [OF _ s1(2,3) _ fuel'] Cons.prems(1,4) by auto
  have "destroyed (insert p (set (concat (map vt_nodes (t # ts)))) \<union> insert p (set (concat (map vt_nodes ts))))
      (set (vt_nodes t) \<union> set (concat (map vt_nodes ts))) s s2"
    by (rule destroyed_trans [OF s1(4) s2(2)]) (use Cons.prems(4) in auto)
  moreover have "insert p (set (concat (map vt_nodes (t # ts)))) \<union> insert p (set (concat (map vt_nodes ts))) =
      insert p (set (concat (map vt_nodes (t # ts))))"
    and "set (vt_nodes t) \<union> set (concat (map vt_nodes ts)) = set (concat (map vt_nodes (t # ts)))"
    by auto
  ultimately show ?case using s1(1,5) s2 by auto
qed

lemma destroy_ok_all: "destroy_ok t"
proof (induction t)
  case (VNode p ts)
  show ?case unfolding destroy_ok_def
  proof (intro allI impI)
    fix s fuel
    assume tree: "vm_tree s (VNode p ts)" and dist: "distinct (vt_nodes (VNode p ts))"
      and parent: "vm_parent s (vt_root (VNode p ts)) = nullptr"
      and fuel: "2 * length (vt_nodes (VNode p ts)) \<le> fuel"
    obtain n where n: "fuel = Suc n" "2 * length (concat (map vt_nodes ts)) < n"
      using fuel by (cases fuel) auto
    obtain s' where s': "destroy_children n s p OK = Inr (s', OK)"
      "destroyed (insert p (set (concat (map vt_nodes ts)))) (set (concat (map vt_nodes ts))) s s'"
      "vm_children s' p = nullptr" "vm_parent s' p = vm_parent s p"
      using destroy_children_all [of ts s p n] VNode.IH tree dist n(2) by auto
    then show "\<exists>s'. vmr_destroy fuel s (vt_root (VNode p ts)) = Inr (s', OK) \<and>
        destroyed (set (vt_nodes (VNode p ts))) (set (tl (vt_nodes (VNode p ts)))) s s' \<and>
        vm_children s' (vt_root (VNode p ts)) = nullptr \<and> vm_parent s' (vt_root (VNode p ts)) = nullptr"
      using parent n(1) by simp
  qed
qed

section \<open>Lookups\<close>

lemma find_child_above_ilist:
  assumes xs: "ilist (rl_links (vm_heap s)) (vm_children s this) xs" and fuel: "length xs < fuel"
    and base: "vm_base s this = 0"
  shows "find_child_above fuel s this off =
    (case find (\<lambda>x. off \<le> vm_base s x) xs of
       None \<Rightarrow> Inr (s, nullptr)
     | Some x \<Rightarrow> bindE (refptr_raw (rl_rc (vm_heap s)) x)
                  (\<lambda>rc. Inr (s\<lparr>vm_heap := (vm_heap s)\<lparr>rl_rc := rc\<rparr>\<rparr>, x)))"
proof -
  let ?body = "\<lambda>child found. guardE (child \<noteq> nullptr) NullDeref
      (if vm_base s child \<ge> vm_base s this + off then Inr (child, False) else Inr (found, True))"
  have "nullptr \<notin> set xs" using xs by (simp add: ilist_def)
  then have "fold_nodes ?body xs nullptr =
      Inr (case find (\<lambda>x. off \<le> vm_base s x) xs of None \<Rightarrow> (nullptr, True) | Some x \<Rightarrow> (x, False))"
    by (induction xs) (auto simp: base)
  then show ?thesis
    unfolding find_child_above_def
    by (simp add: for_nodes_ilist [OF xs fuel] refptr_raw_def split: option.split)
qed

lemma add_release_same:
  assumes "x \<noteq> nullptr" and "refs rc x \<noteq> 0"
  shows "bindE (refptr_raw rc x) (\<lambda>rc. refptr_destroy rc x) = Inr rc"
proof -
  have "(refs rc)(x := refs rc x) = refs rc" by simp
  then show ?thesis
    using assms by (simp add: refptr_raw_def refptr_destroy_def add_ref_def release_def Let_def)
qed

lemma find_least_base:
  assumes "children_sorted s xs"
  shows "(case find (\<lambda>x. off \<le> vm_base s x) xs of None \<Rightarrow> False | Some x \<Rightarrow> vm_base s x \<le> e) \<longleftrightarrow>
    (\<exists>x \<in> set xs. off \<le> vm_base s x \<and> vm_base s x \<le> e)"
  using assms
proof (induction xs)
  case (Cons x xs)
  have least: "vm_base s x \<le> vm_base s y" if "y \<in> set xs" for y
    using Cons.prems that by (force simp: children_sorted_def word_le_nat_alt)
  show ?case
  proof (cases "off \<le> vm_base s x")
    case True
    then show ?thesis using least by (auto intro: order_trans)
  next
    case False
    then show ?thesis using Cons by (simp add: children_sorted_def)
  qed
qed simp

lemma does_overlap_child_ilist:
  assumes xs: "ilist (rl_links (vm_heap s)) (vm_children s this) xs" and fuel: "length xs < fuel"
    and base: "vm_base s this = 0" and sorted: "children_sorted s xs"
    and alive: "\<forall>x \<in> set xs. refs (rl_rc (vm_heap s)) x \<noteq> 0"
  shows "does_overlap_child fuel s this off sz =
    Inr (s, \<exists>x \<in> set xs. off \<le> vm_base s x \<and> vm_base s x \<le> off + sz)"
proof (cases "find (\<lambda>x. off \<le> vm_base s x) xs")
  case None
  then show ?thesis
    using find_least_base [OF sorted, where off = off and e = "off + sz"]
    by (simp add: does_overlap_child_def find_child_above_ilist [OF xs fuel base])
next
  case (Some x)
  then have x: "x \<in> set xs" by (auto simp: find_Some_iff)
  then have "x \<noteq> nullptr" using xs by (auto simp: ilist_def)
  with add_release_same [of x "rl_rc (vm_heap s)"] x alive
  have "bindE (refptr_raw (rl_rc (vm_heap s)) x) (\<lambda>rc. refptr_destroy rc x) = Inr (rl_rc (vm_heap s))"
    by blast
  then obtain rc where rc: "refptr_raw (rl_rc (vm_heap s)) x = Inr rc" "refptr_destroy rc x = Inr (rl_rc (vm_heap s))"
    by (auto simp: bindE_eq_Inr)
  have same: "s\<lparr>vm_heap := (vm_heap s)\<lparr>rl_rc := rl_rc (vm_heap s)\<rparr>\<rparr> = s" by simp
  show ?thesis
    using rc Some \<open>x \<noteq> nullptr\<close> find_least_base [OF sorted, where off = off and e = "off + sz"] base
    by (simp add: does_overlap_child_def find_child_above_ilist [OF xs fuel base] Let_def)
qed

lemma allocate_in_empty:
  assumes self: "this \<noteq> nullptr" and empty: "vm_children s this = nullptr" and req: "request_ok s this sz k flags"
    and wrap: "unat (vm_base s this) + unat (vm_size s this) < 2 ^ 64" and fits: "sz \<le> vm_size s this"
    and ptr: "ptr \<noteq> nullptr" "ptr \<noteq> this"
  shows "\<exists>s'. allocate_vmr_compact (Suc fuel) s this sz k flags ptr = Inr (s', Inr ptr) \<and>
    vm_base s' ptr = 0 \<and> vm_parent s' ptr = this \<and> vm_base s' this = vm_base s this \<and> vm_size s' this = vm_size s this"
proof -
  have il: "ilist (rl_links (vm_heap s)) (vm_children s this) []" using empty by (simp add: ilist_nullptr)
  have sum: "unat (vm_base s this + vm_size s this) = unat (vm_base s this) + unat (vm_size s this)"
    using wrap by (intro unat_plus_no_wrap) simp
  have pos: "0 < unat (vm_size s this)" using fits req by (auto simp: word_le_nat_alt request_ok_def)
  have "vm_base s this < vm_base s this + vm_size s this" using sum pos by (simp add: word_less_nat_alt)
  moreover have "align_up 0 (vmr_align k) = 0"
  proof (rule pow2_alignment.align_up_fix [OF vmr_align_pow2])
    have "(2::nat) ^ max 12 (unat k) \<le> 2 ^ 31"
      using req by (intro power_increasing) (auto simp: request_ok_def)
    then show "unat (0::u64) + (2 ^ max 12 (unat k) - 1) < 2 ^ LENGTH(64)" by simp
  qed (use req in \<open>auto simp: request_ok_def\<close>)
  ultimately have hole: "foreach_hole (Suc fuel) s this (first_fit (vmr_align k) sz) None = Inr (Some (0, sz, nullptr))"
    using fits by (simp del: for_nodes.simps add: foreach_hole_def for_nodes_ilist [OF il] first_fit_def Let_def not_less)
  let ?fl = "set_is_root (set_capability (set_type 0 REGION) (flag_capability flags)) 0"
  let ?rc = "(rl_rc (vm_heap s))\<lparr>refs := (refs (rl_rc (vm_heap s)))(ptr := 1),
               objs := (objs (rl_rc (vm_heap s)))(ptr := True)\<rparr>"
  let ?s1 = "vmregion_init (s\<lparr>vm_heap := (vm_heap s)\<lparr>rl_rc := ?rc\<rparr>\<rparr>) ptr 0 sz ?fl (vm_aspace s this)"
  let ?s2 = "?s1\<lparr>vm_parent := (vm_parent ?s1)(ptr := this)\<rparr>"
  have mk: "make_ref (rl_rc (vm_heap s)) ptr = Inr (?rc, ptr)"
    using ptr by (simp add: make_ref_def refptr_adopt_def adopt_def ref_init_def Let_def)
  have il2: "ilist (rl_links (vm_heap ?s2)) (vm_children ?s2 this) ([] @ [])"
    using ptr empty by (simp add: vmregion_init_def ilist_nullptr)
  obtain s3 where "vmr_insert ?s2 this nullptr ptr = Inr s3"
    "vm_base s3 = vm_base ?s2" "vm_parent s3 = vm_parent ?s2" "vm_size s3 = vm_size ?s2"
    using vmr_insert_ok [OF il2 _ ptr(1), of nullptr] by (auto simp: vmregion_init_def)
  then show ?thesis
    using hole mk req self ptr
    by (auto simp: allocate_vmr_compact_def request_ok_def Let_def vmregion_init_def)
qed

lemma allocate_rejects:
  assumes "this \<noteq> nullptr"
  shows "flag_capability flags AND flag_capability (vm_flags s this) \<noteq> flag_capability flags \<Longrightarrow>
      allocate_vmr_compact fuel s this sz k flags ptr = Inr (s, Inl PERMISSION_DENIED)"
    and "flag_capability flags AND flag_capability (vm_flags s this) = flag_capability flags \<Longrightarrow>
      flag_type flags \<noteq> REGION \<Longrightarrow>
      allocate_vmr_compact fuel s this sz k flags ptr = Inr (s, Inl INVALID_ARGUMENT)"
    and "request_ok s this n k flags \<Longrightarrow> sz mod page_size64 \<noteq> 0 \<Longrightarrow>
      allocate_vmr_compact fuel s this sz k flags ptr = Inl AssertFailed"
  using assms by (auto simp: allocate_vmr_compact_def request_ok_def)

lemma allocate_oom:
  assumes inv: "region_inv s this xs" and req: "request_ok s this sz k flags" and fuel: "length xs < fuel"
    and free: "slot_free s (max 12 (unat k)) (unat sz) (unat (vm_size s this)) xs a"
  shows "allocate_vmr_compact fuel s this sz k flags nullptr = Inr (s, Inl OUT_OF_MEMORY)"
proof -
  note b = allocate_search [OF inv req fuel]
  obtain nb c where "hole_scan s (vmr_align k) sz (vm_size s this) 0 xs = Some (nb, sz, c)"
    using hole_scan_complete [OF b(1) _ _ _ free, of 0] inv req
    by (auto simp: region_inv_def request_ok_def)
  with b(2) inv req show ?thesis
    by (simp add: allocate_vmr_compact_def request_ok_def region_inv_def make_ref_def Let_def)
qed

section \<open>Properties\<close>

text \<open>A small address space: its two roots are at 512 and 768; nothing is allocated yet.\<close>

definition blank_vmm :: vmm where
  "blank_vmm = \<lparr>vm_heap = \<lparr>rl_links = \<lparr>nexts = \<lambda>_. 0, prevs = \<lambda>_. 0\<rparr>, rl_rc = \<lparr>refs = \<lambda>_. 0, objs = \<lambda>_. False\<rparr>\<rparr>,
     vm_base = \<lambda>_. 0, vm_size = \<lambda>_. 0, vm_flags = \<lambda>_. 0, vm_parent = \<lambda>_. 0, vm_aspace = \<lambda>_. 0,
     vm_object = \<lambda>_. 0, vm_children = \<lambda>_. 0, as_pml4 = \<lambda>_. 0\<rparr>"

definition small_vmm :: vmm where
  "small_vmm = init_aspace (address_space_init blank_vmm 256 512 768) 256 512 768 4096"

lemma small_vmm_fields:
  "vm_base small_vmm 512 = 0" "vm_size small_vmm 512 = 0x00007FFFFFFFFFFF"
  "vm_base small_vmm 768 = 0xFFFF800000000000" "vm_size small_vmm 768 = 0x00007FFFFFFFFFFF"
  "vm_children small_vmm 512 = 0" "vm_children small_vmm 768 = 0" "vm_parent small_vmm 512 = 0"
  "vm_flags small_vmm 512 = root_flags" "vm_flags small_vmm 768 = root_flags"
  by (simp_all add: small_vmm_def init_aspace_def address_space_init_def vmregion_init_def Let_def)

lemma root_flag_fields: "flag_capability root_flags = 15" "flag_type root_flags = REGION" "flag_is_root root_flags = 1"
  by (simp_all add: root_flags_def REGION_def flag_capability_def flag_type_def flag_is_root_def
      set_capability_def set_type_def set_is_root_def bf_get_def bf_assign_def bf_mask_def)

lemma flag_values: "flag_capability 3 = 3" "flag_type 3 = REGION" "flag_capability 19 = 3" "flag_type 19 \<noteq> REGION"
  by (simp_all add: flag_capability_def flag_type_def REGION_def bf_get_def bf_mask_def)

lemma small_region: "region_inv small_vmm 512 []" "request_ok small_vmm 512 8192 16 3"
    "request_ok small_vmm 768 8192 16 3"
  by (simp_all add: region_inv_def request_ok_def small_vmm_fields children_sorted_def root_flag_fields
      flag_values)

text \<open>
  C4. Allocating a sub-region of a region based at address 0 whenever an aligned free slot
  exists: the call succeeds, the new child lies at the lowest aligned slot that overlaps no
  other child and stays inside the parent (\<open>region_lo s' ptr\<close> is at most every free slot
  \<open>a\<close>), it is linked in address order, carries the requested size and capability, the parent
  and the address space of the region it was allocated in, and every other region is
  untouched. The parent's invariant holds again.
\<close>

theorem allocate_first_fit:
  assumes "region_inv s this xs" and "request_ok s this sz k flags" and "length xs < fuel"
    and "ptr \<noteq> nullptr" and "ptr \<noteq> this" and "ptr \<notin> set xs"
    and "slot_free s (max 12 (unat k)) (unat sz) (unat (vm_size s this)) xs a"
  shows "\<exists>s' us vs. allocate_vmr_compact fuel s this sz k flags ptr = Inr (s', Inr ptr) \<and> xs = us @ vs \<and>
    region_inv s' this (us @ ptr # vs) \<and> vmr_child s' this ptr sz flags \<and> others_kept ptr s s' \<and>
    slot_free s (max 12 (unat k)) (unat sz) (unat (vm_size s this)) xs (region_lo s' ptr) \<and>
    region_lo s' ptr \<le> a"
  using assms by (rule allocate_some)

theorem allocate_first_fit_witness:
  "\<exists>s'. allocate_vmr_compact 1 small_vmm 512 8192 16 3 4096 = Inr (s', Inr 4096) \<and>
     region_inv s' 512 [4096] \<and> vmr_child s' 512 4096 8192 3"
  using allocate_first_fit [OF small_region(1,2), of 1 4096 0]
  by (auto simp: slot_free_def small_vmm_fields)

text \<open>
  C19. For a region whose base is 0 and whose size is at most \<open>2^47\<close>, with its children sorted, disjoint and
  inside it, and for a well-formed request (type \<open>REGION\<close>, capabilities the region has, an alignment
  power below 32 and a size that is a positive multiple of the page size and at most \<open>2^63\<close>), with fuel
  for one step per child: when no aligned slot of the requested size is free, the allocation reports
  \<open>ALLOCATION_FAILED\<close> and changes nothing, so under these conditions the search over the holes
  misses no slot.
\<close>

theorem allocate_full:
  assumes "region_inv s this xs" and "request_ok s this sz k flags" and "length xs < fuel"
    and "\<And>a. \<not> slot_free s (max 12 (unat k)) (unat sz) (unat (vm_size s this)) xs a"
  shows "allocate_vmr_compact fuel s this sz k flags ptr = Inr (s, Inl ALLOCATION_FAILED)"
  using assms by (rule allocate_none)

theorem allocate_full_witness:
  "allocate_vmr_compact 1 small_vmm 512 (2 ^ 47) 12 3 4096 = Inr (small_vmm, Inl ALLOCATION_FAILED)"
proof (rule allocate_full [OF small_region(1)])
  show "request_ok small_vmm 512 (2 ^ 47) 12 3"
    using small_region(2) by (simp add: request_ok_def)
qed (simp_all add: slot_free_def small_vmm_fields)

text \<open>
  The rejected requests: a capability the region does not have gives
  \<open>PERMISSION_DENIED\<close>, a type other than \<open>REGION\<close> gives \<open>INVALID_ARGUMENT\<close>, a size that is
  not a multiple of the page size fails the assertion, and a region that cannot be
  allocated gives \<open>OUT_OF_MEMORY\<close>; every error leaves the tree unchanged.
\<close>

theorem allocate_errors:
  assumes "region_inv s this xs" and "request_ok s this sz k flags" and "length xs < fuel"
    and "slot_free s (max 12 (unat k)) (unat sz) (unat (vm_size s this)) xs a"
  shows "allocate_vmr_compact fuel s this sz k flags nullptr = Inr (s, Inl OUT_OF_MEMORY) \<and>
    (\<forall>n. n mod page_size64 \<noteq> 0 \<longrightarrow> allocate_vmr_compact fuel s this n k flags ptr = Inl AssertFailed) \<and>
    (\<forall>f. flag_capability f AND flag_capability (vm_flags s this) \<noteq> flag_capability f \<longrightarrow>
       allocate_vmr_compact fuel s this n k f ptr = Inr (s, Inl PERMISSION_DENIED)) \<and>
    (\<forall>f. flag_capability f AND flag_capability (vm_flags s this) = flag_capability f \<longrightarrow> flag_type f \<noteq> REGION \<longrightarrow>
       allocate_vmr_compact fuel s this n k f ptr = Inr (s, Inl INVALID_ARGUMENT))"
  using allocate_oom [OF assms] allocate_rejects [of this] assms(1,2)
  by (auto simp: region_inv_def)

theorem allocate_errors_witness:
  "allocate_vmr_compact 1 small_vmm 512 8192 16 3 nullptr = Inr (small_vmm, Inl OUT_OF_MEMORY) \<and>
   allocate_vmr_compact 1 small_vmm 512 8193 16 3 4096 = Inl AssertFailed \<and>
   allocate_vmr_compact 1 small_vmm 512 8192 16 19 4096 = Inr (small_vmm, Inl INVALID_ARGUMENT)"
  using allocate_errors [OF small_region(1,2), of 1 0 4096 8192]
  by (simp add: slot_free_def small_vmm_fields root_flag_fields flag_values)

text \<open>
  A region whose base is not 0 (such as the kernel root, based at
  \<open>0xFFFF800000000000\<close>) hands out its first child at address 0, outside of its own range:
  \<open>foreach_hole\<close> passes offsets relative to the region, and the callback stores them as
  absolute bases.
\<close>

theorem allocate_ignores_base:
  assumes "this \<noteq> nullptr" and "vm_children s this = nullptr" and "request_ok s this sz k flags"
    and "unat (vm_base s this) + unat (vm_size s this) < 2 ^ 64" and "sz \<le> vm_size s this"
    and "ptr \<noteq> nullptr" and "ptr \<noteq> this" and "0 < vm_base s this"
  shows "\<exists>s'. allocate_vmr_compact (Suc fuel) s this sz k flags ptr = Inr (s', Inr ptr) \<and>
    vm_parent s' ptr = this \<and> vm_base s' ptr = 0 \<and> vm_base s' ptr < vm_base s' this"
  using allocate_in_empty [OF assms(1-7)] assms(8) by fastforce

theorem allocate_ignores_base_witness:
  "\<exists>s'. allocate_vmr_compact 1 small_vmm 768 8192 16 3 4096 = Inr (s', Inr 4096) \<and>
     vm_parent s' 4096 = 768 \<and> vm_base s' 4096 = 0 \<and> vm_base s' 4096 < vm_base s' 768"
  using allocate_ignores_base [of 768 small_vmm 8192 16 3 4096 0] small_region(3)
  by (simp add: small_vmm_fields)

text \<open>
  C28. \<open>does_overlap_child\<close> answers whether some child begins in the closed range from
  \<open>offset\<close> to \<open>offset + size\<close>, and leaves the tree and all reference counts as they were.
  So a child that begins below \<open>offset\<close> and reaches into the range is not noticed, and a
  child that begins exactly at its end is counted.
\<close>

theorem overlap_is_start_in_range:
  assumes "region_inv s this xs" and "length xs < fuel"
    and "\<forall>x \<in> set xs. refs (rl_rc (vm_heap s)) x \<noteq> 0"
  shows "does_overlap_child fuel s this offset sz =
    Inr (s, \<exists>x \<in> set xs. offset \<le> vm_base s x \<and> vm_base s x \<le> offset + sz)"
  using does_overlap_child_ilist [OF _ assms(2) _ _ assms(3)] assms(1) by (simp add: region_inv_def)

text \<open>The small address space with one child of the user root, \<open>[0x10000, 0x12000)\<close>.\<close>

definition one_child_vmm :: vmm where
  "one_child_vmm = small_vmm\<lparr>
     vm_heap := \<lparr>rl_links = \<lparr>nexts = \<lambda>_. 4096, prevs = \<lambda>_. 4096\<rparr>, rl_rc = \<lparr>refs = \<lambda>_. 1, objs = \<lambda>p. p = 4096\<rparr>\<rparr>,
     vm_base := (vm_base small_vmm)(4096 := 0x10000), vm_size := (vm_size small_vmm)(4096 := 0x2000),
     vm_parent := (vm_parent small_vmm)(4096 := 512), vm_children := (\<lambda>p. if p = 512 then 4096 else 0)\<rparr>"

lemma one_child_region: "region_inv one_child_vmm 512 [4096]"
  by (simp add: region_inv_def one_child_vmm_def small_vmm_fields children_sorted_def ilist_def cyc_def)

theorem overlap_is_start_in_range_witness:
  "does_overlap_child 2 one_child_vmm 512 0x11000 0x1000 = Inr (one_child_vmm, False) \<and>
   does_overlap_child 2 one_child_vmm 512 0xF000 0x1000 = Inr (one_child_vmm, True)"
  using overlap_is_start_in_range [OF one_child_region, of 2 "0x11000" "0x1000"]
    overlap_is_start_in_range [OF one_child_region, of 2 "0xF000" "0x1000"]
  by (simp add: one_child_vmm_def)

text \<open>
  C8. \<open>destroy\<close> on the root of a tree of regions terminates with \<open>OK\<close> whatever the shape of
  the tree, within twice as many loop iterations and calls as there are regions; it drops
  exactly one reference of every descendant, leaves every descendant without parent and
  without children, and touches no region outside of the tree.
\<close>

theorem destroy_whole_tree:
  assumes "vm_tree s t" and "distinct (vt_nodes t)" and "vm_parent s (vt_root t) = nullptr"
    and "2 * length (vt_nodes t) \<le> fuel"
  shows "\<exists>s'. vmr_destroy fuel s (vt_root t) = Inr (s', OK) \<and>
    rl_rc (vm_heap s') = dropped (set (tl (vt_nodes t))) (rl_rc (vm_heap s)) \<and>
    (\<forall>q \<in> set (vt_nodes t). vm_children s' q = nullptr \<and> vm_parent s' q = nullptr) \<and>
    same_regions (set (vt_nodes t)) s s'"
  by (rule destroy_okD [OF destroy_ok_all assms]) (auto simp: destroyed_def vt_nodes_eq [of t])

theorem destroy_whole_tree_witness:
  "\<exists>s'. vmr_destroy 4 one_child_vmm 512 = Inr (s', OK) \<and> \<not> objs (rl_rc (vm_heap s')) 4096 \<and>
     vm_children s' 512 = nullptr"
  using destroy_whole_tree [of one_child_vmm "VNode 512 [VNode 4096 []]" 4]
  by (auto simp: one_child_vmm_def small_vmm_fields ilist_def cyc_def dropped_def)

end
