(* ===== verification/Arch_Init.thy ===== *)
theory Arch_Init
  imports Arch_Interrupts Core_VmRegion
begin

text \<open>
  \<open>arch::init\<close> of \<open>arch/x86-64/init.cc\<close>: the array of per-CPU structures reached through the
  register \<open>gs\<close>, the boot thread with its address space, and the interrupt table. \<open>arr\<close>,
  \<open>boot_thread\<close> and \<open>boot_aspace\<close> (with its members \<open>user_root\<close> and \<open>kernel_root\<close>) are the addresses of
  the static objects, \<open>cr3\<close> the register.
\<close>

section \<open>State\<close>

record percpu =
  pc_self :: vaddr_t
  pc_cpu_num :: u32
  pc_curthread :: vaddr_t

record arch_sys =
  ar_percpu :: "percpu list"
  ar_gs :: vaddr_t
  ar_kernel_gs :: vaddr_t
  ar_vmm :: vmm
  ar_thread_aspace :: vaddr_t
  ar_irq :: irq

definition MAX_SMP_CPUS :: nat where
  "MAX_SMP_CPUS = 32"

definition sizeof_PerCPU :: u64 where
  "sizeof_PerCPU = 24"

section \<open>Operations\<close>

text \<open>The structure a pointer into the array refers to; any other pointer faults.\<close>

definition percpu_index :: "vaddr_t \<Rightarrow> vaddr_t \<Rightarrow> nat" where
  "percpu_index arr p = unat ((p - arr) div sizeof_PerCPU)"

definition percpu_at :: "vaddr_t \<Rightarrow> arch_sys \<Rightarrow> vaddr_t \<Rightarrow> percpu exec" where
  "percpu_at arr s p =
     (let i = percpu_index arr p
      in guardE (i < length (ar_percpu s) \<and> p = arr + sizeof_PerCPU * of_nat i) PageFault (Inr (ar_percpu s ! i)))"

definition cpu_num :: "vaddr_t \<Rightarrow> arch_sys \<Rightarrow> u32 exec" where
  "cpu_num arr s = bindE (percpu_at arr s (ar_gs s)) (\<lambda>c. Inr (pc_cpu_num c))"

definition get_percpu :: "vaddr_t \<Rightarrow> arch_sys \<Rightarrow> vaddr_t exec" where
  "get_percpu arr s = bindE (percpu_at arr s (ar_gs s)) (\<lambda>c. Inr (pc_self c))"

definition get_current_thread :: "vaddr_t \<Rightarrow> arch_sys \<Rightarrow> vaddr_t exec" where
  "get_current_thread arr s =
     bindE (get_percpu arr s) (\<lambda>self. bindE (percpu_at arr s self) (\<lambda>c. Inr (pc_curthread c)))"

text \<open>The reference counts of the boot objects are those of the region heap.\<close>

definition set_rc :: "arch_sys \<Rightarrow> rc_heap \<Rightarrow> arch_sys" where
  "set_rc s rc = s\<lparr>ar_vmm := (ar_vmm s)\<lparr>vm_heap := (vm_heap (ar_vmm s))\<lparr>rl_rc := rc\<rparr>\<rparr>\<rparr>"

definition get_rc :: "arch_sys \<Rightarrow> rc_heap" where
  "get_rc s = rl_rc (vm_heap (ar_vmm s))"

definition swapgs :: "arch_sys \<Rightarrow> arch_sys" where
  "swapgs s = s\<lparr>ar_gs := ar_kernel_gs s, ar_kernel_gs := ar_gs s\<rparr>"

definition init_percpu :: "vaddr_t \<Rightarrow> percpu list \<Rightarrow> percpu list" where
  "init_percpu arr cs =
     fold (\<lambda>i cs. cs[i := \<lparr>pc_self = arr + sizeof_PerCPU * of_nat i, pc_cpu_num = of_nat i, pc_curthread = nullptr\<rparr>])
       [0..<MAX_SMP_CPUS] cs"

definition arch_init ::
  "vaddr_t \<Rightarrow> vaddr_t \<Rightarrow> vaddr_t \<Rightarrow> vaddr_t \<Rightarrow> vaddr_t \<Rightarrow> u64 \<Rightarrow> vaddr_t \<Rightarrow> (nat \<Rightarrow> u64) \<Rightarrow> arch_sys \<Rightarrow>
   arch_sys exec" where
  "arch_init arr boot_thread boot_aspace user_root kernel_root cr3 idt stubs s =
     (let s = s\<lparr>ar_percpu := init_percpu arr (ar_percpu s)\<rparr>;
          s = swapgs (s\<lparr>ar_kernel_gs := arr\<rparr>) in
      bindE (cpu_num arr s) (\<lambda>n. guardE (n = 0) AssertFailed
      (bindE (get_percpu arr s) (\<lambda>self. guardE (self = arr) AssertFailed
       (let s = s\<lparr>ar_vmm := init_aspace (ar_vmm s) boot_aspace user_root kernel_root cr3\<rparr>;
            s = set_rc s (refptr_adopt (get_rc s) boot_aspace) in
        bindE (refptr_destroy (get_rc s) (ar_thread_aspace s)) (\<lambda>rc.
        let s = (set_rc s rc)\<lparr>ar_thread_aspace := boot_aspace\<rparr>;
            s = s\<lparr>ar_percpu := (ar_percpu s)[0 := (ar_percpu s ! 0)\<lparr>pc_curthread := boot_thread\<rparr>]\<rparr> in
        bindE (get_current_thread arr s) (\<lambda>t. guardE (t = boot_thread) AssertFailed
        (Inr (s\<lparr>ar_irq := init_idt idt stubs (ar_irq s)\<rparr>)))))))))"

section \<open>The boot processor\<close>

lemma init_percpu_loop:
  assumes "n \<le> length cs"
  shows "fold (\<lambda>i cs. cs[i := f i]) [0..<n] cs = map f [0..<n] @ drop n cs"
  using assms
proof (induction n)
  case (Suc n)
  then have "drop n cs = cs ! n # drop (Suc n) cs" by (simp add: Cons_nth_drop_Suc)
  then show ?case using Suc by (simp add: list_update_append)
qed simp

lemma init_percpu_eq:
  assumes "length cs = MAX_SMP_CPUS"
  shows "init_percpu arr cs = map (\<lambda>i. \<lparr>pc_self = arr + sizeof_PerCPU * of_nat i, pc_cpu_num = of_nat i,
    pc_curthread = nullptr\<rparr>) [0..<MAX_SMP_CPUS]"
  using assms init_percpu_loop [of MAX_SMP_CPUS cs] by (simp add: init_percpu_def)

lemma arch_init_state:
  assumes "length (ar_percpu s) = MAX_SMP_CPUS" and "boot_aspace \<noteq> nullptr" and "ar_thread_aspace s = nullptr"
    and "irq_wf (ar_irq s)"
  shows "\<exists>s'. arch_init arr boot_thread boot_aspace user_root kernel_root cr3 idt stubs s = Inr s' \<and> cpu_num arr s' = Inr 0 \<and>
    get_percpu arr s' = Inr arr \<and> get_current_thread arr s' = Inr boot_thread \<and>
    (\<forall>i < MAX_SMP_CPUS. pc_self (ar_percpu s' ! i) = arr + sizeof_PerCPU * of_nat i \<and>
       pc_cpu_num (ar_percpu s' ! i) = of_nat i \<and>
       pc_curthread (ar_percpu s' ! i) = (if i = 0 then boot_thread else nullptr)) \<and>
    as_pml4 (ar_vmm s') boot_aspace = cr3 \<and> vm_base (ar_vmm s') kernel_root = 0xFFFF800000000000 \<and>
    ar_thread_aspace s' = boot_aspace \<and> ref_count (get_rc s') boot_aspace = 1 \<and>
    ar_irq s' = init_idt idt stubs (ar_irq s) \<and> irq_wf (ar_irq s')"
proof -
  have cs: "init_percpu arr (ar_percpu s) ! i =
      \<lparr>pc_self = arr + sizeof_PerCPU * of_nat i, pc_cpu_num = of_nat i, pc_curthread = nullptr\<rparr>" if "i < 32" for i
    using that by (simp add: init_percpu_eq [OF assms(1)] MAX_SMP_CPUS_def)
  have len: "length (init_percpu arr (ar_percpu s)) = 32"
    by (simp add: init_percpu_eq [OF assms(1)]) (simp add: MAX_SMP_CPUS_def)
  then have ne: "init_percpu arr (ar_percpu s) \<noteq> []" by auto
  have idx: "percpu_index arr arr = 0" by (simp add: percpu_index_def)
  have wf: "irq_wf (init_idt idt stubs (ar_irq s))" by (simp add: init_idt_eq [OF assms(4)] irq_wf_def)
  show ?thesis
    using assms(2,3) cs [of 0] len ne wf
    by (auto simp: arch_init_def cpu_num_def get_percpu_def get_current_thread_def percpu_at_def idx swapgs_def Let_def
        refptr_destroy_def refptr_adopt_def adopt_def ref_count_def set_rc_def get_rc_def init_aspace_def MAX_SMP_CPUS_def nth_list_update cs)
qed

text \<open>
  \<open>arch::init\<close> passes its three assertions and leaves the boot processor ready: \<open>gs\<close> leads to the
  first per-CPU structure, whose current thread is the boot thread, every other structure knows
  its own address and number and has no thread, the boot address space has the page tables in
  use, its kernel root region covers the upper half and it has exactly one reference, held by
  the boot thread, and the interrupt table is set up.
\<close>

theorem arch_init_boots:
  assumes "length (ar_percpu s) = MAX_SMP_CPUS" and "boot_aspace \<noteq> nullptr" and "ar_thread_aspace s = nullptr"
    and "irq_wf (ar_irq s)"
  shows "\<exists>s'. arch_init arr boot_thread boot_aspace user_root kernel_root cr3 idt stubs s = Inr s' \<and> cpu_num arr s' = Inr 0 \<and>
    get_percpu arr s' = Inr arr \<and> get_current_thread arr s' = Inr boot_thread \<and>
    (\<forall>i < MAX_SMP_CPUS. pc_self (ar_percpu s' ! i) = arr + sizeof_PerCPU * of_nat i \<and>
       pc_cpu_num (ar_percpu s' ! i) = of_nat i \<and>
       pc_curthread (ar_percpu s' ! i) = (if i = 0 then boot_thread else nullptr)) \<and>
    as_pml4 (ar_vmm s') boot_aspace = cr3 \<and> vm_base (ar_vmm s') kernel_root = 0xFFFF800000000000 \<and>
    ar_thread_aspace s' = boot_aspace \<and> ref_count (get_rc s') boot_aspace = 1 \<and>
    ar_irq s' = init_idt idt stubs (ar_irq s) \<and> irq_wf (ar_irq s')"
  using assms by (rule arch_init_state)

definition example_sys :: arch_sys where
  "example_sys = \<lparr>ar_percpu = replicate 32 \<lparr>pc_self = 0, pc_cpu_num = 0, pc_curthread = 0\<rparr>, ar_gs = 0, ar_kernel_gs = 0,
     ar_vmm = address_space_init blank_vmm 0xB000 0xB010 0xB080, ar_thread_aspace = nullptr, ar_irq = example_irq\<rparr>"

theorem arch_init_boots_witness:
  "\<exists>s'. arch_init 0x9000 0xA000 0xB000 0xB010 0xB080 0x1000 0xC000 (\<lambda>i. 0x2000 + of_nat i) example_sys = Inr s' \<and>
     get_current_thread 0x9000 s' = Inr 0xA000 \<and> pc_cpu_num (ar_percpu s' ! 5) = 5"
proof -
  have "length (ar_percpu example_sys) = MAX_SMP_CPUS" "ar_thread_aspace example_sys = nullptr" "irq_wf (ar_irq example_sys)"
    by (simp_all add: example_sys_def MAX_SMP_CPUS_def example_irq_wf)
  then obtain s' where "arch_init 0x9000 0xA000 0xB000 0xB010 0xB080 0x1000 0xC000 (\<lambda>i. 0x2000 + of_nat i) example_sys = Inr s'"
    "get_current_thread 0x9000 s' = Inr 0xA000"
    "\<forall>i < MAX_SMP_CPUS. pc_cpu_num (ar_percpu s' ! i) = of_nat i"
    using arch_init_boots [of example_sys "0xB000" "0x9000" "0xA000" "0xB010" "0xB080" "0x1000" "0xC000" "\<lambda>i. 0x2000 + of_nat i"] by auto
  moreover have "5 < MAX_SMP_CPUS" by (simp add: MAX_SMP_CPUS_def)
  ultimately show ?thesis by auto
qed

end
