(* ===== verification/Platform_Console.thy ===== *)
theory Platform_Console
  imports Ebl_Print
begin

text \<open>
  The PC platform at the level of its I/O ports: \<open>platform/pc/console.cc\<close>, \<open>platform/pc/init.cc\<close>,
  \<open>outb\<close> and \<open>inb\<close> of \<open>arch/x86-64/asm.h\<close>, and the loader's own copy of the console in
  \<open>loader/x86-64-multiboot2/main.cc\<close>.

  The devices are two 16550 serial ports and the two masks of the 8259 interrupt controllers; a
  write to a port changes a register of a device as its data sheet says (register 0 is the
  transmitter or, while the divisor latch is enabled, the low byte of the divisor). What a read of a
  line status register returns is the device's choice: it is the parameter \<open>lsr\<close>, a function of
  the port and of the number of reads so far. The busy waits carry fuel; \<open>prompt d lsr port\<close> says
  that the transmitter gets ready within \<open>d\<close> reads, and then \<open>d\<close> is enough.
\<close>

section \<open>Devices\<close>

record uart =
  ua_ier :: u8
  ua_fcr :: u8
  ua_lcr :: u8
  ua_mcr :: u8
  ua_dll :: u8
  ua_dlm :: u8
  ua_sent :: "u8 list"

record ports =
  po_com1 :: uart
  po_com2 :: uart
  po_pic1 :: u8
  po_pic2 :: u8
  po_reads :: nat

definition dlab :: "uart \<Rightarrow> bool" where
  "dlab u \<longleftrightarrow> bit (ua_lcr u) 7"

definition uart_write :: "u16 \<Rightarrow> u8 \<Rightarrow> uart \<Rightarrow> uart" where
  "uart_write reg v u =
     (if reg = 0 then if dlab u then u\<lparr>ua_dll := v\<rparr> else u\<lparr>ua_sent := ua_sent u @ [v]\<rparr>
      else if reg = 1 then if dlab u then u\<lparr>ua_dlm := v\<rparr> else u\<lparr>ua_ier := v\<rparr>
      else if reg = 2 then u\<lparr>ua_fcr := v\<rparr>
      else if reg = 3 then u\<lparr>ua_lcr := v\<rparr>
      else if reg = 4 then u\<lparr>ua_mcr := v\<rparr>
      else u)"

definition COM1 :: u16 where "COM1 = 0x3F8"
definition COM2 :: u16 where "COM2 = 0x2F8"

definition outb :: "u16 \<Rightarrow> u8 \<Rightarrow> ports \<Rightarrow> ports" where
  "outb port v s =
     (if port - COM1 < 8 then s\<lparr>po_com1 := uart_write (port - COM1) v (po_com1 s)\<rparr>
      else if port - COM2 < 8 then s\<lparr>po_com2 := uart_write (port - COM2) v (po_com2 s)\<rparr>
      else if port = 0x21 then s\<lparr>po_pic1 := v\<rparr>
      else if port = 0xA1 then s\<lparr>po_pic2 := v\<rparr>
      else s)"

definition inb :: "(u16 \<Rightarrow> nat \<Rightarrow> u8) \<Rightarrow> u16 \<Rightarrow> ports \<Rightarrow> u8 \<times> ports" where
  "inb lsr port s = (lsr port (po_reads s), s\<lparr>po_reads := Suc (po_reads s)\<rparr>)"

section \<open>The console\<close>

definition console_init_port :: "u16 \<Rightarrow> ports \<Rightarrow> ports" where
  "console_init_port port s =
     (let s = outb (port + 1) 0x00 s;
          s = outb (port + 3) 0x80 s;
          s = outb (port + 0) 0x03 s;
          s = outb (port + 1) 0x00 s;
          s = outb (port + 3) 0x03 s;
          s = outb (port + 2) 0xC7 s
      in outb (port + 4) 0x0B s)"

definition console_init :: "ports \<Rightarrow> ports" where
  "console_init s = console_init_port COM2 (console_init_port COM1 s)"

text \<open>\<open>while((inb(port + 5) & 0x20) == 0);\<close>\<close>

fun wait_ready :: "nat \<Rightarrow> (u16 \<Rightarrow> nat \<Rightarrow> u8) \<Rightarrow> u16 \<Rightarrow> ports \<Rightarrow> ports exec" where
  "wait_ready 0 lsr port s = Inl OutOfFuel"
| "wait_ready (Suc fuel) lsr port s =
     (let (v, s) = inb lsr (port + 5) s in if v AND 0x20 = 0 then wait_ready fuel lsr port s else Inr s)"

definition port_emit :: "nat \<Rightarrow> (u16 \<Rightarrow> nat \<Rightarrow> u8) \<Rightarrow> u16 \<Rightarrow> u8 \<Rightarrow> ports \<Rightarrow> ports exec" where
  "port_emit d lsr port c s = bindE (wait_ready d lsr port s) (\<lambda>s. Inr (outb port c s))"

definition platform_emit :: "nat \<Rightarrow> (u16 \<Rightarrow> nat \<Rightarrow> u8) \<Rightarrow> u8 \<Rightarrow> ports \<Rightarrow> ports exec" where
  "platform_emit d lsr c s = port_emit d lsr COM1 c s"

fun platform_puts :: "nat \<Rightarrow> nat \<Rightarrow> (u16 \<Rightarrow> nat \<Rightarrow> u8) \<Rightarrow> mem \<Rightarrow> vaddr_t \<Rightarrow> ports \<Rightarrow> ports exec" where
  "platform_puts 0 d lsr m c s = Inl OutOfFuel"
| "platform_puts (Suc fuel) d lsr m c s =
     (if m c \<noteq> 0 then bindE (platform_emit d lsr (m c) s) (platform_puts fuel d lsr m (c + 1)) else Inr s)"

fun console_log :: "nat \<Rightarrow> nat \<Rightarrow> (u16 \<Rightarrow> nat \<Rightarrow> u8) \<Rightarrow> mem \<Rightarrow> vaddr_t \<Rightarrow> ports \<Rightarrow> ports exec" where
  "console_log 0 d lsr m c s = Inl OutOfFuel"
| "console_log (Suc fuel) d lsr m c s =
     (if m c \<noteq> 0
      then bindE (wait_ready d lsr COM2 s) (\<lambda>s. console_log fuel d lsr m (c + 1) (outb COM2 (m c) s))
      else Inr s)"

definition platform_init :: "ports \<Rightarrow> ports" where
  "platform_init s = outb 0x21 0xFF (outb 0xA1 0xFF s)"

section \<open>The loader's copy\<close>

definition loader_console_init :: "u16 \<Rightarrow> ports \<Rightarrow> ports" where
  "loader_console_init port s =
     (let s = outb (port + 1) 0x00 s;
          s = outb (port + 3) 0x80 s;
          s = outb (port + 0) 0x03 s;
          s = outb (port + 1) 0x00 s;
          s = outb (port + 3) 0x03 s;
          s = outb (port + 2) 0xC7 s
      in outb (port + 4) 0x0B s)"

definition loader_console_emit :: "nat \<Rightarrow> (u16 \<Rightarrow> nat \<Rightarrow> u8) \<Rightarrow> u8 \<Rightarrow> ports \<Rightarrow> ports exec" where
  "loader_console_emit d lsr c s = bindE (wait_ready d lsr 0x3F8 s) (\<lambda>s. Inr (outb 0x3F8 c s))"

fun loader_console_puts :: "nat \<Rightarrow> nat \<Rightarrow> (u16 \<Rightarrow> nat \<Rightarrow> u8) \<Rightarrow> mem \<Rightarrow> vaddr_t \<Rightarrow> ports \<Rightarrow> ports exec" where
  "loader_console_puts 0 d lsr m c s = Inl OutOfFuel"
| "loader_console_puts (Suc fuel) d lsr m c s =
     (if m c \<noteq> 0 then bindE (loader_console_emit d lsr (m c) s) (loader_console_puts fuel d lsr m (c + 1)) else Inr s)"

fun loader_console_log :: "nat \<Rightarrow> nat \<Rightarrow> (u16 \<Rightarrow> nat \<Rightarrow> u8) \<Rightarrow> mem \<Rightarrow> vaddr_t \<Rightarrow> ports \<Rightarrow> ports exec" where
  "loader_console_log 0 d lsr m c s = Inl OutOfFuel"
| "loader_console_log (Suc fuel) d lsr m c s =
     (if m c \<noteq> 0
      then bindE (wait_ready d lsr 0x2F8 s) (\<lambda>s. loader_console_log fuel d lsr m (c + 1) (outb 0x2F8 (m c) s))
      else Inr s)"

section \<open>Sending\<close>

definition prompt :: "nat \<Rightarrow> (u16 \<Rightarrow> nat \<Rightarrow> u8) \<Rightarrow> u16 \<Rightarrow> bool" where
  "prompt d lsr port \<longleftrightarrow> (\<forall>n. \<exists>k < d. lsr (port + 5) (n + k) AND 0x20 \<noteq> 0)"

lemma wait_ready_ok:
  assumes "lsr (port + 5) (po_reads s + k) AND 0x20 \<noteq> 0" and "k < fuel"
  shows "\<exists>n. wait_ready fuel lsr port s = Inr (s\<lparr>po_reads := n\<rparr>)"
  using assms
proof (induction fuel arbitrary: s k)
  case (Suc fuel)
  show ?case
  proof (cases "lsr (port + 5) (po_reads s) AND 0x20 = 0")
    case True
    with Suc.prems obtain j where j: "k = Suc j" by (cases k) auto
    show ?thesis using Suc.IH [of "s\<lparr>po_reads := Suc (po_reads s)\<rparr>" j] Suc.prems True j by (simp add: inb_def)
  next
    case False
    then show ?thesis by (simp add: inb_def) blast
  qed
qed simp

lemma wait_prompt:
  assumes "prompt d lsr port"
  shows "\<exists>n. wait_ready d lsr port s = Inr (s\<lparr>po_reads := n\<rparr>)"
proof -
  obtain k where "k < d" "lsr (port + 5) (po_reads s + k) AND 0x20 \<noteq> 0"
    using assms unfolding prompt_def by blast
  then show ?thesis using wait_ready_ok by blast
qed

lemma outb_data [simp]:
  "outb COM1 c s = s\<lparr>po_com1 := uart_write 0 c (po_com1 s)\<rparr>" "outb COM2 c s = s\<lparr>po_com2 := uart_write 0 c (po_com2 s)\<rparr>"
  by (simp_all add: outb_def COM1_def COM2_def)

lemma uart_send: "\<not> dlab u \<Longrightarrow> uart_write 0 c u = u\<lparr>ua_sent := ua_sent u @ [c]\<rparr>"
  by (simp add: uart_write_def)

lemma dlab_sent [simp]: "dlab (u\<lparr>ua_sent := x\<rparr>) = dlab u"
  by (simp add: dlab_def)

text \<open>What a run of the console on one port leaves: only the sent characters and the reads change.\<close>

lemma platform_emit_ok:
  assumes "prompt d lsr COM1" and "\<not> dlab (po_com1 s)"
  shows "\<exists>n. platform_emit d lsr c s =
    Inr (s\<lparr>po_com1 := (po_com1 s)\<lparr>ua_sent := ua_sent (po_com1 s) @ [c]\<rparr>, po_reads := n\<rparr>)"
proof -
  obtain n where "wait_ready d lsr COM1 s = Inr (s\<lparr>po_reads := n\<rparr>)" using wait_prompt [OF assms(1)] by blast
  then show ?thesis using uart_send [OF assms(2)] by (auto simp: platform_emit_def port_emit_def intro!: exI [of _ n])
qed

lemma platform_puts_ok:
  assumes "prompt d lsr COM1" and "\<not> dlab (po_com1 s)" and "stored m p cs" and "length cs < fuel"
  shows "\<exists>n. platform_puts fuel d lsr m p s =
    Inr (s\<lparr>po_com1 := (po_com1 s)\<lparr>ua_sent := ua_sent (po_com1 s) @ cs\<rparr>, po_reads := n\<rparr>)"
  using assms(2-4)
proof (induction cs arbitrary: fuel p s)
  case Nil
  then show ?case by (cases fuel) (auto simp: stored_Nil intro!: exI [of _ "po_reads s"])
next
  case (Cons c cs)
  then obtain f where f: "fuel = Suc f" by (cases fuel) auto
  obtain n where n: "platform_emit d lsr c s =
      Inr (s\<lparr>po_com1 := (po_com1 s)\<lparr>ua_sent := ua_sent (po_com1 s) @ [c]\<rparr>, po_reads := n\<rparr>)"
    using platform_emit_ok [OF assms(1) Cons.prems(1)] by blast
  show ?case
    using Cons.IH [of "s\<lparr>po_com1 := (po_com1 s)\<lparr>ua_sent := ua_sent (po_com1 s) @ [c]\<rparr>, po_reads := n\<rparr>" "p + 1" f]
      Cons.prems n unfolding f by (auto simp: stored_Cons)
qed

lemma console_log_ok:
  assumes "prompt d lsr COM2" and "\<not> dlab (po_com2 s)" and "stored m p cs" and "length cs < fuel"
  shows "\<exists>n. console_log fuel d lsr m p s =
    Inr (s\<lparr>po_com2 := (po_com2 s)\<lparr>ua_sent := ua_sent (po_com2 s) @ cs\<rparr>, po_reads := n\<rparr>)"
  using assms(2-4)
proof (induction cs arbitrary: fuel p s)
  case Nil
  then show ?case by (cases fuel) (auto simp: stored_Nil intro!: exI [of _ "po_reads s"])
next
  case (Cons c cs)
  then obtain f where f: "fuel = Suc f" by (cases fuel) auto
  obtain n where n: "wait_ready d lsr COM2 s = Inr (s\<lparr>po_reads := n\<rparr>)" using wait_prompt [OF assms(1)] by blast
  show ?case
    using Cons.IH [of "s\<lparr>po_reads := n, po_com2 := (po_com2 s)\<lparr>ua_sent := ua_sent (po_com2 s) @ [c]\<rparr>\<rparr>" "p + 1" f]
      Cons.prems n unfolding f by (auto simp: stored_Cons uart_send)
qed

lemma loader_console_same:
  "loader_console_init port = console_init_port port" "loader_console_emit = platform_emit"
  "loader_console_puts fuel d lsr m c s = platform_puts fuel d lsr m c s"
  "loader_console_log fuel d lsr m c s = console_log fuel d lsr m c s"
proof -
  show "loader_console_init port = console_init_port port"
    by (simp add: fun_eq_iff loader_console_init_def console_init_port_def)
  show emit: "loader_console_emit = platform_emit"
    by (simp add: fun_eq_iff loader_console_emit_def platform_emit_def port_emit_def flip: COM1_def)
  show "loader_console_puts fuel d lsr m c s = platform_puts fuel d lsr m c s"
    by (induction fuel arbitrary: c s) (simp_all add: emit cong: bindE_cong)
  show "loader_console_log fuel d lsr m c s = console_log fuel d lsr m c s"
    by (induction fuel arbitrary: c s) (simp_all flip: COM2_def cong: bindE_cong)
qed

section \<open>Programming the ports\<close>

text \<open>8 data bits, no parity, one stop bit, divisor 3 (38400 baud), no interrupts.\<close>

definition uart_ready :: "uart \<Rightarrow> bool" where
  "uart_ready u \<longleftrightarrow> \<not> dlab u \<and> ua_lcr u AND 3 = 3 \<and> \<not> bit (ua_lcr u) 2 \<and> \<not> bit (ua_lcr u) 3 \<and>
     256 * unat (ua_dlm u) + unat (ua_dll u) = 3 \<and> ua_ier u = 0 \<and> bit (ua_fcr u) 0"

definition uart_programmed :: "uart \<Rightarrow> uart" where
  "uart_programmed u = u\<lparr>ua_ier := if dlab u then ua_ier u else 0, ua_fcr := 0xC7, ua_lcr := 3, ua_mcr := 0x0B,
     ua_dll := 3, ua_dlm := 0\<rparr>"

lemma console_init_port_eq:
  "console_init_port COM1 s = s\<lparr>po_com1 := uart_programmed (po_com1 s)\<rparr>"
  "console_init_port COM2 s = s\<lparr>po_com2 := uart_programmed (po_com2 s)\<rparr>"
  by (simp_all add: console_init_port_def outb_def COM1_def COM2_def uart_write_def dlab_def uart_programmed_def Let_def)

lemma uart_programmed_ready: "\<not> dlab u \<or> ua_ier u = 0 \<Longrightarrow> uart_ready (uart_programmed u)"
  by (auto simp: uart_ready_def uart_programmed_def dlab_def)

lemma uart_programmed_sent: "ua_sent (uart_programmed u) = ua_sent u"
  by (simp add: uart_programmed_def)

lemma uart_ready_sent: "uart_ready (u\<lparr>ua_sent := x\<rparr>) = uart_ready u"
  by (simp add: uart_ready_def dlab_def)
section \<open>Properties\<close>

text \<open>
  The console of the stream functions (\<open>console_emit\<close> of \<open>Ebl_Stdio\<close>, an append to what the
  port has sent) and the console at the ports: \<open>io_com1\<close> is what \<open>COM1\<close> has sent.
\<close>

fun platform_emit_all :: "nat \<Rightarrow> (u16 \<Rightarrow> nat \<Rightarrow> u8) \<Rightarrow> u8 list \<Rightarrow> ports \<Rightarrow> ports exec" where
  "platform_emit_all d lsr [] s = Inr s"
| "platform_emit_all d lsr (c # cs) s = bindE (platform_emit d lsr c s) (platform_emit_all d lsr cs)"

definition console_rel :: "io \<Rightarrow> ports \<Rightarrow> bool" where
  "console_rel s t \<longleftrightarrow> io_com1 s = ua_sent (po_com1 t) \<and> \<not> dlab (po_com1 t)"

lemma emit_simulates:
  assumes "prompt d lsr COM1" and "console_rel s t"
  shows "\<exists>t'. platform_emit d lsr c t = Inr t' \<and> console_rel (console_emit c s) t' \<and> po_com2 t' = po_com2 t"
  using platform_emit_ok [OF assms(1), of t c] assms(2) by (auto simp: console_rel_def console_emit_def)

lemma emit_all_simulates:
  assumes "prompt d lsr COM1" and "console_rel s t"
  shows "\<exists>t'. platform_emit_all d lsr cs t = Inr t' \<and> console_rel (fold console_emit cs s) t' \<and> po_com2 t' = po_com2 t"
  using assms(2)
proof (induction cs arbitrary: s t)
  case (Cons c cs)
  from emit_simulates [OF assms(1) Cons.prems, of c] obtain t' where
    t': "platform_emit d lsr c t = Inr t'" "console_rel (console_emit c s) t'" "po_com2 t' = po_com2 t" by blast
  from Cons.IH [OF t'(2)] t'(1,3) show ?case by auto
qed auto

text \<open>
  C18. The text that \<open>kerr\<close> prints reaches the wire: from ports that were programmed by
  \<open>console_init\<close> and whose transmitter gets ready within \<open>d\<close> reads of the line status, sending the
  characters of the text through \<open>console_emit\<close> at the level of \<open>inb\<close> and \<open>outb\<close> terminates, and what
  \<open>COM1\<close> has sent is what the model of the console used in the rest of the development says:
  the text of the reference semantics (of fewer than 2^31 characters) behind what was sent before.
  \<open>COM2\<close> is not touched.
\<close>

theorem kerr_reaches_port:
  assumes "format_text strs fmt args = Some cs" and "readable strs fuel (io_mem s)" and "length cs < 2 ^ 31"
    and "prompt d lsr COM1" and "io_com1 s = ua_sent (po_com1 t)"
  shows "\<exists>s' t'. kerr fuel fmt args s = Inr (s', int (length cs)) \<and>
    platform_emit_all d lsr cs (console_init t) = Inr t' \<and> io_com1 s' = ua_sent (po_com1 t') \<and>
    ua_sent (po_com1 t') = ua_sent (po_com1 t) @ cs \<and> po_com2 t' = po_com2 (console_init t)"
proof -
  have "kerr fuel fmt args s = Inr (s\<lparr>io_buf := 0, io_com1 := io_com1 s @ cs\<rparr>, int (length cs))"
    using assms(1-3) by (rule kerr_text)
  moreover have "console_rel s (console_init t)"
    using assms(5)
    by (simp add: console_rel_def console_init_def console_init_port_eq uart_programmed_def dlab_def)
  from emit_all_simulates [OF assms(4) this, of cs]
  obtain t' where "platform_emit_all d lsr cs (console_init t) = Inr t'" "io_com1 s @ cs = ua_sent (po_com1 t')"
    "po_com2 t' = po_com2 (console_init t)"
    by (auto simp: console_rel_def fold_console_emit)
  ultimately show ?thesis using assms(5) by auto
qed

definition idle_uart :: uart where
  "idle_uart = \<lparr>ua_ier = 0, ua_fcr = 0, ua_lcr = 0, ua_mcr = 0, ua_dll = 1, ua_dlm = 0, ua_sent = []\<rparr>"

definition idle_ports :: ports where
  "idle_ports = \<lparr>po_com1 = idle_uart, po_com2 = idle_uart, po_pic1 = 0, po_pic2 = 0, po_reads = 0\<rparr>"

text \<open>A line status that is busy at every other read.\<close>

definition slow_lsr :: "u16 \<Rightarrow> nat \<Rightarrow> u8" where
  "slow_lsr port n = (if even n then 0 else 0x60)"

lemma slow_lsr_prompt: "prompt 2 slow_lsr port"
proof -
  have "(if even n then 1 else 0) < (2 :: nat) \<and>
      slow_lsr (port + 5) (n + (if even n then 1 else 0)) AND 0x20 \<noteq> 0" for n
    by (simp add: slow_lsr_def)
  then show ?thesis unfolding prompt_def by blast
qed

theorem kerr_reaches_port_witness:
  "\<exists>s' t'. kerr 10 sample_format sample_args sample_io = Inr (s', 15) \<and>
     platform_emit_all 2 slow_lsr sample_text (console_init idle_ports) = Inr t' \<and> ua_sent (po_com1 t') = sample_text"
proof -
  have io: "io_com1 sample_io = ua_sent (po_com1 idle_ports)"
    by (simp add: sample_io_def quiet_io_def idle_ports_def idle_uart_def)
  have "length sample_text < 2 ^ 31" by (simp add: sample_text_def)
  from kerr_reaches_port [OF sample_text_eq sample_readable this slow_lsr_prompt io] show ?thesis by (auto simp: sample_text_def idle_ports_def idle_uart_def)
qed

text \<open>
  C27. From ports whose divisor latch is closed, \<open>console_init\<close> programs both serial ports to 8 data
  bits, no parity, one stop bit and divisor 3, with the divisor latch closed again and interrupts
  off, and sends nothing. When both transmitters get ready within \<open>d\<close> reads of the line status, a
  string in memory is then sent completely and unchanged, by \<open>console_puts\<close> on the first port and by
  \<open>console_log\<close> on the second, the other port sends nothing, and the programming of both ports is
  intact afterwards. \<open>platform::init\<close> masks all interrupt lines. The loader's copies of these
  functions behave in the same way. (With the latch open at the start, the first write of
  \<open>console_init\<close>, meant for the interrupt enable register, goes to the divisor.)
\<close>

theorem console_sends_string:
  assumes "\<not> dlab (po_com1 s)" and "\<not> dlab (po_com2 s)" and "prompt d lsr COM1" and "prompt d lsr COM2"
    and "stored m p cs" and "length cs < fuel"
  shows "uart_ready (po_com1 (console_init s)) \<and> uart_ready (po_com2 (console_init s)) \<and>
    (\<exists>t. platform_puts fuel d lsr m p (console_init s) = Inr t \<and> ua_sent (po_com1 t) = ua_sent (po_com1 s) @ cs \<and>
       ua_sent (po_com2 t) = ua_sent (po_com2 s) \<and> uart_ready (po_com1 t) \<and> uart_ready (po_com2 t) \<and>
       po_pic1 (platform_init t) = 0xFF \<and> po_pic2 (platform_init t) = 0xFF) \<and>
    (\<exists>t. console_log fuel d lsr m p (console_init s) = Inr t \<and> ua_sent (po_com2 t) = ua_sent (po_com2 s) @ cs \<and>
       ua_sent (po_com1 t) = ua_sent (po_com1 s) \<and> uart_ready (po_com1 t) \<and> uart_ready (po_com2 t)) \<and>
    loader_console_init COM2 (loader_console_init COM1 s) = console_init s \<and>
    loader_console_puts fuel d lsr m p = platform_puts fuel d lsr m p \<and>
    loader_console_log fuel d lsr m p = console_log fuel d lsr m p"
proof -
  have init: "console_init s = s\<lparr>po_com1 := uart_programmed (po_com1 s), po_com2 := uart_programmed (po_com2 s)\<rparr>"
    by (simp add: console_init_def console_init_port_eq)
  have ready: "uart_ready (uart_programmed (po_com1 s))" "uart_ready (uart_programmed (po_com2 s))"
    using assms(1,2) by (simp_all add: uart_programmed_ready)
  have lab: "\<not> dlab (po_com1 (console_init s))" "\<not> dlab (po_com2 (console_init s))"
    using ready by (simp_all add: init uart_ready_def)
  have pic: "po_pic1 (platform_init t) = 0xFF \<and> po_pic2 (platform_init t) = 0xFF" for t
    by (simp add: platform_init_def outb_def COM1_def COM2_def)
  have "loader_console_puts fuel d lsr m p = platform_puts fuel d lsr m p"
    "loader_console_log fuel d lsr m p = console_log fuel d lsr m p"
    "loader_console_init COM2 (loader_console_init COM1 s) = console_init s"
    by (simp_all add: fun_eq_iff loader_console_same console_init_def)
  then show ?thesis
    using platform_puts_ok [OF assms(3) lab(1) assms(5,6)] console_log_ok [OF assms(4) lab(2) assms(5,6)] ready pic
    by (auto simp: init uart_programmed_sent uart_ready_sent)
qed

theorem console_sends_string_witness:
  "\<exists>t. platform_puts 5 2 slow_lsr (io_mem sample_io) 0x1000 (console_init idle_ports) = Inr t \<and>
     ua_sent (po_com1 t) = [112, 109, 108, 52]"
proof -
  have "\<not> dlab (po_com1 idle_ports)" "\<not> dlab (po_com2 idle_ports)"
    by (simp_all add: idle_ports_def idle_uart_def dlab_def)
  moreover have "stored (io_mem sample_io) 0x1000 [112, 109, 108, 52]"
    by (simp add: stored_Cons stored_Nil sample_io_def)
  moreover have "length [112, 109, 108, 52 :: u8] < 5" by simp
  ultimately show ?thesis
    using console_sends_string [OF _ _ slow_lsr_prompt slow_lsr_prompt, of idle_ports "io_mem sample_io" "0x1000" "[112, 109, 108, 52]" 5]
    by (auto simp: idle_ports_def idle_uart_def)
qed

end
