(* ===== verification/Core_Boot.thy ===== *)
theory Core_Boot
  imports Loader_Boot Arch_Init Platform_Console Core_Thread
begin

text \<open>
  The whole of \<open>kernel_entry\<close> in \<open>core/main.cc\<close>: the static constructors, the console, the checks of
  \<open>Core_Main\<close>, \<open>arch::init\<close>, \<open>platform::init\<close>, and the breakpoint at the end, which no handler takes. The
  state is that of its parts; the text of the console is in the output state of the interrupt
  code, the programming of the ports in \<open>kn_ports\<close>. The constructors of \<open>.init_array\<close> are a parameter,
  as are the addresses of the static objects and the registers at the breakpoint.
\<close>

section \<open>State and operations\<close>

record kernel =
  kn_sys :: arch_sys
  kn_ports :: ports
  kn_pmm :: pmm
  kn_cpu :: cpu

definition kn_io :: "kernel \<Rightarrow> io" where
  "kn_io s = ir_io (ar_irq (kn_sys s))"








section \<open>The parts together\<close>

lemma kn_io_ports [simp]: "kn_io (s\<lparr>kn_ports := x\<rparr>) = kn_io s"
  by (simp add: kn_io_def)





section \<open>Properties\<close>





end
