(* ===== verification/Arch_Switch.thy ===== *)
theory Arch_Switch
  imports Arch_Interrupts
begin

text \<open>
  The parts of \<open>arch/x86-64\<close> written in assembly that move registers: the body of \<open>switch_thread\<close>
  (\<open>thread.cc\<close>) and the interrupt stubs (\<open>entry.asm\<close>), as lists of instructions on a processor
  state. The memory is that of 64-bit words by their address; all accesses are pushes, pops and
  stores of words whose addresses differ by multiples of 8. \<open>deliver\<close> is what the processor does
  when it enters an interrupt gate in 64-bit mode without a change of privilege level. The stubs end
  with a plain \<open>iret\<close>: assembled for 64-bit mode it has a 32-bit operand size and takes five 4-byte
  values from the stack, where the processor has pushed five of 8 bytes.
\<close>

section \<open>The processor\<close>

datatype reg = RAX | RBX | RCX | RDX | RSI | RDI | RBP | RSP | R8 | R9 | R10 | R11 | R12 | R13 | R14 | R15

record xcpu =
  x_reg :: "reg \<Rightarrow> u64"
  x_rip :: u64
  x_cs :: u64
  x_ss :: u64
  x_flags :: u64
  x_mem :: "u64 \<Rightarrow> u64"

datatype insn =
    Push reg
  | PushImm u64
  | Pushf
  | Pop reg
  | Popf
  | Store reg reg
  | Mov reg reg
  | AddImm reg u64
  | Cli
  | Cld

definition push :: "u64 \<Rightarrow> xcpu \<Rightarrow> xcpu" where
  "push v s = (let sp = x_reg s RSP - 8 in s\<lparr>x_reg := (x_reg s)(RSP := sp), x_mem := (x_mem s)(sp := v)\<rparr>)"

definition pop :: "xcpu \<Rightarrow> u64 \<times> xcpu" where
  "pop s = (x_mem s (x_reg s RSP), s\<lparr>x_reg := (x_reg s)(RSP := x_reg s RSP + 8)\<rparr>)"

fun insn_exec :: "insn \<Rightarrow> xcpu \<Rightarrow> xcpu" where
  "insn_exec (Push r) s = push (x_reg s r) s"
| "insn_exec (PushImm v) s = push v s"
| "insn_exec Pushf s = push (x_flags s) s"
| "insn_exec (Pop r) s = (let (v, s) = pop s in s\<lparr>x_reg := (x_reg s)(r := v)\<rparr>)"
| "insn_exec Popf s = (let (v, s) = pop s in s\<lparr>x_flags := v\<rparr>)"
| "insn_exec (Store base src) s = s\<lparr>x_mem := (x_mem s)(x_reg s base := x_reg s src)\<rparr>"
| "insn_exec (Mov dst src) s = s\<lparr>x_reg := (x_reg s)(dst := x_reg s src)\<rparr>"
| "insn_exec (AddImm r v) s = s\<lparr>x_reg := (x_reg s)(r := x_reg s r + v)\<rparr>"
| "insn_exec Cli s = s\<lparr>x_flags := x_flags s AND NOT 0x200\<rparr>"
| "insn_exec Cld s = s\<lparr>x_flags := x_flags s AND NOT 0x400\<rparr>"

definition run :: "insn list \<Rightarrow> xcpu \<Rightarrow> xcpu" where
  "run code s = fold insn_exec code s"

lemma run_simps [simp]:
  "run [] s = s" "run (i # code) s = run code (insn_exec i s)" "run (a @ b) s = run b (run a s)"
  by (simp_all add: run_def)

section \<open>The code\<close>

text \<open>The registers \<open>switch_thread\<close> saves, in the order of its pushes; \<open>r0\<close> and \<open>r1\<close> hold its operands.\<close>

definition callee_saved :: "reg list" where
  "callee_saved = [RBX, RBP, R12, R13, R14, R15]"

definition switch_code :: "reg \<Rightarrow> reg \<Rightarrow> insn list" where
  "switch_code r0 r1 =
     [Pushf, Push RBX, Push RBP, Push R12, Push R13, Push R14, Push R15, Store r0 RSP, Mov RSP r1,
      Pop R15, Pop R14, Pop R13, Pop R12, Pop RBP, Pop RBX, Popf]"

text \<open>The assembly with the values of its two operands, and \<open>switch_thread\<close> with the operands it passes.\<close>

definition switch_registers :: "reg \<Rightarrow> reg \<Rightarrow> vaddr_t \<Rightarrow> vaddr_t \<Rightarrow> xcpu \<Rightarrow> xcpu" where
  "switch_registers r0 r1 p0 p1 s = run (switch_code r0 r1) (s\<lparr>x_reg := (x_reg s)(r0 := p0, r1 := p1)\<rparr>)"

text \<open>
  The operands are \<open>&oldthread->backend.sp\<close> and \<open>&newthread->backend.sp\<close>; \<open>off\<close> is the offset of
  \<open>backend.sp\<close> in \<open>core::Thread\<close>. \<open>backend\<close> is the last member and has only the member \<open>sp\<close> of 8 bytes,
  so that the structure ends at \<open>off + 8\<close>.
\<close>

definition switch_thread_asm :: "reg \<Rightarrow> reg \<Rightarrow> u64 \<Rightarrow> vaddr_t \<Rightarrow> vaddr_t \<Rightarrow> xcpu \<Rightarrow> xcpu" where
  "switch_thread_asm r0 r1 off oldthread newthread s = switch_registers r0 r1 (oldthread + off) (newthread + off) s"

definition thread_end :: "u64 \<Rightarrow> vaddr_t \<Rightarrow> vaddr_t" where
  "thread_end off thread = thread + off + 8"

definition stub_pushes_no_code :: "nat \<Rightarrow> bool" where
  "stub_pushes_no_code i \<longleftrightarrow> i = 8 \<or> (10 \<le> i \<and> i \<le> 14) \<or> i = 17 \<or> i = 20 \<or> i = 30"

definition isr_stub :: "nat \<Rightarrow> insn list" where
  "isr_stub i =
     Cli # (if stub_pushes_no_code i then [PushImm (of_nat i)] else [PushImm 0, PushImm (of_nat i)])"

definition saved_regs :: "reg list" where
  "saved_regs = [R15, R14, R13, R12, R11, R10, R9, R8, RAX, RCX, RDX, RBX, RBP, RSI, RDI]"

definition irq_stub_enter :: "insn list" where
  "irq_stub_enter = Cld # map Push saved_regs @ [Mov RDI RSP]"

definition irq_stub_leave :: "insn list" where
  "irq_stub_leave = map Pop (rev saved_regs) @ [AddImm RSP 16]"

text \<open>The processor: entry through the gate of vector \<open>i\<close>, and \<open>iret\<close>.\<close>

definition cpu_pushes_code :: "nat \<Rightarrow> bool" where
  "cpu_pushes_code i \<longleftrightarrow> i \<in> {8, 10, 11, 12, 13, 14, 17, 21, 29, 30}"

definition deliver :: "nat \<Rightarrow> u64 \<Rightarrow> u64 \<Rightarrow> xcpu \<Rightarrow> xcpu" where
  "deliver i code gate s =
     (let t = s\<lparr>x_reg := (x_reg s)(RSP := x_reg s RSP AND NOT 15)\<rparr>;
          t = push (x_rip s) (push (x_cs s) (push (x_flags s) (push (x_reg s RSP) (push (x_ss s) t))));
          t = (if cpu_pushes_code i then push code t else t)
      in t\<lparr>x_rip := gate, x_flags := x_flags t AND NOT 0x200\<rparr>)"

text \<open>
  A code segment and a stack segment that can be loaded from the descriptor table: \<open>iret\<close> raises
  a general protection fault for a null code segment selector, for one outside the table and for a
  descriptor of the wrong kind (there is no local table); the null selector is a valid stack
  segment in 64-bit mode.
\<close>

definition table_index :: "u64 \<Rightarrow> nat" where
  "table_index sel = unat (drop_bit 3 (take_bit 16 sel))"

definition code_selector :: "gdt_entry list \<Rightarrow> u64 \<Rightarrow> bool" where
  "code_selector gdt sel \<longleftrightarrow>
     \<not> bit sel 2 \<and> 0 < table_index sel \<and> table_index sel < length gdt \<and>
     (let d = gdt_word (gdt ! table_index sel) in bit d 43 \<and> bit d 44 \<and> bit d 47)"

definition stack_selector :: "gdt_entry list \<Rightarrow> u64 \<Rightarrow> bool" where
  "stack_selector gdt sel \<longleftrightarrow>
     \<not> bit sel 2 \<and>
     (table_index sel = 0 \<or>
      table_index sel < length gdt \<and>
      (let d = gdt_word (gdt ! table_index sel) in bit d 41 \<and> \<not> bit d 43 \<and> bit d 44 \<and> bit d 47))"

text \<open>
  \<open>iret\<close> with a 32-bit operand size in 64-bit mode: \<open>eip\<close>, \<open>cs\<close>, \<open>eflags\<close>, \<open>esp\<close> and \<open>ss\<close>, 4 bytes
  each, from the stack upwards. \<open>None\<close> is the general protection fault.
\<close>

definition iret :: "gdt_entry list \<Rightarrow> xcpu \<Rightarrow> xcpu option" where
  "iret gdt s =
     (let p = x_reg s RSP; m = x_mem s;
          eip = take_bit 32 (m p); cs = drop_bit 32 (m p);
          eflags = take_bit 32 (m (p + 8)); esp = drop_bit 32 (m (p + 8));
          ss = take_bit 32 (m (p + 16))
      in if code_selector gdt cs \<and> stack_selector gdt ss
         then Some (s\<lparr>x_rip := eip, x_cs := take_bit 16 cs, x_flags := eflags, x_reg := (x_reg s)(RSP := esp),
                      x_ss := take_bit 16 ss\<rparr>)
         else None)"

text \<open>The object \<open>int_frame\<close> at an address.\<close>

definition read_frame :: "(u64 \<Rightarrow> u64) \<Rightarrow> vaddr_t \<Rightarrow> int_frame" where
  "read_frame m p = \<lparr>fr_rdi = m p, fr_rsi = m (p + 8), fr_rbp = m (p + 16), fr_rbx = m (p + 24), fr_rdx = m (p + 32),
     fr_rcx = m (p + 40), fr_rax = m (p + 48), fr_r8 = m (p + 56), fr_r9 = m (p + 64), fr_r10 = m (p + 72),
     fr_r11 = m (p + 80), fr_r12 = m (p + 88), fr_r13 = m (p + 96), fr_r14 = m (p + 104), fr_r15 = m (p + 112),
     fr_vector = m (p + 120), fr_err_code = m (p + 128), fr_rip = m (p + 136), fr_cs = m (p + 144),
     fr_flags = m (p + 152), fr_user_sp = m (p + 160), fr_user_ss = m (p + 168)\<rparr>"

text \<open>The state before \<open>isr_handler\<close> is called, and the way back after it has returned.\<close>

definition isr_enter :: "nat \<Rightarrow> u64 \<Rightarrow> u64 \<Rightarrow> xcpu \<Rightarrow> xcpu" where
  "isr_enter i code gate s = run (isr_stub i @ irq_stub_enter) (deliver i code gate s)"

definition isr_leave :: "gdt_entry list \<Rightarrow> xcpu \<Rightarrow> xcpu option" where
  "isr_leave gdt s = iret gdt (run irq_stub_leave s)"

section \<open>The stack\<close>

text \<open>The words from an address on.\<close>

definition stacked :: "(u64 \<Rightarrow> u64) \<Rightarrow> u64 \<Rightarrow> u64 list \<Rightarrow> bool" where
  "stacked m p vs \<longleftrightarrow> (\<forall>i < length vs. m (p + 8 * of_nat i) = vs ! i)"

lemma stacked_Cons: "stacked m p (v # vs) \<longleftrightarrow> m p = v \<and> stacked m (p + 8) vs"
  unfolding stacked_def by (simp add: All_less_Suc2 algebra_simps)

lemma stacked_Nil [simp]: "stacked m p []"
  by (simp add: stacked_def)

lemma slot_differs:
  assumes "0 < k" and "k < 2 ^ 32"
  shows "(p :: u64) - 8 + 8 * of_nat k \<noteq> p - 8"
proof
  assume "p - 8 + 8 * of_nat k = p - 8"
  then have "(of_nat (8 * k) :: u64) = 0" by simp
  then have "unat (of_nat (8 * k) :: u64) = 0" by (simp only: unat_0)
  moreover have "unat (of_nat (8 * k) :: u64) = 8 * k"
    using assms(2) by (subst unat_of_nat) (simp add: take_bit_nat_eq_self)
  ultimately show False using assms(1) by simp
qed

lemma stacked_push:
  assumes "stacked (x_mem s) (x_reg s RSP) vs" and "length vs < 2 ^ 31"
  shows "stacked (x_mem (push v s)) (x_reg (push v s) RSP) (v # vs)"
proof -
  have "x_reg s RSP + 8 * of_nat i \<noteq> x_reg s RSP - 8" if "i < length vs" for i
    using slot_differs [of "Suc i" "x_reg s RSP"] that assms(2) by (simp add: algebra_simps)
  then show ?thesis using assms(1) by (simp add: push_def stacked_Cons Let_def) (simp add: stacked_def)
qed
lemma push_reg: "x_reg (push v s) = (x_reg s)(RSP := x_reg s RSP - 8)"
  by (simp add: push_def Let_def)

lemma push_fields [simp]:
  "x_reg (push v s) RSP = x_reg s RSP - 8" "r \<noteq> RSP \<Longrightarrow> x_reg (push v s) r = x_reg s r" "x_flags (push v s) = x_flags s" "x_rip (push v s) = x_rip s"
  "x_cs (push v s) = x_cs s" "x_ss (push v s) = x_ss s"
  by (simp_all add: push_def Let_def)

lemma run_push:
  assumes "RSP \<notin> set rs" and "stacked (x_mem s) (x_reg s RSP) vs" and "length vs + length rs < 2 ^ 31"
  shows "stacked (x_mem (run (map Push rs) s)) (x_reg s RSP - 8 * of_nat (length rs)) (rev (map (x_reg s) rs) @ vs) \<and>
    x_reg (run (map Push rs) s) = (x_reg s)(RSP := x_reg s RSP - 8 * of_nat (length rs)) \<and>
    x_flags (run (map Push rs) s) = x_flags s"
  using assms
proof (induction rs arbitrary: s vs)
  case (Cons r rs)
  let ?s = "push (x_reg s r) s"
  have same: "map (x_reg ?s) rs = map (x_reg s) rs" using Cons.prems(1) by (auto simp: push_reg)
  have sp: "x_reg ?s RSP - 8 * of_nat (length rs) = x_reg s RSP - 8 * of_nat (length (r # rs))"
    by (simp add: algebra_simps)
  have "stacked (x_mem ?s) (x_reg ?s RSP) (x_reg s r # vs)"
    using stacked_push [OF Cons.prems(2)] Cons.prems(3) by simp
  from Cons.IH [OF _ this] Cons.prems
  have "stacked (x_mem (run (map Push rs) ?s)) (x_reg ?s RSP - 8 * of_nat (length rs))
      (rev (map (x_reg ?s) rs) @ x_reg s r # vs)"
    "x_reg (run (map Push rs) ?s) = (x_reg ?s)(RSP := x_reg ?s RSP - 8 * of_nat (length rs))"
    "x_flags (run (map Push rs) ?s) = x_flags ?s"
    by auto
  then show ?case unfolding same sp by (simp add: push_reg [of _ s] del: of_nat_Suc)
qed simp

lemma run_push_mem:
  assumes "RSP \<notin> set rs" and "\<forall>k \<in> {1..length rs}. a \<noteq> x_reg s RSP - 8 * of_nat k"
  shows "x_mem (run (map Push rs) s) a = x_mem s a"
  using assms
proof (induction rs arbitrary: s)
  case (Cons r rs)
  let ?s = "push (x_reg s r) s"
  have "a \<noteq> x_reg s RSP - 8" using Cons.prems(2) by (auto dest: bspec [of _ _ 1])
  then have "x_mem ?s a = x_mem s a" by (simp add: push_def Let_def)
  moreover have "x_mem (run (map Push rs) ?s) a = x_mem ?s a"
  proof (rule Cons.IH)
    show "\<forall>k \<in> {1..length rs}. a \<noteq> x_reg ?s RSP - 8 * of_nat k"
    proof
      fix k
      assume "k \<in> {1..length rs}"
      then have "a \<noteq> x_reg s RSP - 8 * of_nat (Suc k)" using Cons.prems(2) by (auto dest: bspec [of _ _ "Suc k"])
      then show "a \<noteq> x_reg ?s RSP - 8 * of_nat k" by (simp add: algebra_simps)
    qed
  qed (use Cons.prems(1) in simp)
  ultimately show ?case by simp
qed simp

lemma run_pop:
  assumes "RSP \<notin> set rs" and "distinct rs" and "length vs = length rs" and "stacked (x_mem s) (x_reg s RSP) vs"
  shows "run (map Pop rs) s =
    s\<lparr>x_reg := \<lambda>r. case map_of (zip rs vs) r of Some v \<Rightarrow> v
       | None \<Rightarrow> if r = RSP then x_reg s RSP + 8 * of_nat (length rs) else x_reg s r\<rparr>"
  using assms
proof (induction rs arbitrary: s vs)
  case Nil
  then show ?case by (simp add: fun_eq_iff if_distrib cong: if_cong)
next
  case (Cons q rs)
  then obtain v ws where vs: "vs = v # ws" by (cases vs) auto
  let ?s = "s\<lparr>x_reg := (x_reg s)(RSP := x_reg s RSP + 8, q := v)\<rparr>"
  have st: "x_mem s (x_reg s RSP) = v" "stacked (x_mem s) (x_reg s RSP + 8) ws"
    using Cons.prems(4) by (simp_all add: vs stacked_Cons)
  have "run (map Pop (q # rs)) s = run (map Pop rs) ?s" using st(1) by (simp add: pop_def)
  also have "\<dots> = ?s\<lparr>x_reg := \<lambda>r. case map_of (zip rs ws) r of Some v \<Rightarrow> v
       | None \<Rightarrow> if r = RSP then x_reg ?s RSP + 8 * of_nat (length rs) else x_reg ?s r\<rparr>"
    by (rule Cons.IH) (use Cons.prems st(2) in \<open>auto simp: vs\<close>)
  also have "\<dots> = s\<lparr>x_reg := \<lambda>r. case map_of (zip (q # rs) vs) r of Some v \<Rightarrow> v
       | None \<Rightarrow> if r = RSP then x_reg s RSP + 8 * of_nat (length (q # rs)) else x_reg s r\<rparr>"
  proof -
    have "map_of (zip rs ws) q = None" using Cons.prems(2,3) by (simp add: vs map_of_zip_is_None)
    then show ?thesis using Cons.prems(1) by (auto simp: vs fun_eq_iff algebra_simps split: option.splits)
  qed
  finally show ?case .
qed
section \<open>Interrupts\<close>

text \<open>The registers of a state as an interrupt frame, and the registers a frame holds.\<close>

definition frame_of :: "nat \<Rightarrow> u64 \<Rightarrow> xcpu \<Rightarrow> int_frame" where
  "frame_of i code s = \<lparr>fr_rdi = x_reg s RDI, fr_rsi = x_reg s RSI, fr_rbp = x_reg s RBP, fr_rbx = x_reg s RBX,
     fr_rdx = x_reg s RDX, fr_rcx = x_reg s RCX, fr_rax = x_reg s RAX, fr_r8 = x_reg s R8, fr_r9 = x_reg s R9,
     fr_r10 = x_reg s R10, fr_r11 = x_reg s R11, fr_r12 = x_reg s R12, fr_r13 = x_reg s R13, fr_r14 = x_reg s R14,
     fr_r15 = x_reg s R15, fr_vector = of_nat i, fr_err_code = (if cpu_pushes_code i then code else 0),
     fr_rip = x_rip s, fr_cs = x_cs s, fr_flags = x_flags s, fr_user_sp = x_reg s RSP, fr_user_ss = x_ss s\<rparr>"

fun frame_reg :: "int_frame \<Rightarrow> reg \<Rightarrow> u64" where
  "frame_reg f RAX = fr_rax f" | "frame_reg f RBX = fr_rbx f" | "frame_reg f RCX = fr_rcx f"
| "frame_reg f RDX = fr_rdx f" | "frame_reg f RSI = fr_rsi f" | "frame_reg f RDI = fr_rdi f"
| "frame_reg f RBP = fr_rbp f" | "frame_reg f RSP = fr_user_sp f" | "frame_reg f R8 = fr_r8 f"
| "frame_reg f R9 = fr_r9 f" | "frame_reg f R10 = fr_r10 f" | "frame_reg f R11 = fr_r11 f"
| "frame_reg f R12 = fr_r12 f" | "frame_reg f R13 = fr_r13 f" | "frame_reg f R14 = fr_r14 f"
| "frame_reg f R15 = fr_r15 f"

text \<open>The words the processor and the stub of a vector leave on the stack, up to the vector.\<close>

lemma deliver_stack:
  "stacked (x_mem (deliver i code gate s)) (x_reg (deliver i code gate s) RSP)
     ((if cpu_pushes_code i then [code] else []) @ [x_rip s, x_cs s, x_flags s, x_reg s RSP, x_ss s])"
  "r \<noteq> RSP \<Longrightarrow> x_reg (deliver i code gate s) r = x_reg s r"
proof -
  let ?t = "s\<lparr>x_reg := (x_reg s)(RSP := x_reg s RSP AND NOT 15)\<rparr>"
  let ?p = "push (x_rip s) (push (x_cs s) (push (x_flags s) (push (x_reg s RSP) (push (x_ss s) ?t))))"
  have st: "stacked (x_mem ?p) (x_reg ?p RSP) [x_rip s, x_cs s, x_flags s, x_reg s RSP, x_ss s]"
    by (intro stacked_push) simp_all
  show "stacked (x_mem (deliver i code gate s)) (x_reg (deliver i code gate s) RSP)
     ((if cpu_pushes_code i then [code] else []) @ [x_rip s, x_cs s, x_flags s, x_reg s RSP, x_ss s])"
    using st stacked_push [OF st, of code] unfolding deliver_def Let_def by simp
  show "x_reg (deliver i code gate s) r = x_reg s r" if "r \<noteq> RSP"
    using that by (simp add: deliver_def Let_def)
qed

lemma stub_stack:
  assumes "stacked (x_mem s) (x_reg s RSP) vs" and "length vs < 100"
  shows "stacked (x_mem (run (isr_stub i) s)) (x_reg (run (isr_stub i) s) RSP)
      ((if stub_pushes_no_code i then [of_nat i] else [of_nat i, 0]) @ vs)"
    and "r \<noteq> RSP \<Longrightarrow> x_reg (run (isr_stub i) s) r = x_reg s r"
proof -
  let ?s = "insn_exec Cli s"
  have st: "stacked (x_mem ?s) (x_reg ?s RSP) vs" using assms(1) by simp
  then show "stacked (x_mem (run (isr_stub i) s)) (x_reg (run (isr_stub i) s) RSP)
      ((if stub_pushes_no_code i then [of_nat i] else [of_nat i, 0]) @ vs)"
    using stacked_push [OF st, of "of_nat i"] stacked_push [OF stacked_push [OF st, of 0], of "of_nat i"] assms(2)
    by (simp add: isr_stub_def)
  show "x_reg (run (isr_stub i) s) r = x_reg s r" if "r \<noteq> RSP" using that by (simp add: isr_stub_def)
qed

lemma isr_enter_stack:
  defines "head \<equiv> \<lambda>i. (if stub_pushes_no_code i then [of_nat i] else [of_nat i, 0])"
  shows "stacked (x_mem (isr_enter i code gate s)) (x_reg (isr_enter i code gate s) RSP)
    (rev (map (x_reg s) saved_regs) @ head i @
     (if cpu_pushes_code i then [code] else []) @ [x_rip s, x_cs s, x_flags s, x_reg s RSP, x_ss s])"
    and "x_reg (isr_enter i code gate s) RDI = x_reg (isr_enter i code gate s) RSP"
proof -
  let ?d = "deliver i code gate s" and ?tail = "(if cpu_pushes_code i then [code] else []) @ [x_rip s, x_cs s, x_flags s, x_reg s RSP, x_ss s]"
  define f where "f = insn_exec Cld (run (isr_stub i) ?d)"
  have st: "stacked (x_mem f) (x_reg f RSP) (head i @ ?tail)"
    using stub_stack(1) [OF deliver_stack(1) [where i = i and code = code and gate = gate and s = s], of i]
    by (simp add: head_def f_def)
  have regs: "map (x_reg f) saved_regs = map (x_reg s) saved_regs"
    by (simp add: saved_regs_def f_def stub_stack(2) [OF deliver_stack(1)] deliver_stack(2))
  have no: "RSP \<notin> set saved_regs" and len: "length (head i @ ?tail) + length saved_regs < 2 ^ 31"
    by (simp_all add: head_def saved_regs_def)
  note p = run_push [OF no st len]
  then have "x_reg (run (map Push saved_regs) f) RSP = x_reg f RSP - 8 * of_nat (length saved_regs)"
    by simp
  with p have *: "stacked (x_mem (run (map Push saved_regs) f)) (x_reg (run (map Push saved_regs) f) RSP)
      (rev (map (x_reg s) saved_regs) @ head i @ ?tail)"
    unfolding regs by (simp only:)
  have e: "isr_enter i code gate s = insn_exec (Mov RDI RSP) (run (map Push saved_regs) f)"
    by (simp add: isr_enter_def irq_stub_enter_def f_def)
  show "stacked (x_mem (isr_enter i code gate s)) (x_reg (isr_enter i code gate s) RSP)
    (rev (map (x_reg s) saved_regs) @ head i @ ?tail)"
    using * unfolding e by simp
  show "x_reg (isr_enter i code gate s) RDI = x_reg (isr_enter i code gate s) RSP"
    unfolding e by simp
qed
lemma read_frame_stacked:
  "stacked m p [rdi, rsi, rbp, rbx, rdx, rcx, rax, r8, r9, r10, r11, r12, r13, r14, r15, vec, err, rip, cs, fl, sp, ss] \<longleftrightarrow>
    read_frame m p = \<lparr>fr_rdi = rdi, fr_rsi = rsi, fr_rbp = rbp, fr_rbx = rbx, fr_rdx = rdx, fr_rcx = rcx, fr_rax = rax,
      fr_r8 = r8, fr_r9 = r9, fr_r10 = r10, fr_r11 = r11, fr_r12 = r12, fr_r13 = r13, fr_r14 = r14, fr_r15 = r15,
      fr_vector = vec, fr_err_code = err, fr_rip = rip, fr_cs = cs, fr_flags = fl, fr_user_sp = sp, fr_user_ss = ss\<rparr>"
  by (simp add: stacked_Cons read_frame_def add.assoc)

lemma isr_enter_frame:
  assumes "cpu_pushes_code i = stub_pushes_no_code i"
  shows "read_frame (x_mem (isr_enter i code gate s)) (x_reg (isr_enter i code gate s) RSP) = frame_of i code s"
proof -
  have "stacked (x_mem (isr_enter i code gate s)) (x_reg (isr_enter i code gate s) RSP)
    (map (x_reg s) [RDI, RSI, RBP, RBX, RDX, RCX, RAX, R8, R9, R10, R11, R12, R13, R14, R15] @
     [of_nat i, if cpu_pushes_code i then code else 0, x_rip s, x_cs s, x_flags s, x_reg s RSP, x_ss s])"
    using isr_enter_stack(1) [of i code gate s] assms by (simp add: saved_regs_def split: if_splits)
  then show ?thesis unfolding frame_of_def by (simp only: list.map append.simps read_frame_stacked)
qed

lemma stub_leave_frame:
  defines "f \<equiv> \<lambda>u. read_frame (x_mem u) (x_reg u RSP)"
  shows "x_mem (run irq_stub_leave u) = x_mem u" and "x_reg (run irq_stub_leave u) RSP = x_reg u RSP + 136"
    and "r \<noteq> RSP \<Longrightarrow> x_reg (run irq_stub_leave u) r = frame_reg (f u) r"
proof -
  let ?m = "x_mem u" and ?p = "x_reg u RSP"
  let ?vs = "map (\<lambda>k. ?m (?p + 8 * of_nat k)) [0..<15]"
  have "stacked ?m ?p ?vs" by (simp add: stacked_def)
  moreover have "length ?vs = length (rev saved_regs)" "distinct (rev saved_regs)" "RSP \<notin> set (rev saved_regs)"
    by (simp_all add: saved_regs_def)
  moreover define R where "R = (\<lambda>r. case map_of (zip (rev saved_regs) ?vs) r of Some v \<Rightarrow> v
      | None \<Rightarrow> if r = RSP then ?p + 8 * of_nat (length (rev saved_regs)) else x_reg u r)"
  ultimately have pops: "run (map Pop (rev saved_regs)) u = u\<lparr>x_reg := R\<rparr>"
    unfolding R_def by (intro run_pop)
  have sp: "R RSP = ?p + 120" by (simp add: R_def saved_regs_def upt_rec)
  show "x_mem (run irq_stub_leave u) = x_mem u" "x_reg (run irq_stub_leave u) RSP = ?p + 136"
    by (simp_all add: irq_stub_leave_def pops sp)
  have "R r = frame_reg (f u) r" if "r \<noteq> RSP"
    using that by (cases r) (simp_all add: R_def f_def read_frame_def saved_regs_def upt_rec)
  then show "x_reg (run irq_stub_leave u) r = frame_reg (f u) r" if "r \<noteq> RSP"
    using that by (simp add: irq_stub_leave_def pops)
qed

text \<open>The selector \<open>iret\<close> takes for the code segment: the upper half of the saved instruction pointer.\<close>

lemma isr_leave_selector:
  assumes "\<not> code_selector gdt (drop_bit 32 (fr_rip (read_frame (x_mem u) (x_reg u RSP))))"
  shows "isr_leave gdt u = None"
  using assms by (simp add: isr_leave_def iret_def Let_def stub_leave_frame read_frame_def)

lemma high_code_not_selected:
  assumes "bit rip 47 \<or> rip < 0x100000000" and "length gdt \<le> 4096"
  shows "\<not> code_selector gdt (drop_bit 32 rip)"
proof -
  let ?i = "drop_bit 3 (take_bit 16 (drop_bit 32 rip))"
  have "table_index (drop_bit 32 rip) = 0 \<or> 4096 \<le> table_index (drop_bit 32 rip)"
    using assms(1)
  proof
    assume "bit rip 47"
    then have "bit ?i 12" by (simp add: bit_simps)
    then have "bit (table_index (drop_bit 32 rip)) 12" by (simp add: table_index_def bit_unsigned_iff)
    then have "table_index (drop_bit 32 rip) div 2 ^ 12 \<noteq> 0" by (auto simp: bit_iff_odd intro: odd_pos)
    then have "4096 \<le> table_index (drop_bit 32 rip)" by (simp add: div_eq_0_iff)
    then show ?thesis ..
  next
    assume "rip < 0x100000000"
    then have "rip < 2 ^ 32" by simp
    then have "drop_bit 32 rip = 0" by (simp add: drop_bit_eq_div word_less_nat_alt word_unat_eq_iff unat_div)
    then show ?thesis by (simp add: table_index_def)
  qed
  with assms(2) show ?thesis by (auto simp: code_selector_def)
qed

text \<open>
  C7. What an interrupt does to the interrupted code. Whatever the interrupted state, the
  processor's entry through the gate and the stub of the vector build on the stack exactly the
  \<open>int_frame\<close> that \<open>isr_handler\<close> reads: all general registers, the vector, the error code (0 where the
  processor pushes none) and the processor's own frame; the argument of \<open>isr_handler\<close> is its
  address. This is for all vectors but 20, 21 and 29, where the stubs and the processor disagree on
  the error code. After \<open>isr_handler\<close> has returned, with whatever in the registers it may change, the
  stub gives every general register the value the frame then has for it, leaves memory alone and
  points the stack pointer at the processor's frame. But the interrupted code is not resumed: the
  final \<open>iret\<close> has a 32-bit operand size and takes the upper half of the saved instruction pointer for
  the code segment, so that with the descriptor table of the loader it raises a general protection
  fault for every instruction pointer in the upper half of the address space, where the kernel
  runs, and for every one below 4 GiB.
\<close>

theorem interrupt_frame_exact:
  fixes s :: xcpu
  assumes "i \<notin> {20, 21, 29}"
  shows "let t = isr_enter i code gate s
    in x_reg t RDI = x_reg t RSP \<and> read_frame (x_mem t) (x_reg t RDI) = frame_of i code s \<and>
       (\<forall>u. x_reg u RSP = x_reg t RSP \<longrightarrow>
          (let v = run irq_stub_leave u; f = read_frame (x_mem u) (x_reg t RDI)
           in (\<forall>r. r \<noteq> RSP \<longrightarrow> x_reg v r = frame_reg f r) \<and> x_mem v = x_mem u \<and> x_reg v RSP = x_reg t RDI + 136 \<and>
              (bit (fr_rip f) 47 \<or> fr_rip f < 0x100000000 \<longrightarrow> isr_leave loader_gdt u = None)))"
proof -
  have agree: "cpu_pushes_code i = stub_pushes_no_code i"
    using assms by (auto simp: cpu_pushes_code_def stub_pushes_no_code_def)
  have "length loader_gdt \<le> 4096" by (simp add: loader_gdt_def)
  note fault = isr_leave_selector [OF high_code_not_selected [OF _ this]]
  show ?thesis
    using isr_enter_frame [OF agree] fault by (auto simp: Let_def isr_enter_stack(2) stub_leave_frame)
qed

definition sample_cpu :: xcpu where
  "sample_cpu = \<lparr>x_reg = (\<lambda>r. if r = RSP then 0x7FF8 else if r = RBX then 5 else 0), x_rip = 0xFFFF800000101234, x_cs = 8,
     x_ss = 16, x_flags = 0x202, x_mem = \<lambda>_. 0\<rparr>"

theorem interrupt_frame_exact_witness:
  "fr_rbx (read_frame (x_mem (isr_enter 14 2 0x4000 sample_cpu)) (x_reg (isr_enter 14 2 0x4000 sample_cpu) RSP)) = 5 \<and>
   isr_leave loader_gdt ((isr_enter 14 2 0x4000 sample_cpu)\<lparr>x_rip := 0x9999, x_flags := 6\<rparr>) = None"
proof -
  let ?t = "isr_enter 14 2 0x4000 sample_cpu"
  have high: "bit (fr_rip (frame_of 14 2 sample_cpu)) 47" by (simp add: frame_of_def sample_cpu_def)
  let ?u = "?t\<lparr>x_rip := 0x9999, x_flags := 6\<rparr>"
  have "14 \<notin> {20, 21, 29 :: nat}" by simp
  note fact = interrupt_frame_exact [OF this, of 2 "0x4000" sample_cpu, unfolded Let_def]
  then have f: "read_frame (x_mem ?t) (x_reg ?t RSP) = frame_of 14 2 sample_cpu" by (elim conjE) (simp only:)
  have "x_reg ?u RSP = x_reg ?t RSP" "x_mem ?u = x_mem ?t" by simp_all
  with fact have "bit (fr_rip (read_frame (x_mem ?t) (x_reg ?t RSP))) 47 \<longrightarrow> isr_leave loader_gdt ?u = None" by metis
  then have "isr_leave loader_gdt ?u = None" using high by (simp only: f)
  then show ?thesis by (simp add: f) (simp add: frame_of_def sample_cpu_def)
qed

text \<open>
  For vector 20 the stub takes the word the processor pushed last, the instruction pointer, for an
  error code.
\<close>

theorem stub_without_error_code:
  "fr_err_code (read_frame (x_mem (isr_enter 20 code gate s)) (x_reg (isr_enter 20 code gate s) RSP)) = x_rip s \<and>
   fr_rip (read_frame (x_mem (isr_enter 20 code gate s)) (x_reg (isr_enter 20 code gate s) RSP)) = x_cs s"
  using isr_enter_stack(1) [of 20 code gate s]
  by (simp add: saved_regs_def stub_pushes_no_code_def cpu_pushes_code_def stacked_Cons read_frame_def add.assoc)
section \<open>Thread switch\<close>

text \<open>What \<open>switch_thread\<close> keeps of a thread, in the order of the words on its stack.\<close>

definition switch_context :: "xcpu \<Rightarrow> u64 list" where
  "switch_context s = map (x_reg s) [R15, R14, R13, R12, RBP, RBX] @ [x_flags s]"

text \<open>The addresses of the words it pushes.\<close>

definition pushed_slots :: "xcpu \<Rightarrow> u64 set" where
  "pushed_slots s = (\<lambda>k. x_reg s RSP - 8 * of_nat k) ` {1..7}"

definition words_at :: "u64 \<Rightarrow> u64 set" where
  "words_at p = (\<lambda>k. p + 8 * of_nat k) ` {0..<7}"

lemma stacked_agree:
  assumes "length vs = 7" and "\<And>a. a \<in> words_at p \<Longrightarrow> m' a = m a"
  shows "stacked m' p vs \<longleftrightarrow> stacked m p vs"
  using assms by (simp add: stacked_def words_at_def)

definition switch_regs_ok :: "reg \<Rightarrow> reg \<Rightarrow> bool" where
  "switch_regs_ok r0 r1 \<longleftrightarrow> r0 \<noteq> r1 \<and> {r0, r1} \<inter> set (RSP # callee_saved) = {}"

lemma switch_pushes:
  defines "code \<equiv> Pushf # map Push callee_saved"
  shows "stacked (x_mem (run code s)) (x_reg s RSP - 56) (switch_context s)"
    and "x_reg (run code s) = (x_reg s)(RSP := x_reg s RSP - 56)"
    and "a \<notin> pushed_slots s \<Longrightarrow> x_mem (run code s) a = x_mem s a"
proof -
  let ?p = "push (x_flags s) s"
  have no: "RSP \<notin> set callee_saved" by (simp add: callee_saved_def)
  have st: "stacked (x_mem ?p) (x_reg ?p RSP) [x_flags s]" by (rule stacked_push) simp_all
  have len: "length [x_flags s] + length callee_saved < 2 ^ 31" by (simp add: callee_saved_def)
  have code: "run code s = run (map Push callee_saved) ?p" by (simp add: code_def)
  show "stacked (x_mem (run code s)) (x_reg s RSP - 56) (switch_context s)"
    using run_push [OF no st len] unfolding code by (simp add: callee_saved_def switch_context_def)
  show "x_reg (run code s) = (x_reg s)(RSP := x_reg s RSP - 56)"
    using run_push [OF no st len] unfolding code by (simp add: callee_saved_def push_reg)
  show "x_mem (run code s) a = x_mem s a" if "a \<notin> pushed_slots s"
  proof -
    have ne: "a \<noteq> x_reg s RSP - 8 * of_nat k" if "k \<in> {1..7}" for k
      using that \<open>a \<notin> pushed_slots s\<close> by (auto simp: pushed_slots_def)
    have "a \<noteq> x_reg ?p RSP - 8 * of_nat k" if "k \<in> {1..length callee_saved}" for k
      using ne [of "Suc k"] that by (simp add: callee_saved_def algebra_simps)
    then have "x_mem (run code s) a = x_mem ?p a" unfolding code using no by (intro run_push_mem) auto
    also have "\<dots> = x_mem s a" using ne [of 1] by (simp add: push_def Let_def)
    finally show ?thesis .
  qed
qed

lemma switch_effect:
  fixes new_sp :: vaddr_t
  assumes ok: "switch_regs_ok r0 r1" and slot: "old_sp \<notin> pushed_slots s"
  defines "t \<equiv> switch_registers r0 r1 old_sp new_sp s"
  shows "x_mem t old_sp = x_reg s RSP - 56" and "stacked (x_mem t) (x_reg s RSP - 56) (switch_context s)"
    and "a \<noteq> old_sp \<Longrightarrow> a \<notin> pushed_slots s \<Longrightarrow> x_mem t a = x_mem s a"
    and "x_reg t RSP = new_sp + 56" and "stacked (x_mem t) new_sp (switch_context t)"
proof -
  let ?s = "s\<lparr>x_reg := (x_reg s)(r0 := old_sp, r1 := new_sp)\<rparr>"
  define u where "u = run (Pushf # map Push callee_saved) ?s"
  have eq: "x_reg ?s RSP = x_reg s RSP" "switch_context ?s = switch_context s" "pushed_slots ?s = pushed_slots s" "x_mem ?s = x_mem s"
    using ok by (auto simp: switch_regs_ok_def callee_saved_def switch_context_def pushed_slots_def)
  have u1: "stacked (x_mem u) (x_reg s RSP - 56) (switch_context s)"
    unfolding u_def by (rule switch_pushes(1) [of ?s, unfolded eq])
  have u2: "x_reg u = (x_reg ?s)(RSP := x_reg s RSP - 56)"
    unfolding u_def by (rule switch_pushes(2) [of ?s, unfolded eq])
  have u3: "x_mem u a = x_mem s a" if "a \<notin> pushed_slots s" for a
    unfolding u_def eq(4) [symmetric] by (rule switch_pushes(3)) (use that eq(3) in blast)
  let ?m = "(x_mem u)(old_sp := x_reg s RSP - 56)"
  have ops: "x_reg u r0 = old_sp" "x_reg u RSP = x_reg s RSP - 56" "x_reg u r1 = new_sp"
    using ok unfolding u2 by (auto simp: switch_regs_ok_def)
  let ?pops = "[Pop R15, Pop R14, Pop R13, Pop R12, Pop RBP, Pop RBX, Popf]"
  have "switch_code r0 r1 = (Pushf # map Push callee_saved) @ [Store r0 RSP, Mov RSP r1] @ ?pops"
    by (simp add: switch_code_def callee_saved_def)
  then have "t = run ?pops (run [Store r0 RSP, Mov RSP r1] u)"
    unfolding t_def switch_registers_def u_def by (simp only: run_simps(3))
  also have "run [Store r0 RSP, Mov RSP r1] u = u\<lparr>x_reg := (x_reg u)(RSP := new_sp), x_mem := ?m\<rparr>"
    using ops by simp
  finally have "t = run ?pops (u\<lparr>x_reg := (x_reg u)(RSP := new_sp), x_mem := ?m\<rparr>)" .
  then have t: "x_mem t = ?m" "x_reg t RSP = new_sp + 56" "stacked ?m new_sp (switch_context t)"
    by (simp_all add: pop_def switch_context_def stacked_Cons add.assoc)
  then show "x_mem t old_sp = x_reg s RSP - 56" "x_reg t RSP = new_sp + 56" "stacked (x_mem t) new_sp (switch_context t)"
    by simp_all
  show "x_mem t a = x_mem s a" if "a \<noteq> old_sp" "a \<notin> pushed_slots s" using that u3 t(1) by simp
  have "old_sp \<noteq> x_reg s RSP - 56 + 8 * of_nat k" if "k < 7" for k
  proof -
    have "x_reg s RSP - 56 + 8 * of_nat k = x_reg s RSP - 8 * of_nat (7 - k)"
      using that by (simp add: of_nat_diff algebra_simps)
    moreover have "x_reg s RSP - 8 * of_nat (7 - k) \<in> pushed_slots s"
      unfolding pushed_slots_def by (rule imageI) (use that in auto)
    ultimately show ?thesis using slot by metis
  qed
  moreover have "length (switch_context s) = 7" by (simp add: switch_context_def)
  ultimately show "stacked (x_mem t) (x_reg s RSP - 56) (switch_context s)"
    using u1 by (auto simp: t(1) stacked_def)
qed

lemma stacked_same: "stacked m p vs \<Longrightarrow> stacked m p ws \<Longrightarrow> length vs = length ws \<Longrightarrow> vs = ws"
  by (auto simp: stacked_def intro: nth_equalityI)
text \<open>
  The assembly given a stack pointer that an earlier switch has saved: the registers, the flags and
  the stack pointer of that moment come back.
\<close>

lemma switch_registers_restores:
  assumes "switch_regs_ok r0 r1" and "p0 \<notin> pushed_slots s"
    and "stacked (x_mem s) (x_reg before RSP - 56) (switch_context before)"
    and "words_at (x_reg before RSP - 56) \<inter> insert p0 (pushed_slots s) = {}"
  shows "let t = switch_registers r0 r1 p0 (x_reg before RSP - 56) s
    in switch_context t = switch_context before \<and> x_reg t RSP = x_reg before RSP"
proof -
  let ?p = "x_reg before RSP - 56"
  define t where "t = switch_registers r0 r1 p0 ?p s"
  note eff = switch_effect [OF assms(1,2), where new_sp = ?p, folded t_def]
  have "x_mem t a = x_mem s a" if "a \<in> words_at ?p" for a
    unfolding t_def using that assms(4) by (intro switch_effect(3) [OF assms(1,2)]) auto
  from stacked_agree [of "switch_context before" ?p "x_mem t" "x_mem s", OF _ this] assms(3)
  have "stacked (x_mem t) ?p (switch_context before)" by (simp add: switch_context_def)
  then have "switch_context t = switch_context before"
    by (rule stacked_same [OF eff(5)]) (simp add: switch_context_def)
  then show ?thesis using eff(4) by (simp add: t_def Let_def)
qed

text \<open>
  C20. The register switch of \<open>switch_thread\<close>, with its two operands in different registers other
  than the stack pointer and the registers it saves, and the field \<open>backend.sp\<close> of neither thread
  among the seven words it pushes. It saves the old thread correctly: its callee-saved registers and
  flags are on its stack, the stack pointer is in its \<open>backend.sp\<close>, and no other memory changes. It
  does not load the new thread: the second operand is the address of \<open>backend.sp\<close> in the new thread,
  not the stack pointer stored there, so \<open>r15\<close> receives the saved stack pointer, the other registers
  and the flags the words that follow it in memory, and the stack pointer ends 48 bytes beyond the
  end of the new thread's structure.
\<close>

theorem switch_thread_contexts:
  assumes "switch_regs_ok r0 r1" and "oldthread + off \<notin> pushed_slots s"
    and "newthread + off \<notin> insert (oldthread + off) (pushed_slots s)"
  shows "let t = switch_thread_asm r0 r1 off oldthread newthread s
    in x_mem t (oldthread + off) = x_reg s RSP - 56 \<and> stacked (x_mem t) (x_reg s RSP - 56) (switch_context s) \<and>
       (\<forall>a. a \<noteq> oldthread + off \<longrightarrow> a \<notin> pushed_slots s \<longrightarrow> x_mem t a = x_mem s a) \<and>
       x_reg t R15 = x_mem s (newthread + off) \<and> stacked (x_mem t) (newthread + off) (switch_context t) \<and>
       x_reg t RSP = thread_end off newthread + 48"
proof -
  define t where "t = switch_thread_asm r0 r1 off oldthread newthread s"
  note eff = switch_effect [OF assms(1,2), where new_sp = "newthread + off", folded switch_thread_asm_def, folded t_def]
  have mem: "x_mem t a = x_mem s a" if "a \<noteq> oldthread + off" "a \<notin> pushed_slots s" for a
    unfolding t_def switch_thread_asm_def using that by (rule switch_effect(3) [OF assms(1,2)])
  have "x_reg t R15 = x_mem t (newthread + off)" using eff(5) by (simp add: switch_context_def stacked_Cons)
  with mem [of "newthread + off"] assms(3) have r15: "x_reg t R15 = x_mem s (newthread + off)" by simp
  show ?thesis
    unfolding Let_def t_def [symmetric] using eff(1,2,4,5) mem r15 by (simp add: thread_end_def add.assoc)
qed

theorem switch_thread_contexts_witness:
  "let t = switch_thread_asm RAX RCX 88 0x5000 0x6000 (sample_cpu\<lparr>x_mem := (\<lambda>_. 0)(0x6058 := 0xABC8)\<rparr>)
   in x_mem t 0x5058 = 0x7FC0 \<and> x_reg t R15 = 0xABC8 \<and> x_reg t RSP = 0x6090"
proof -
  let ?s = "sample_cpu\<lparr>x_mem := (\<lambda>_. 0)(0x6058 := 0xABC8)\<rparr>"
  have sp: "x_reg ?s RSP = 0x7FF8" by (simp add: sample_cpu_def)
  have "a \<notin> pushed_slots ?s" if "a < 0x7000" for a
  proof
    assume "a \<in> pushed_slots ?s"
    then obtain k where "k \<in> {1..7}" "a = 0x7FF8 - 8 * of_nat k" unfolding pushed_slots_def sp by blast
    moreover from this(1) have "k = 1 \<or> k = 2 \<or> k = 3 \<or> k = 4 \<or> k = 5 \<or> k = 6 \<or> k = 7" by auto
    ultimately show False using that by (elim disjE) simp_all
  qed
  moreover have "switch_regs_ok RAX RCX" by (simp add: switch_regs_ok_def callee_saved_def)
  ultimately show ?thesis
    using switch_thread_contexts [of RAX RCX "0x5000" 88 ?s "0x6000"] sp by (simp add: Let_def thread_end_def)
qed

end
