(* ===== verification/Ebl_Shared.thy ===== *)
theory Ebl_Shared
  imports Ebl_Memory
begin

text \<open>
  Reference counts with several processors: threads that copy, hand over and drop references to
  one object, interleaved in every way. \<open>RefPtr::destroy\<close> calls \<open>release\<close>, whose \<open>fetch_sub\<close> is one step,
  and then acts on the result; other threads may run in between, so a thread that has released
  keeps the result in \<open>sh_pc\<close> until it has tested it. \<open>sh_held\<close> is the number of references each
  thread owns and \<open>sh_freed\<close> how often the object was destroyed.
\<close>

section \<open>Threads that share an object\<close>

definition held_total :: "nat list \<Rightarrow> nat" where
  "held_total ns = sum_list ns"

datatype release_pc = Running | Released bool

record share =
  sh_rc :: rc_heap
  sh_obj :: vaddr_t
  sh_held :: "nat list"
  sh_pc :: "release_pc list"
  sh_freed :: nat

text \<open>
  The steps of thread \<open>i\<close>: copying a reference it owns (\<open>add_ref\<close>), moving one to thread \<open>j\<close>, dropping
  one (\<open>release\<close>), and the test of the result of \<open>release\<close>.
\<close>

inductive share_step :: "share \<Rightarrow> share \<Rightarrow> bool" where
  share_copy: "i < length (sh_held s) \<Longrightarrow> sh_pc s ! i = Running \<Longrightarrow> 0 < sh_held s ! i \<Longrightarrow>
    held_total (sh_held s) + 1 < 2 ^ 32 \<Longrightarrow> add_ref (sh_rc s) (sh_obj s) = Inr rc \<Longrightarrow>
    share_step s (s\<lparr>sh_rc := rc, sh_held := (sh_held s)[i := sh_held s ! i + 1]\<rparr>)"
| share_move: "i < length (sh_held s) \<Longrightarrow> j < length (sh_held s) \<Longrightarrow> i \<noteq> j \<Longrightarrow> sh_pc s ! i = Running \<Longrightarrow>
    0 < sh_held s ! i \<Longrightarrow>
    share_step s (s\<lparr>sh_held := (sh_held s)[i := sh_held s ! i - 1, j := sh_held s ! j + 1]\<rparr>)"
| share_drop: "i < length (sh_held s) \<Longrightarrow> sh_pc s ! i = Running \<Longrightarrow> 0 < sh_held s ! i \<Longrightarrow>
    release (sh_rc s) (sh_obj s) = Inr (rc, final) \<Longrightarrow>
    share_step s (s\<lparr>sh_rc := rc, sh_held := (sh_held s)[i := sh_held s ! i - 1], sh_pc := (sh_pc s)[i := Released final]\<rparr>)"
| share_test: "i < length (sh_held s) \<Longrightarrow> sh_pc s ! i = Released final \<Longrightarrow>
    share_step s (s\<lparr>sh_pc := (sh_pc s)[i := Running], sh_freed := sh_freed s + (if final then 1 else 0)\<rparr>)"

section \<open>The invariant\<close>

text \<open>
  While references exist the counter is their number and nobody has seen the last one go; once
  none exists, exactly one thread has.
\<close>

definition share_inv :: "share \<Rightarrow> bool" where
  "share_inv s \<longleftrightarrow> length (sh_pc s) = length (sh_held s) \<and> sh_obj s \<noteq> nullptr \<and> held_total (sh_held s) < 2 ^ 32 \<and>
     (0 < held_total (sh_held s) \<longrightarrow> refs (sh_rc s) (sh_obj s) = of_nat (held_total (sh_held s))) \<and>
     sh_freed s + count_list (sh_pc s) (Released True) = (if held_total (sh_held s) = 0 then 1 else 0)"

lemma total_inc: "i < length xs \<Longrightarrow> held_total (xs[i := Suc (xs ! i)]) = Suc (held_total xs)"
  unfolding held_total_def
proof (induction xs arbitrary: i)
  case (Cons x xs)
  then show ?case by (cases i) auto
qed simp

lemma total_dec:
  assumes "i < length xs" and "0 < xs ! i"
  shows "held_total (xs[i := xs ! i - Suc 0]) = held_total xs - Suc 0" and "0 < held_total xs"
proof -
  show "0 < held_total xs" using elem_le_sum_list [OF assms(1)] assms(2) by (simp add: held_total_def)
  show "held_total (xs[i := xs ! i - Suc 0]) = held_total xs - Suc 0"
    using total_inc [of i "xs[i := xs ! i - Suc 0]"] assms by simp
qed

lemma one_reference:
  assumes "0 < n" and "n < 2 ^ 32"
  shows "(of_nat n :: u32) = 1 \<longleftrightarrow> n = 1"
  using assms by (simp add: word_unat_eq_iff unat_of_nat)

lemma share_drop_inv:
  assumes inv: "share_inv s" and i: "i < length (sh_held s)" "sh_pc s ! i = Running" "0 < sh_held s ! i"
    and rel: "release (sh_rc s) (sh_obj s) = Inr (rc, final)"
  shows "share_inv (s\<lparr>sh_rc := rc, sh_held := (sh_held s)[i := sh_held s ! i - 1], sh_pc := (sh_pc s)[i := Released final]\<rparr>)"
proof -
  let ?n = "held_total (sh_held s)"
  note sum = total_dec [OF i(1,3)]
  have n: "0 < ?n" "?n < 2 ^ 32" using inv sum(2) by (simp_all add: share_inv_def)
  have v: "refs (sh_rc s) (sh_obj s) = of_nat ?n" using inv n(1) by (simp add: share_inv_def)
  have fin: "final \<longleftrightarrow> ?n = 1" "refs rc (sh_obj s) = of_nat (?n - 1)"
    using rel inv n one_reference [OF n] by (auto simp: release_def share_inv_def v exec_simps of_nat_diff)
  have len: "i < length (sh_pc s)" using inv i(1) by (simp add: share_inv_def)
  have "count_list ((sh_pc s)[i := Released final]) (Released True) =
      count_list (sh_pc s) (Released True) + (if final then 1 else 0)"
    using count_list_update [OF len, of "Released final" "Released True"] i(2) by (cases final) simp_all
  with fin n inv show ?thesis by (auto simp: share_inv_def sum(1))
qed

lemma share_step_inv:
  assumes "share_inv s" and "share_step s t"
  shows "share_inv t"
  using assms(2)
proof (cases rule: share_step.cases)
  case (share_copy i rc)
  then have "refs rc (sh_obj s) = refs (sh_rc s) (sh_obj s) + 1"
    by (auto simp: add_ref_def exec_simps)
  moreover have "0 < held_total (sh_held s)" using total_dec(2) share_copy(2,4) by blast
  ultimately show ?thesis
    using assms(1) share_copy by (simp add: share_inv_def total_inc)
next
  case (share_move i j)
  let ?xs = "(sh_held s)[i := sh_held s ! i - 1]"
  have "held_total (?xs[j := Suc (?xs ! j)]) = held_total (sh_held s)"
    using total_inc [of j ?xs] total_dec [OF share_move(2,6)] share_move(3) by simp
  then have "held_total ((sh_held s)[i := sh_held s ! i - 1, j := sh_held s ! j + 1]) = held_total (sh_held s)"
    using share_move(4) by simp
  then show ?thesis using assms(1) share_move(1) by (simp add: share_inv_def)
next
  case (share_drop i rc final)
  then show ?thesis using share_drop_inv [OF assms(1)] by blast
next
  case (share_test i final)
  have len: "i < length (sh_pc s)" using assms(1) share_test(2) by (simp add: share_inv_def)
  have "count_list ((sh_pc s)[i := Running]) (Released True) + (if final then 1 else 0) =
      count_list (sh_pc s) (Released True)"
    using count_list_update [OF len, of Running "Released True"] share_test(3) by (cases final) simp_all
  then show ?thesis using assms(1) share_test by (auto simp: share_inv_def)
qed

lemma share_reach_inv: "share_step\<^sup>*\<^sup>* s t \<Longrightarrow> share_inv s \<Longrightarrow> share_inv t"
  by (induction rule: rtranclp_induct) (auto intro: share_step_inv)

section \<open>Properties\<close>

text \<open>The object right after its adoption by thread 0.\<close>

definition share_start :: "rc_heap \<Rightarrow> vaddr_t \<Rightarrow> nat \<Rightarrow> share" where
  "share_start rc p n = \<lparr>sh_rc = adopt rc p, sh_obj = p, sh_held = 1 # replicate n 0, sh_pc = replicate (Suc n) Running,
     sh_freed = 0\<rparr>"

lemma share_start_inv: "p \<noteq> nullptr \<Longrightarrow> share_inv (share_start rc p n)"
  by (simp add: share_inv_def share_start_def adopt_def held_total_def sum_list_replicate count_list_0_iff)

text \<open>
  C15. Threads that share a reference-counted object never destroy it twice, never while one of them
  still owns a reference, and never forget to: from the adoption of an object on, whatever the
  threads do and however their steps interleave, also between the decrement of the counter and the
  test of its result, the object is destroyed at most once, only when no thread owns a reference,
  and it has been destroyed when no reference is left and every thread has finished its release.
  (Fewer than \<open>2\<^sup>3\<^sup>2\<close> references exist at a time; the counter has 32 bits.)
\<close>

theorem shared_object_freed_once:
  assumes "p \<noteq> nullptr" and "share_step\<^sup>*\<^sup>* (share_start rc p n) s"
  shows "sh_freed s \<le> 1 \<and> (sh_freed s = 1 \<longrightarrow> held_total (sh_held s) = 0) \<and>
    (held_total (sh_held s) = 0 \<and> (\<forall>i < length (sh_pc s). sh_pc s ! i = Running) \<longrightarrow> sh_freed s = 1)"
proof -
  have inv: "share_inv s" using share_reach_inv [OF assms(2) share_start_inv [OF assms(1)]] .
  have "count_list (sh_pc s) (Released True) = 0" if "\<forall>i < length (sh_pc s). sh_pc s ! i = Running"
    using that by (auto simp: count_list_0_iff in_set_conv_nth)
  with inv show ?thesis by (auto simp: share_inv_def split: if_splits)
qed

theorem shared_object_freed_once_witness:
  "\<exists>s. share_step\<^sup>*\<^sup>* (share_start \<lparr>refs = \<lambda>_. 0, objs = \<lambda>_. True\<rparr> 0x1000 1) s \<and> sh_freed s = 1"
proof -
  let ?s0 = "share_start \<lparr>refs = \<lambda>_. 0, objs = \<lambda>_. True\<rparr> 0x1000 1"
  let ?rc = "\<lparr>refs = (\<lambda>_. 0)(0x1000 := 0), objs = \<lambda>_. True\<rparr>"
  let ?s1 = "?s0\<lparr>sh_rc := ?rc, sh_held := (sh_held ?s0)[0 := 0], sh_pc := (sh_pc ?s0)[0 := Released True]\<rparr>"
  let ?s2 = "?s1\<lparr>sh_pc := (sh_pc ?s1)[0 := Running], sh_freed := 1\<rparr>"
  have "release (sh_rc ?s0) (sh_obj ?s0) = Inr (?rc, True)"
    by (simp add: share_start_def release_def adopt_def)
  then have "share_step ?s0 ?s1" using share_drop [of 0 ?s0 ?rc True] by (simp add: share_start_def)
  moreover have "share_step ?s1 ?s2" using share_test [of 0 ?s1 True] by (simp add: share_start_def)
  ultimately have reach: "share_step\<^sup>*\<^sup>* ?s0 ?s2" by simp
  have "held_total (sh_held ?s2) = 0 \<and> (\<forall>i < length (sh_pc ?s2). sh_pc ?s2 ! i = Running)"
    by (simp add: share_start_def less_Suc_eq held_total_def)
  with shared_object_freed_once [OF _ reach] have "sh_freed ?s2 = 1" by simp
  with reach show ?thesis by blast
qed

end
