(* ===== verification/Ebl_Traits.thy ===== *)
theory Ebl_Traits
  imports Ebl_Util
begin

text \<open>
  The compile-time part of the support library: \<open>type_traits.h\<close>, \<open>move\<close> and \<open>forward\<close> of \<open>util.h\<close>, the
  choice of the storage type in \<open>bit.h\<close> and the static assertions of \<open>guard.h\<close> and \<open>atomic.h\<close>, as functions
  on a datatype of C++ types (without qualifiers). A template that is not well-formed for its
  arguments is \<open>None\<close>; an alias template \<open>Op\<close> is a partial function on lists of types, and what the
  compiler's intrinsics say about classes is a parameter. \<open>rref\<close> is \<open>T&&\<close> with the language's
  reference collapsing.
\<close>

section \<open>Types\<close>

datatype cxx_type =
    TVoid | TBool | TChar | TSChar | TUChar | TWChar | TShort | TUShort | TInt | TUInt | TLong | TULong
  | TLongLong | TULongLong | TFloat | TDouble
  | TPtr cxx_type | TLRef cxx_type | TRRef cxx_type
  | TClass string | TInst string "cxx_type list"

fun rref :: "cxx_type \<Rightarrow> cxx_type" where
  "rref (TLRef t) = TLRef t"
| "rref (TRRef t) = TRRef t"
| "rref t = TRRef t"

section \<open>Traits\<close>

definition is_same :: "cxx_type \<Rightarrow> cxx_type \<Rightarrow> bool" where
  "is_same t u \<longleftrightarrow> t = u"

text \<open>The overload on \<open>int\<close> is preferred where \<open>T&&\<close> exists.\<close>

definition declval_type :: "cxx_type \<Rightarrow> cxx_type" where
  "declval_type t = (if t = TVoid then TVoid else rref t)"

definition is_constructible :: "(cxx_type \<Rightarrow> cxx_type list \<Rightarrow> bool) \<Rightarrow> cxx_type \<Rightarrow> cxx_type list \<Rightarrow> bool" where
  "is_constructible well_formed t args \<longleftrightarrow> well_formed t (map declval_type args)"

definition enable_if :: "bool \<Rightarrow> cxx_type \<Rightarrow> cxx_type option" where
  "enable_if b t = (if b then Some t else None)"

definition conditional :: "bool \<Rightarrow> 'a \<Rightarrow> 'a \<Rightarrow> 'a" where
  "conditional b t f = (if b then t else f)"

text \<open>The specialisation matches instances of \<open>U\<close> with one argument.\<close>

fun is_instance :: "cxx_type \<Rightarrow> string \<Rightarrow> bool" where
  "is_instance (TInst v [t]) u \<longleftrightarrow> v = u"
| "is_instance _ u \<longleftrightarrow> False"

definition is_integral :: "cxx_type \<Rightarrow> bool" where
  "is_integral t \<longleftrightarrow> t \<in> {TBool, TChar, TSChar, TUChar, TWChar, TShort, TUShort, TInt, TUInt, TLong, TULong, TLongLong, TULongLong}"

fun remove_reference :: "cxx_type \<Rightarrow> cxx_type" where
  "remove_reference (TLRef t) = t"
| "remove_reference (TRRef t) = t"
| "remove_reference t = t"

section \<open>Detection\<close>

type_synonym op = "cxx_type list \<Rightarrow> cxx_type option"

definition detector :: "cxx_type \<Rightarrow> op \<Rightarrow> cxx_type list \<Rightarrow> bool \<times> cxx_type" where
  "detector dflt op args = (case op args of None \<Rightarrow> (False, dflt) | Some t \<Rightarrow> (True, t))"

definition nonesuch :: cxx_type where
  "nonesuch = TClass ''nonesuch''"

definition is_detected :: "op \<Rightarrow> cxx_type list \<Rightarrow> bool" where
  "is_detected op args = fst (detector nonesuch op args)"

definition detected_t :: "op \<Rightarrow> cxx_type list \<Rightarrow> cxx_type" where
  "detected_t op args = snd (detector nonesuch op args)"

definition is_detected_exact :: "cxx_type \<Rightarrow> op \<Rightarrow> cxx_type list \<Rightarrow> bool" where
  "is_detected_exact expected op args = is_same expected (detected_t op args)"

text \<open>The static assertions of \<open>ebl::Guard<T>\<close> on the policy, and of \<open>ebl::atomic<T>\<close>.\<close>

definition guard_policy_ok ::
  "op \<Rightarrow> op \<Rightarrow> (cxx_type \<Rightarrow> cxx_type list \<Rightarrow> bool) \<Rightarrow> cxx_type \<Rightarrow> cxx_type \<Rightarrow> bool" where
  "guard_policy_ok has_lock has_unlock well_formed policy t \<longleftrightarrow>
     is_detected_exact TVoid has_lock [policy] \<and> is_detected_exact TVoid has_unlock [policy] \<and>
     is_constructible well_formed policy [TPtr t]"

definition atomic_type_ok :: "cxx_type \<Rightarrow> bool" where
  "atomic_type_ok t \<longleftrightarrow> is_integral t \<and> \<not> is_same t TBool"

section \<open>Move, forward and the storage of bit fields\<close>

definition forward_type :: "cxx_type \<Rightarrow> cxx_type" where
  "forward_type t = rref t"

definition move_type :: "cxx_type \<Rightarrow> cxx_type" where
  "move_type t = rref (remove_reference t)"

text \<open>The storage type \<open>T2\<close> of a bit field by the size of \<open>T\<close> in bits; \<open>None\<close> is \<open>void\<close>.\<close>

definition bitfield_storage :: "nat \<Rightarrow> nat option" where
  "bitfield_storage n =
     conditional (n = 0) None
       (conditional (n \<le> 8) (Some 8)
         (conditional (n \<le> 16) (Some 16)
           (conditional (n \<le> 32) (Some 32) (conditional (n \<le> 64) (Some 64) None))))"

section \<open>Properties\<close>

text \<open>The argument of a parameter \<open>T&&\<close>: what \<open>T\<close> is deduced to for an lvalue or an rvalue of type \<open>u\<close>.\<close>

definition deduce :: "bool \<Rightarrow> cxx_type \<Rightarrow> cxx_type" where
  "deduce lvalue u = (if lvalue then TLRef u else u)"

definition is_object_type :: "cxx_type \<Rightarrow> bool" where
  "is_object_type u \<longleftrightarrow> remove_reference u = u \<and> rref u = TRRef u"

text \<open>
  Perfect forwarding: with the deduced parameter, \<open>forward\<close> gives back an lvalue reference for an
  lvalue and an rvalue reference for an rvalue, and \<open>move\<close> always an rvalue reference, to the same type.
\<close>

theorem forward_keeps_category:
  assumes "is_object_type u"
  shows "forward_type (deduce True u) = TLRef u \<and> forward_type (deduce False u) = TRRef u \<and>
    move_type (deduce lvalue u) = TRRef u \<and> move_type (forward_type (deduce lvalue u)) = TRRef u"
  using assms by (cases lvalue) (auto simp: is_object_type_def forward_type_def move_type_def deduce_def)

theorem forward_keeps_category_witness: "forward_type (deduce True (TClass ''Page'')) = TLRef (TClass ''Page'')"
  using forward_keeps_category [of "TClass ''Page''" True] by (simp add: is_object_type_def)

text \<open>
  \<open>is_detected_exact\<close> is true exactly when the operation is well-formed and has the expected type,
  for every expected type but the marker \<open>nonesuch\<close> itself.
\<close>

theorem detection_exact:
  assumes "expected \<noteq> nonesuch"
  shows "is_detected_exact expected op args \<longleftrightarrow> op args = Some expected"
  using assms by (auto simp: is_detected_exact_def is_same_def detected_t_def detector_def split: option.splits)

theorem detection_exact_witness: "\<not> is_detected_exact TVoid (\<lambda>_. None) [TInt]"
  using detection_exact [of TVoid "\<lambda>_. None" "[TInt]"] by (simp add: nonesuch_def)

text \<open>The storage of a bit field is the narrowest standard width that holds the type.\<close>

theorem bitfield_storage_narrowest:
  assumes "0 < n" and "n \<le> 64"
  shows "\<exists>w. bitfield_storage n = Some w \<and> n \<le> w \<and> w \<in> {8, 16, 32, 64} \<and>
    (\<forall>v \<in> {8, 16, 32, 64}. n \<le> v \<longrightarrow> w \<le> v)"
  using assms by (auto simp: bitfield_storage_def conditional_def)

theorem bitfield_storage_narrowest_witness: "\<exists>w. bitfield_storage 9 = Some w \<and> w \<in> {8, 16, 32, 64}"
  using bitfield_storage_narrowest [of 9] by auto

end
