(* ===== verification/Core_Guard.thy ===== *)
theory Core_Guard
  imports Core_Thread
begin

text \<open>
  \<open>ebl::Guard<T>\<close> (\<open>lib/ebl/guard.h\<close>) for every policy, and the policies of \<open>Spinlock\<close>, \<open>SpinlockNoIrq\<close> and
  \<open>Mutex\<close> (\<open>core/spinlock.h\<close>, \<open>core/mutex.h\<close>). A policy is the record of its operations on a state of
  type \<open>'s\<close>; its object of type \<open>'p\<close> holds the pointer to the lock, which \<open>unlock\<close> sets to null. The locale
  \<open>lock_policy\<close> is what the guard relies on: an unlocked policy object is spent, and a spent one
  does nothing. It is interpreted for the three policies of the kernel.
\<close>

section \<open>Guards\<close>

record ('s, 'p) policy =
  pol_make :: "vaddr_t \<Rightarrow> 'p"
  pol_lock :: "'s \<Rightarrow> 'p \<Rightarrow> ('s \<times> 'p) exec"
  pol_unlock :: "'s \<Rightarrow> 'p \<Rightarrow> ('s \<times> 'p) exec"

definition guard_make :: "('s, 'p) policy \<Rightarrow> 's \<Rightarrow> vaddr_t \<Rightarrow> ('s \<times> 'p) exec" where
  "guard_make pol s lock = pol_lock pol s (pol_make pol lock)"

definition guard_unlock :: "('s, 'p) policy \<Rightarrow> 's \<Rightarrow> 'p \<Rightarrow> ('s \<times> 'p) exec" where
  "guard_unlock pol s g = pol_unlock pol s g"

definition guard_finish :: "('s, 'p) policy \<Rightarrow> 's \<Rightarrow> 'p \<Rightarrow> 's exec" where
  "guard_finish pol s g = bindE (guard_unlock pol s g) (\<lambda>(s, _). Inr s)"

definition guard_exchange :: "('s, 'p) policy \<Rightarrow> 's \<Rightarrow> vaddr_t \<Rightarrow> 'p \<Rightarrow> ('s \<times> 'p \<times> 'p) exec" where
  "guard_exchange pol s lock1 lock2 =
     bindE (guard_unlock pol s lock2) (\<lambda>(s, lock2).
     bindE (pol_lock pol s (pol_make pol lock1)) (\<lambda>(s, g). Inr (s, g, lock2)))"

section \<open>Policies\<close>

definition spinlock_policy :: "lock_op \<Rightarrow> unlock_op \<Rightarrow> (cpu, guard) policy" where
  "spinlock_policy sl su =
     \<lparr>pol_make = (\<lambda>lock. \<lparr>irq_flags = 0, guard_lock = lock\<rparr>),
      pol_lock = (\<lambda>s p. bindE (spinlock_lock sl s (guard_lock p)) (\<lambda>(s, x). Inr (s, p\<lparr>irq_flags := x\<rparr>))),
      pol_unlock = (\<lambda>s p. Inr (guard_release su s p))\<rparr>"

definition noirq_policy :: "lock_op \<Rightarrow> unlock_op \<Rightarrow> (cpu, vaddr_t) policy" where
  "noirq_policy sl su =
     \<lparr>pol_make = (\<lambda>lock. lock),
      pol_lock = (\<lambda>s p. bindE (spinlock_noirq_lock sl s p) (\<lambda>s. Inr (s, p))),
      pol_unlock = (\<lambda>s p. if p \<noteq> nullptr then Inr (spinlock_noirq_unlock su s p, nullptr) else Inr (s, p))\<rparr>"

text \<open>The state has one mutex; its policy locks it up to the switch inside \<open>Mutex::lock\<close>.\<close>

definition mutex_policy :: "lock_op \<Rightarrow> unlock_op \<Rightarrow> (sys, vaddr_t) policy" where
  "mutex_policy sl su =
     \<lparr>pol_make = (\<lambda>lock. lock),
      pol_lock = (\<lambda>s p. bindE (mutex_lock_with sl su s) (\<lambda>s. Inr (s, p))),
      pol_unlock = (\<lambda>s p. if p \<noteq> nullptr then bindE (mutex_unlock_with sl su s) (\<lambda>s. Inr (s, nullptr)) else Inr (s, p))\<rparr>"

section \<open>What a guard relies on\<close>

locale lock_policy =
  fixes pol :: "('s, 'p) policy" and spent :: "'p \<Rightarrow> bool"
  assumes unlock_spends: "pol_unlock pol s p = Inr (s', p') \<Longrightarrow> spent p'"
    and spent_idle: "spent p \<Longrightarrow> pol_unlock pol s p = Inr (s, p)"
begin

lemma release_once:
  assumes "guard_unlock pol s g = Inr (s', g')"
  shows "guard_unlock pol t g' = Inr (t, g') \<and> guard_finish pol t g' = Inr t"
  using unlock_spends assms spent_idle by (auto simp: guard_unlock_def guard_finish_def)

lemma finish_exchanged:
  assumes "guard_exchange pol s lock1 lock2 = Inr (s', g1, g2)"
  shows "guard_finish pol t g2 = Inr t"
  using assms unlock_spends spent_idle
  by (auto simp: guard_exchange_def guard_unlock_def guard_finish_def exec_simps split: prod.splits)

end

interpretation spin_policy: lock_policy "spinlock_policy sl su" "\<lambda>g. guard_lock g = nullptr" for sl su
  by unfold_locales (auto simp: spinlock_policy_def guard_release_def split: if_splits)

interpretation plain_policy: lock_policy "noirq_policy sl su" "\<lambda>p. p = nullptr" for sl su
  by unfold_locales (auto simp: noirq_policy_def split: if_splits)

interpretation sleep_policy: lock_policy "mutex_policy sl su" "\<lambda>p. p = nullptr" for sl su
  by unfold_locales (auto simp: mutex_policy_def exec_simps split: if_splits)

text \<open>
  A guard of any of the three locks unlocks at most once: after a \<open>release\<close>, a second one and
  the destructor change nothing, whatever the state of the lock has become, and the guard that was
  given up for another lock is as good as released.
\<close>

theorem guards_unlock_once:
  "(guard_unlock (spinlock_policy sl su) s g = Inr (s', g') \<longrightarrow> guard_finish (spinlock_policy sl su) t g' = Inr t) \<and>
   (guard_unlock (noirq_policy sl su) s p = Inr (s', p') \<longrightarrow> guard_finish (noirq_policy sl su) t p' = Inr t) \<and>
   (guard_unlock (mutex_policy sl su) y p = Inr (y', q) \<longrightarrow> guard_finish (mutex_policy sl su) z q = Inr z) \<and>
   (guard_exchange (mutex_policy sl su) y l p = Inr (y', p', q) \<longrightarrow> guard_finish (mutex_policy sl su) z q = Inr z)"
  by (auto dest: spin_policy.release_once plain_policy.release_once sleep_policy.release_once sleep_policy.finish_exchanged)

end
