(* ===== verification/Core_Slab.thy ===== *)
theory Core_Slab
  imports Core_Thread
begin

text \<open>
  \<open>core/slab.cc\<close> and \<open>core/include/core/slab.h\<close>: the slab allocator behind \<open>kmem::alloc\<close> and
  \<open>kmem::free\<close>, with the two heap functions of \<open>arch/x86-64/interface.h\<close>.

  The fields of slabs, slab caches and free-object links are functions of the address of the
  object; the lists of slabs and the list of caches are intrusive lists in one heap of links.
  The guards lock and unlock mutexes: every function takes the two operations on the mutex at an
  address as arguments \<open>lk\<close> and \<open>ul\<close>, calls them where a guard is constructed and destroyed (in reverse
  order at the end of a scope, and at every early return), and the functions of the kernel,
  \<open>kmem_alloc\<close> and \<open>kmem_free\<close>, are those with the mutex of \<open>Core_Thread\<close>. The cache names are left out.
\<close>

section \<open>Data\<close>

text \<open>
  Sizes under the System V ABI: a packed list node (16 bytes), a mutex (32), then the
  pointers and counters with their alignment.
\<close>

definition sizeof_slab :: u32 where
  "sizeof_slab = 88"

definition sizeof_slabcache :: u32 where
  "sizeof_slabcache = 120"

record slabs =
  sb_links :: list_heap
  obj_next :: "vaddr_t \<Rightarrow> vaddr_t"
  sl_parent :: "vaddr_t \<Rightarrow> vaddr_t"
  sl_inuse :: "vaddr_t \<Rightarrow> u32"
  sl_time :: "vaddr_t \<Rightarrow> u64"
  sl_objctl :: "vaddr_t \<Rightarrow> vaddr_t"
  sl_objects :: "vaddr_t \<Rightarrow> vaddr_t"
  ca_freelist :: "vaddr_t \<Rightarrow> vaddr_t"
  ca_partial :: "vaddr_t \<Rightarrow> vaddr_t"
  ca_full :: "vaddr_t \<Rightarrow> vaddr_t"
  ca_order :: "vaddr_t \<Rightarrow> u16"
  ca_objsize :: "vaddr_t \<Rightarrow> u32"
  ca_nobjects :: "vaddr_t \<Rightarrow> u32"
  ca_color :: "vaddr_t \<Rightarrow> u32"
  slabcache_cache :: vaddr_t
  cache_list :: vaddr_t
  cache_list_lock :: vaddr_t
  sb_mutexes :: mutexes

type_synonym mutex_op = "slabs \<Rightarrow> vaddr_t \<Rightarrow> slabs exec"

text \<open>The mutex \<open>lock\<close> of a slab or a slab cache, behind its list node.\<close>

definition lock_of :: "vaddr_t \<Rightarrow> vaddr_t" where
  "lock_of this = this + 16"

definition num_objects_per_slab :: "u32 \<Rightarrow> u16 \<Rightarrow> u32 exec" where
  "num_objects_per_slab sz order =
     guardE (kmem_align_up sz order \<noteq> 0) DivideByZero
       (Inr ((page_size - kmem_align_up sizeof_slab order) div kmem_align_up sz order))"

definition slabcache_init :: "slabs \<Rightarrow> vaddr_t \<Rightarrow> u32 \<Rightarrow> u16 \<Rightarrow> slabs exec" where
  "slabcache_init s this sz order =
     bindE (num_objects_per_slab sz order) (\<lambda>n.
     Inr (s\<lparr>sb_links := node_init (sb_links s) this,
            ca_freelist := (ca_freelist s)(this := nullptr),
            ca_partial := (ca_partial s)(this := nullptr),
            ca_full := (ca_full s)(this := nullptr),
            ca_order := (ca_order s)(this := order),
            ca_objsize := (ca_objsize s)(this := sz),
            ca_nobjects := (ca_nobjects s)(this := n),
            ca_color := (ca_color s)(this := 0)\<rparr>))"

definition slab_init :: "slabs \<Rightarrow> vaddr_t \<Rightarrow> vaddr_t \<Rightarrow> vaddr_t \<Rightarrow> vaddr_t \<Rightarrow> slabs" where
  "slab_init s this parent objctl objects =
     s\<lparr>sb_links := node_init (sb_links s) this,
       sl_parent := (sl_parent s)(this := parent),
       sl_inuse := (sl_inuse s)(this := 0),
       sl_time := (sl_time s)(this := 0),
       sl_objctl := (sl_objctl s)(this := objctl),
       sl_objects := (sl_objects s)(this := objects)\<rparr>"

section \<open>The heap of the architecture\<close>

definition is_heap_address :: "vaddr_t \<Rightarrow> bool" where
  "is_heap_address addr = False"

definition grow_heap :: "u32 \<Rightarrow> vaddr_t" where
  "grow_heap num_pages = nullptr"

section \<open>Slabs and caches\<close>

definition find_best_cache :: "nat \<Rightarrow> slabs \<Rightarrow> u32 \<Rightarrow> vaddr_t exec" where
  "find_best_cache fuel s sz =
     bindE
       (for_nodes fuel (sb_links s) (list_begin (cache_list s)) (list_end (cache_list s))
          (\<lambda>cache found. guardE (cache \<noteq> nullptr) NullDeref
             (if ca_objsize s cache = sz then Inr (cache, False) else Inr (found, True)))
          nullptr)
       (\<lambda>(cache, _). Inr cache)"

definition find_slab_from_obj :: "vaddr_t \<Rightarrow> vaddr_t" where
  "find_slab_from_obj obj = page_align_down obj"

text \<open>The loop that links the free objects; its count is the number of objects still to come.\<close>

fun init_objs :: "(vaddr_t \<Rightarrow> vaddr_t) \<Rightarrow> nat \<Rightarrow> vaddr_t \<Rightarrow> u64 \<Rightarrow> (vaddr_t \<Rightarrow> vaddr_t) \<times> vaddr_t" where
  "init_objs nx 0 ptr objsize = (nx, ptr)"
| "init_objs nx (Suc left) ptr objsize =
     (let obj = ptr; ptr = ptr + objsize
      in init_objs (nx(obj := if left = 0 then nullptr else ptr)) left ptr objsize)"

text \<open>\<open>page\<close> is what \<open>arch::grow_heap(1)\<close> returned.\<close>

definition slab_create :: "slabs \<Rightarrow> vaddr_t \<Rightarrow> vaddr_t \<Rightarrow> (slabs \<times> vaddr_t) exec" where
  "slab_create s cache page =
     (if page = nullptr then Inr (s, nullptr)
      else let slab_node_sz = kmem_align_up sizeof_slab (ca_order s cache);
               free_space = page_size - slab_node_sz;
               padding = free_space - ca_nobjects s cache * ca_objsize s cache;
               max_color = padding div push_bit (unat (ca_order s cache)) 1
           in guardE (max_color \<noteq> 0) DivideByZero
              (let color = (ca_color s cache + 1) mod max_color;
                   color_padding = color * push_bit (unat (ca_order s cache)) 1;
                   s = s\<lparr>ca_color := (ca_color s)(cache := color)\<rparr>;
                   ptr = page + ucast slab_node_sz + ucast color_padding;
                   (nx, ptr) = init_objs (obj_next s) (unat (ca_nobjects s cache)) ptr
                                 (ucast (ca_objsize s cache));
                   s = s\<lparr>obj_next := nx\<rparr>
               in Inr (slab_init s page cache ptr ptr, page)))"

definition cache_alloc :: "mutex_op \<Rightarrow> mutex_op \<Rightarrow> slabs \<Rightarrow> vaddr_t \<Rightarrow> (slabs \<times> vaddr_t) exec" where
  "cache_alloc lk ul s cache =
     guardE (cache \<noteq> nullptr) NullDeref
     (bindE (lk s (lock_of cache)) (\<lambda>s.
      bindE
       (if empty_list (ca_partial s cache)
        then bindE (pop_front_unsafe (sb_links s) (ca_freelist s cache)) (\<lambda>(l, r, node).
             let s = s\<lparr>sb_links := l, ca_freelist := (ca_freelist s)(cache := r)\<rparr> in
             bindE (push_back_unsafe (sb_links s) (ca_partial s cache) node) (\<lambda>(l, r).
             Inr (s\<lparr>sb_links := l, ca_partial := (ca_partial s)(cache := r)\<rparr>, Some node)))
        else if empty_list (ca_freelist s cache)
        then bindE (slab_create s cache (grow_heap 1)) (\<lambda>(s, node).
             if node = nullptr then Inr (s, None)
             else bindE (push_back_unsafe (sb_links s) (ca_partial s cache) node) (\<lambda>(l, r).
                  Inr (s\<lparr>sb_links := l, ca_partial := (ca_partial s)(cache := r)\<rparr>, Some node)))
        else bindE (pop_front_unsafe (sb_links s) (ca_partial s cache)) (\<lambda>(l, r, node).
             Inr (s\<lparr>sb_links := l, ca_partial := (ca_partial s)(cache := r)\<rparr>, Some node)))
       (\<lambda>(s, found). case found of
          None \<Rightarrow> bindE (ul s (lock_of cache)) (\<lambda>s. Inr (s, nullptr))
        | Some node \<Rightarrow>
          guardE (node \<noteq> nullptr) NullDeref
          (bindE (lk s (lock_of node)) (\<lambda>s.
           bindE (if sl_inuse s node + 1 = ca_nobjects s cache
                  then bindE (push_back_unsafe (sb_links s) (ca_full s cache) node) (\<lambda>(l, r).
                       Inr (s\<lparr>sb_links := l, ca_full := (ca_full s)(cache := r)\<rparr>))
                  else Inr s) (\<lambda>s.
           let s = s\<lparr>sl_inuse := (sl_inuse s)(node := sl_inuse s node + 1),
                     sl_time := (sl_time s)(node := 0)\<rparr> in
           guardE (sl_objctl s node \<noteq> nullptr) NullDeref
           (let s = s\<lparr>sl_objctl := (sl_objctl s)(node := obj_next s (sl_objctl s node))\<rparr>;
                obj = sl_objctl s node
            in bindE (ul s (lock_of node)) (\<lambda>s.
               bindE (ul s (lock_of cache)) (\<lambda>s. Inr (s, obj))))))))))"

definition cache_create :: "mutex_op \<Rightarrow> mutex_op \<Rightarrow> slabs \<Rightarrow> u32 \<Rightarrow> u16 \<Rightarrow> (slabs \<times> vaddr_t) exec" where
  "cache_create lk ul s sz order =
     bindE (cache_alloc lk ul s (slabcache_cache s)) (\<lambda>(s, node).
       if node = nullptr then Inr (s, nullptr)
       else bindE (slabcache_init s node sz order) (\<lambda>s.
            bindE (lk s (cache_list_lock s)) (\<lambda>s.
            bindE (push_back_unsafe (sb_links s) (cache_list s) node) (\<lambda>(l, r).
            bindE (ul (s\<lparr>sb_links := l, cache_list := r\<rparr>) (cache_list_lock s)) (\<lambda>s.
            Inr (s, node))))))"

definition cache_free :: "mutex_op \<Rightarrow> mutex_op \<Rightarrow> slabs \<Rightarrow> vaddr_t \<Rightarrow> vaddr_t \<Rightarrow> slabs exec" where
  "cache_free lk ul s slab obj =
     guardE (slab \<noteq> nullptr \<and> sl_parent s slab \<noteq> nullptr) NullDeref
     (let cache = sl_parent s slab in
      bindE (lk s (lock_of cache)) (\<lambda>s.
      bindE (lk s (lock_of slab)) (\<lambda>s.
      bindE
        (if sl_inuse s slab = ca_nobjects s cache
         then bindE (remove_unsafe (sb_links s) (ca_full s cache) slab) (\<lambda>(l, r).
              let s = s\<lparr>sb_links := l, ca_full := (ca_full s)(cache := r)\<rparr> in
              bindE (push_back_unsafe (sb_links s) (ca_partial s cache) slab) (\<lambda>(l, r).
              Inr (s\<lparr>sb_links := l, ca_partial := (ca_partial s)(cache := r)\<rparr>)))
         else if sl_inuse s slab = 1
         then bindE (remove_unsafe (sb_links s) (ca_partial s cache) slab) (\<lambda>(l, r).
              let s = s\<lparr>sb_links := l, ca_partial := (ca_partial s)(cache := r)\<rparr> in
              bindE (push_back_unsafe (sb_links s) (ca_freelist s cache) slab) (\<lambda>(l, r).
              Inr (s\<lparr>sb_links := l, ca_freelist := (ca_freelist s)(cache := r)\<rparr>)))
         else Inr s)
        (\<lambda>s.
         let s = s\<lparr>sl_inuse := (sl_inuse s)(slab := sl_inuse s slab - 1)\<rparr> in
         guardE (obj \<noteq> nullptr) NullDeref
         (let s = s\<lparr>obj_next := (obj_next s)(obj := sl_objctl s slab), sl_objctl := (sl_objctl s)(slab := obj)\<rparr> in
          bindE (ul s (lock_of slab)) (\<lambda>s. ul s (lock_of cache)))))))"

definition cache_destroy :: "slabs \<Rightarrow> vaddr_t \<Rightarrow> slabs" where
  "cache_destroy s cache = s"

definition cache_reap :: "slabs \<Rightarrow> vaddr_t \<Rightarrow> slabs" where
  "cache_reap s cache = s"

section \<open>The interface\<close>

definition bootstrap :: "slabs \<Rightarrow> slabs exec" where
  "bootstrap s =
     bindE (push_back_unsafe (sb_links s) (cache_list s) (slabcache_cache s)) (\<lambda>(l, r).
     Inr (s\<lparr>sb_links := l, cache_list := r\<rparr>))"

definition kmem_alloc_with :: "mutex_op \<Rightarrow> mutex_op \<Rightarrow> nat \<Rightarrow> slabs \<Rightarrow> u32 \<Rightarrow> (slabs \<times> vaddr_t) exec" where
  "kmem_alloc_with lk ul fuel s sz =
     (let sz = kmem_align_up sz default_order in
      bindE (lk s (cache_list_lock s)) (\<lambda>s.
      bindE (find_best_cache fuel s sz) (\<lambda>cache.
      bindE (ul s (cache_list_lock s)) (\<lambda>s.
      bindE (if cache = nullptr then cache_create lk ul s sz default_order else Inr (s, cache)) (\<lambda>(s, cache).
      cache_alloc lk ul s cache)))))"

definition kmem_free_with :: "mutex_op \<Rightarrow> mutex_op \<Rightarrow> slabs \<Rightarrow> vaddr_t \<Rightarrow> slabs exec" where
  "kmem_free_with lk ul s obj =
     guardE (obj \<noteq> nullptr) AssertFailed
     (let node = find_slab_from_obj obj in
      guardE (is_heap_address node) AssertFailed
      (guardE (node \<noteq> nullptr) NullDeref
       (let cache = sl_parent s node in
        guardE (cache \<noteq> nullptr) NullDeref
        (guardE (ucast (kmem_align_up (ucast obj) (ca_order s cache)) = obj) AssertFailed
         (guardE (sl_objects s node \<le> obj) AssertFailed
          (cache_free lk ul s node obj))))))"

text \<open>The guards of the kernel lock the mutex at the address.\<close>

definition guard_lock_mutex :: mutex_op where
  "guard_lock_mutex s p = bindE (lock_mutex (sb_mutexes s) p) (\<lambda>t. Inr (s\<lparr>sb_mutexes := t\<rparr>))"

definition guard_unlock_mutex :: mutex_op where
  "guard_unlock_mutex s p = bindE (unlock_mutex (sb_mutexes s) p) (\<lambda>t. Inr (s\<lparr>sb_mutexes := t\<rparr>))"

definition kmem_alloc :: "nat \<Rightarrow> slabs \<Rightarrow> u32 \<Rightarrow> (slabs \<times> vaddr_t) exec" where
  "kmem_alloc fuel s sz = kmem_alloc_with guard_lock_mutex guard_unlock_mutex fuel s sz"

definition kmem_free :: "slabs \<Rightarrow> vaddr_t \<Rightarrow> slabs exec" where
  "kmem_free s obj = kmem_free_with guard_lock_mutex guard_unlock_mutex s obj"

text \<open>Lock operations that work: they return, and change nothing but the state of the mutexes.\<close>

definition mutex_ops_work :: "mutex_op \<Rightarrow> mutex_op \<Rightarrow> bool" where
  "mutex_ops_work lk ul \<longleftrightarrow>
     (\<forall>s p. \<exists>t. lk s p = Inr (s\<lparr>sb_mutexes := t\<rparr>)) \<and> (\<forall>s p. \<exists>t. ul s p = Inr (s\<lparr>sb_mutexes := t\<rparr>))"

lemma mutex_ops_workE:
  assumes "mutex_ops_work lk ul"
  obtains f g where "\<forall>s p. lk s p = Inr (s\<lparr>sb_mutexes := f s p\<rparr>)" and "\<forall>s p. ul s p = Inr (s\<lparr>sb_mutexes := g s p\<rparr>)"
  using assms unfolding mutex_ops_work_def by metis

section \<open>The chain of free objects\<close>

fun obj_chain :: "(vaddr_t \<Rightarrow> vaddr_t) \<Rightarrow> vaddr_t \<Rightarrow> nat \<Rightarrow> vaddr_t list" where
  "obj_chain nx p 0 = []"
| "obj_chain nx p (Suc n) = (if p = nullptr then [] else p # obj_chain nx (nx p) n)"

definition obj_at :: "vaddr_t \<Rightarrow> u64 \<Rightarrow> nat \<Rightarrow> vaddr_t" where
  "obj_at p objsize i = p + of_nat i * objsize"

lemma obj_at_Suc: "obj_at (p + sz) sz i = obj_at p sz (Suc i)"
  by (simp add: obj_at_def algebra_simps)

lemma init_objs_end: "snd (init_objs nx n p sz) = obj_at p sz n"
  by (induction n arbitrary: nx p) (simp_all add: Let_def obj_at_def algebra_simps)

lemma init_objs_other:
  "\<forall>i < n. q \<noteq> obj_at p sz i \<Longrightarrow> fst (init_objs nx n p sz) q = nx q"
proof (induction n arbitrary: nx p)
  case (Suc n)
  have "q \<noteq> p" using Suc.prems [rule_format, of 0] by (simp add: obj_at_def)
  moreover have "\<forall>i < n. q \<noteq> obj_at (p + sz) sz i" using Suc.prems by (simp add: obj_at_Suc)
  ultimately show ?case using Suc.IH by (simp add: Let_def)
qed simp

lemma init_objs_next:
  assumes "\<And>i j. i < j \<Longrightarrow> j < n \<Longrightarrow> obj_at p sz i \<noteq> obj_at p sz j" and "i < n"
  shows "fst (init_objs nx n p sz) (obj_at p sz i) = (if i = n - 1 then nullptr else obj_at p sz (Suc i))"
  using assms
proof (induction n arbitrary: nx p i)
  case (Suc n)
  have d: "obj_at (p + sz) sz i \<noteq> obj_at (p + sz) sz j" if "i < j" "j < n" for i j
    using Suc.prems(1) [of "Suc i" "Suc j"] that by (simp add: obj_at_Suc)
  show ?case
  proof (cases i)
    case 0
    have "p \<noteq> obj_at (p + sz) sz j" if "j < n" for j
      using Suc.prems(1) [of 0 "Suc j"] that by (simp add: obj_at_Suc) (simp add: obj_at_def)
    then have "\<forall>j < n. p \<noteq> obj_at (p + sz) sz j" by blast
    from init_objs_other [OF this] show ?thesis
      using 0 by (simp add: Let_def obj_at_def)
  next
    case (Suc j)
    then show ?thesis
      using Suc.IH [OF d, of j] Suc.prems(2) by (auto simp: Let_def obj_at_Suc)
  qed
qed simp

lemma obj_chain_map:
  assumes nxt: "\<And>i. i < n \<Longrightarrow> nx (obj_at p sz i) = (if i = n - 1 then nullptr else obj_at p sz (Suc i))"
    and nz: "\<And>i. i < n \<Longrightarrow> obj_at p sz i \<noteq> nullptr"
  shows "i + k = n \<Longrightarrow> 0 < k \<Longrightarrow> obj_chain nx (obj_at p sz i) (Suc k) = map (obj_at p sz) [i..<n]"
proof (induction k arbitrary: i)
  case (Suc k)
  show ?case
  proof (cases k)
    case 0
    then show ?thesis using Suc.prems nxt [of i] nz [of i] by (auto simp: upt_rec)
  next
    case (Suc j)
    then have "obj_chain nx (obj_at p sz (Suc i)) (Suc k) = map (obj_at p sz) [Suc i..<n]"
      using Suc.prems Suc.IH [of "Suc i"] by simp
    moreover have "nx (obj_at p sz i) = obj_at p sz (Suc i)"
      using Suc.prems Suc nxt [of i] by auto
    ultimately have "obj_chain nx (obj_at p sz i) (Suc (Suc k)) = obj_at p sz i # map (obj_at p sz) [Suc i..<n]"
      using Suc.prems nz [of i] by (subst obj_chain.simps(2)) simp
    then show ?thesis using Suc.prems by (simp add: upt_conv_Cons)
  qed
qed simp

lemma unat_obj_at:
  assumes "unat p + n * unat sz < 2 ^ 64" and "i \<le> n"
  shows "unat (obj_at p sz i) = unat p + i * unat sz"
proof -
  have "i * unat sz \<le> n * unat sz" using assms(2) by (rule mult_le_mono1)
  then have "unat p + i * unat sz < 2 ^ 64" using assms(1) by linarith
  then show ?thesis
    by (simp add: obj_at_def unat_word_ariths unat_of_nat mod_mult_left_eq mod_add_right_eq)
qed

lemma obj_at_inject:
  assumes "unat p + n * unat sz < 2 ^ 64" and "sz \<noteq> 0" and "i < j" and "j < n"
  shows "obj_at p sz i \<noteq> obj_at p sz j"
proof
  assume "obj_at p sz i = obj_at p sz j"
  then have "unat p + i * unat sz = unat p + j * unat sz"
    using unat_obj_at [OF assms(1), of i] unat_obj_at [OF assms(1), of j] assms(3,4) by simp
  then show False using assms(2,3) by (simp add: unat_eq_zero)
qed

text \<open>What the linking loop leaves behind, from the word that precedes the first object.\<close>

lemma init_objs_chain:
  assumes fits: "unat p + n * unat sz < 2 ^ 64" and "sz \<noteq> 0" and "p \<noteq> nullptr" and "0 < n"
  shows "obj_chain (fst (init_objs nx n p sz)) p (Suc n) = map (obj_at p sz) [0..<n]"
proof -
  have ne: "obj_at p sz i \<noteq> nullptr" if "i < n" for i
    using unat_obj_at [OF fits, of i] that assms(3) by (auto simp: unat_eq_zero)
  have "fst (init_objs nx n p sz) (obj_at p sz i) = (if i = n - 1 then nullptr else obj_at p sz (Suc i))"
    if "i < n" for i
    using init_objs_next [OF obj_at_inject [OF fits assms(2)] that] by blast
  from obj_chain_map [OF this ne, of 0 n] assms(4) show ?thesis by (simp add: obj_at_def)
qed

section \<open>A new slab\<close>

lemma slab_color_fits:
  fixes n z :: u32 and c :: u32
  assumes fits: "88 + unat n * unat z \<le> 4096" and mx: "mc = (4008 - n * z) div 8" and "mc \<noteq> 0"
  shows "unat (c mod mc * 8) + 88 + unat n * unat z \<le> 4096"
proof -
  have nz: "unat (n * z) = unat n * unat z"
    using fits by (simp add: unat_word_ariths)
  then have "unat (4008 - n * z) = 4008 - unat n * unat z"
    using fits by (subst unat_minus_no_wrap) simp_all
  then have m: "unat mc = (4008 - unat n * unat z) div 8"
    by (simp add: mx unat_div_distrib)
  have "unat (c mod mc) < unat mc"
    using assms(3) by (simp add: unat_mod_distrib unat_gt_0)
  with m have "unat (c mod mc) * 8 + 8 \<le> 4008 - unat n * unat z" by simp
  moreover from this have "unat (c mod mc * 8) = unat (c mod mc) * 8"
    by (simp add: unat_word_ariths)
  ultimately show ?thesis using fits by linarith
qed

text \<open>\<open>slab_create\<close> for a cache of default alignment, with its sizes worked out.\<close>

definition slab_colors :: "slabs \<Rightarrow> vaddr_t \<Rightarrow> u32" where
  "slab_colors s cache = (4008 - ca_nobjects s cache * ca_objsize s cache) div 8"

definition slab_first :: "slabs \<Rightarrow> vaddr_t \<Rightarrow> vaddr_t \<Rightarrow> vaddr_t" where
  "slab_first s cache page = page + 88 + ucast ((ca_color s cache + 1) mod slab_colors s cache * 8)"

lemma slab_create_default:
  assumes "ca_order s cache = default_order" and "page \<noteq> nullptr"
  shows "slab_create s cache page = guardE (slab_colors s cache \<noteq> 0) DivideByZero
    (let n = unat (ca_nobjects s cache); z = ucast (ca_objsize s cache);
         first = slab_first s cache page; behind = obj_at first z n
     in Inr (slab_init (s\<lparr>ca_color := (ca_color s)(cache := (ca_color s cache + 1) mod slab_colors s cache),
          obj_next := fst (init_objs (obj_next s) n first z)\<rparr>) page cache behind behind, page))"
proof -
  have al: "kmem_align_up sizeof_slab default_order = 88"
    by (simp add: kmem_align_up_def sizeof_slab_def default_order_def)
  have order: "push_bit (unat default_order) 1 = (8 :: u32)"
    by (simp add: default_order_def)
  have sz: "page_size - 88 = 4008" by (simp add: page_size_def)
  show ?thesis
    using assms(2)
    by (simp add: slab_create_def assms(1) al order sz Let_def slab_colors_def slab_first_def
        case_prod_beta init_objs_end del: push_bit_of_1)
qed

text \<open>
  A new slab for a cache of default alignment whose objects fit into a page: the objects
  lie inside the page behind the slab header, spaced by the object size, and are linked in
  order into a chain of exactly \<open>slab_nobjects\<close> objects that ends in null. But the slab
  starts with \<open>objctl\<close> and \<open>objects\<close> pointing behind the last object, not at the first.
\<close>

theorem slab_create_chain:
  assumes "slab_create s cache page = Inr (s', node)" and "page \<noteq> nullptr"
    and "unat page + 4096 < 2 ^ 64" and "ca_order s cache = default_order"
    and "ca_objsize s cache \<noteq> 0" and "ca_nobjects s cache \<noteq> 0"
    and "88 + unat (ca_nobjects s cache) * unat (ca_objsize s cache) \<le> 4096"
  shows "\<exists>first. let n = unat (ca_nobjects s cache); z = ucast (ca_objsize s cache) in
    node = page \<and> unat page + 88 \<le> unat first \<and> unat first + n * unat z \<le> unat page + 4096 \<and>
    obj_chain (obj_next s') first (Suc n) = map (obj_at first z) [0..<n] \<and>
    sl_objctl s' page = obj_at first z n \<and> sl_objects s' page = obj_at first z n \<and>
    sl_objctl s' page \<notin> set (obj_chain (obj_next s') first (Suc n)) \<and>
    sl_parent s' page = cache \<and> sl_inuse s' page = 0"
proof -
  define n z first where "n = unat (ca_nobjects s cache)" and "z = (ucast (ca_objsize s cache) :: u64)"
    and "first = slab_first s cache page"
  note defs = n_def [symmetric] z_def [symmetric] first_def [symmetric]
  have z: "unat z = unat (ca_objsize s cache)"
    unfolding z_def by (rule unat_ucast_widen) simp
  with assms(5) have "z \<noteq> 0" by (metis unat_eq_zero)
  have colors: "slab_colors s cache \<noteq> 0"
    and s': "s' = slab_init (s\<lparr>ca_color := (ca_color s)(cache := (ca_color s cache + 1) mod slab_colors s cache),
      obj_next := fst (init_objs (obj_next s) n first z)\<rparr>) page cache (obj_at first z n) (obj_at first z n)"
    and node: "node = page"
    using assms(1) unfolding slab_create_default [OF assms(4,2)] Let_def defs
    by (auto simp: exec_simps)
  let ?c = "(ca_color s cache + 1) mod slab_colors s cache * 8"
  have c: "unat ?c + 88 + n * unat z \<le> 4096"
    using slab_color_fits [OF assms(7) slab_colors_def colors] by (simp add: n_def z)
  have "unat (ucast ?c :: u64) = unat ?c" by (rule unat_ucast_widen) simp
  then have first: "unat first = unat page + 88 + unat ?c"
    using c assms(3) by (simp add: first_def slab_first_def unat_word_ariths)
  have fits: "unat first + n * unat z < 2 ^ 64" using first c assms(3) by linarith
  have "first \<noteq> nullptr" using first by (auto simp: unat_eq_zero)
  moreover have "0 < n" using assms(6) by (simp add: n_def unat_gt_0)
  ultimately have chain: "obj_chain (obj_next s') first (Suc n) = map (obj_at first z) [0..<n]"
    using init_objs_chain [OF fits \<open>z \<noteq> 0\<close>, of "obj_next s"] by (simp add: s' slab_init_def)
  have "obj_at first z n \<noteq> obj_at first z i" if "i < n" for i
    using unat_obj_at [OF fits, of i] unat_obj_at [OF fits, of n] that \<open>z \<noteq> 0\<close>
    by (auto simp: unat_eq_zero)
  then have "obj_at first z n \<notin> set (map (obj_at first z) [0..<n])" by fastforce
  then show ?thesis
    unfolding Let_def defs using first c node chain
    by (intro exI [of _ first]) (simp add: s' slab_init_def)
qed

text \<open>The allocator before \<open>kmem::bootstrap\<close>: the static cache of caches at address 64.\<close>

definition initial_slabs :: slabs where
  "initial_slabs = \<lparr>sb_links = \<lparr>nexts = (\<lambda>_. 0), prevs = (\<lambda>_. 0)\<rparr>, obj_next = (\<lambda>_. 0), sl_parent = (\<lambda>_. 0),
     sl_inuse = (\<lambda>_. 0), sl_time = (\<lambda>_. 0), sl_objctl = (\<lambda>_. 0), sl_objects = (\<lambda>_. 0), ca_freelist = (\<lambda>_. 0),
     ca_partial = (\<lambda>_. 0), ca_full = (\<lambda>_. 0), ca_order = (\<lambda>_. default_order), ca_objsize = (\<lambda>_. 120),
     ca_nobjects = (\<lambda>_. 33), ca_color = (\<lambda>_. 0), slabcache_cache = 64, cache_list = 0,
     cache_list_lock = 256, sb_mutexes = \<lparr>mt_sys = two_threads, mt_wait = (\<lambda>_. 0), mt_owner = (\<lambda>_. 0), mt_state = (\<lambda>_. FREE)\<rparr>\<rparr>"

lemma initial_slabs_init:
  "slabcache_init initial_slabs (slabcache_cache initial_slabs)
     (kmem_align_up sizeof_slabcache default_order) default_order = Inr initial_slabs"
  by (simp add: slabcache_init_def num_objects_per_slab_def initial_slabs_def node_init_def
      kmem_align_up_def default_order_def sizeof_slab_def sizeof_slabcache_def page_size_def
      fun_upd_idem_iff)

theorem slab_create_chain_witness:
  "\<exists>s' first. slab_create initial_slabs 64 8192 = Inr (s', 8192) \<and>
     obj_chain (obj_next s') first 34 = map (obj_at first 120) [0..<33] \<and>
     sl_objctl s' 8192 = obj_at first 120 33"
proof -
  have "\<exists>s'. slab_create initial_slabs 64 8192 = Inr (s', 8192)"
    by (simp add: slab_create_default initial_slabs_def slab_colors_def Let_def)
  then obtain s' where "slab_create initial_slabs 64 8192 = Inr (s', 8192)" by blast
  from slab_create_chain [OF this] this show ?thesis
    by (auto simp: initial_slabs_def Let_def simp del: obj_chain.simps upt.simps)
qed

section \<open>Allocation and release\<close>

lemma cache_alloc_no_slabs:
  assumes "mutex_ops_work lk ul" and "ca_partial s cache = nullptr" and "ca_freelist s cache = nullptr"
  shows "cache_alloc lk ul s cache = Inl NullDeref"
proof -
  obtain t where "lk s (lock_of cache) = Inr (s\<lparr>sb_mutexes := t\<rparr>)" using assms(1) unfolding mutex_ops_work_def by blast
  then show ?thesis
    using assms(2,3)
    by (auto simp: cache_alloc_def guardE_def empty_list_def pop_front_empty push_back_unsafe_def link_defs)
qed

lemma find_best_cache_single:
  assumes "ilist (sb_links s) (cache_list s) [c]" and "2 \<le> fuel"
  shows "find_best_cache fuel s sz = Inr (if ca_objsize s c = sz then c else nullptr)"
  using assms ilist_nullptr [OF assms(1)]
  by (simp add: find_best_cache_def for_nodes_ilist) (simp add: ilist_def)

text \<open>What a mutex that is free does in the kernel: it can be locked at most once, and never unlocked.\<close>

lemma lock_then_unlock:
  assumes "p \<noteq> 0" and "mt_state t p = FREE" and "sy_words (mt_sys t) p = 0" and "lock_mutex t p = Inr t'"
  shows "unlock_mutex t' p = Inl Deadlock"
proof -
  have clear: "\<not> bit (sy_words (mutex_view t p) 0) 0"
    using assms(3,4)
    by (auto simp: lock_mutex_def mutex_lock_def mutex_lock_with_def spin_lock_def mutex_view_def exec_simps)
  then show ?thesis
    using assms
    by (auto simp: lock_mutex_def unlock_mutex_def mutex_lock_def mutex_unlock_def mutex_lock_with_def mutex_unlock_with_def
        spin_lock_def spin_unlock_def mutex_view_def mutex_put_def do_i_hold_def bit_simps guardE_def exec_simps)
qed

lemma lock_of_free:
  assumes "mt_state t p = FREE" and "sy_words (mt_sys t) p = 0"
  shows "lock_mutex t p = Inl Deadlock \<or> (\<exists>t'. lock_mutex t p = Inr t')"
  using assms by (auto simp: lock_mutex_def mutex_lock_def mutex_lock_with_def spin_lock_def mutex_view_def guardE_def)

text \<open>
  C37. After \<open>kmem::bootstrap\<close> has registered the cache of caches, which owns no slab yet, no
  \<open>kmem::alloc\<close> returns, whatever the size: the guard of \<open>cache_list_lock\<close> (free, its lock word 0)
  locks the mutex and spins forever when it unlocks it again, or spins already when it locks it if
  some lock was taken before. With a mutex that works it would dereference a null pointer instead,
  since the branches of \<open>cache_alloc\<close> never create the first slab of a cache. And \<open>kmem::free\<close> of any
  pointer fails an assertion, because the architecture knows no heap address.
\<close>

theorem kmem_never_allocates:
  assumes "slabcache_cache s \<noteq> nullptr" and "cache_list s = nullptr"
    and "ca_partial s (slabcache_cache s) = nullptr" and "ca_freelist s (slabcache_cache s) = nullptr"
    and "2 \<le> fuel" and "cache_list_lock s \<noteq> 0" and "mt_state (sb_mutexes s) (cache_list_lock s) = FREE"
    and "sy_words (mt_sys (sb_mutexes s)) (cache_list_lock s) = 0"
  shows "\<exists>s'. bootstrap s = Inr s' \<and> ilist (sb_links s') (cache_list s') [slabcache_cache s] \<and>
    kmem_alloc fuel s' sz = Inl Deadlock \<and> kmem_free s' obj = Inl AssertFailed \<and>
    (\<forall>lk ul. mutex_ops_work lk ul \<longrightarrow> kmem_alloc_with lk ul fuel s' sz = Inl NullDeref)"
proof -
  obtain l r where l: "push_back_unsafe (sb_links s) (cache_list s) (slabcache_cache s) = Inr (l, r)"
    "ilist l r [slabcache_cache s]"
    using push_back_ilist [of "sb_links s" "cache_list s" "[]" "slabcache_cache s"] assms(1,2) by auto
  define s' where "s' = s\<lparr>sb_links := l, cache_list := r\<rparr>"
  have lst: "ilist (sb_links s') (cache_list s') [slabcache_cache s]" using l(2) by (simp add: s'_def)
  have best: "find_best_cache fuel (s'\<lparr>sb_mutexes := t\<rparr>) z = Inr (if ca_objsize s' (slabcache_cache s) = z then slabcache_cache s else nullptr)"
    for t z using find_best_cache_single [of "s'\<lparr>sb_mutexes := t\<rparr>", OF _ assms(5)] lst by simp
  have "bootstrap s = Inr s'" using l(1) by (simp add: bootstrap_def s'_def)
  moreover have "kmem_alloc fuel s' sz = Inl Deadlock"
  proof -
    have same: "sb_mutexes s' = sb_mutexes s" "cache_list_lock s' = cache_list_lock s" by (simp_all add: s'_def)
    from lock_of_free [OF assms(7,8)] show ?thesis
      using lock_then_unlock [OF assms(6-8)]
      by (auto simp: kmem_alloc_def kmem_alloc_with_def guard_lock_mutex_def guard_unlock_mutex_def same best Let_def)
  qed
  moreover have "kmem_free s' obj = Inl AssertFailed"
    by (simp add: kmem_free_def kmem_free_with_def is_heap_address_def guardE_def Let_def)
  moreover have "kmem_alloc_with lk ul fuel s' sz = Inl NullDeref" if w: "mutex_ops_work lk ul" for lk ul
  proof -
    obtain f g where fg: "\<forall>s p. lk s p = Inr (s\<lparr>sb_mutexes := f s p\<rparr>)" "\<forall>s p. ul s p = Inr (s\<lparr>sb_mutexes := g s p\<rparr>)"
      using w by (rule mutex_ops_workE)
    have alloc: "cache_alloc lk ul (s'\<lparr>sb_mutexes := u\<rparr>) (slabcache_cache s) = Inl NullDeref" for u
      by (rule cache_alloc_no_slabs [OF w]) (use assms(3,4) in \<open>simp_all add: s'_def\<close>)
    have "slabcache_cache s' = slabcache_cache s" by (simp add: s'_def)
    with alloc fg assms(1) show ?thesis
      by (simp add: kmem_alloc_with_def cache_create_def best Let_def)
  qed
  ultimately show ?thesis using lst by blast
qed

theorem kmem_never_allocates_witness:
  "\<exists>s'. bootstrap initial_slabs = Inr s' \<and> kmem_alloc 2 s' 24 = Inl Deadlock \<and>
     kmem_free s' 4096 = Inl AssertFailed"
  using kmem_never_allocates [of initial_slabs 2 24 4096] by (auto simp: initial_slabs_def two_threads_def)

text \<open>
  With a mutex that works, when a cache has a partial and a free slab, \<open>cache_alloc\<close> takes the first partial slab
  off its list, and if it is not the slab's last object puts the slab on no list again. The
  object returned is not the head of the free chain but the one behind it, which stays on the
  chain: freeing it afterwards links the object to itself.
\<close>

theorem cache_alloc_hands_out_next:
  assumes "mutex_ops_work lk ul" and "cache \<noteq> nullptr" and "ilist (sb_links s) (ca_partial s cache) (p # ps)"
    and "ca_freelist s cache \<noteq> nullptr" and "sl_parent s p = cache"
    and "sl_inuse s p \<noteq> 0" and "sl_inuse s p + 1 \<noteq> ca_nobjects s cache"
    and "sl_objctl s p \<noteq> nullptr" and "obj_next s (sl_objctl s p) \<noteq> nullptr"
  shows "\<exists>s' s''. let obj = obj_next s (sl_objctl s p) in
    cache_alloc lk ul s cache = Inr (s', obj) \<and> sl_objctl s' p = obj \<and> sl_inuse s' p = sl_inuse s p + 1 \<and>
    obj_next s' = obj_next s \<and> ilist (sb_links s') (ca_partial s' cache) ps \<and> p \<notin> set ps \<and>
    ca_freelist s' = ca_freelist s \<and> ca_full s' = ca_full s \<and>
    cache_free lk ul s' p obj = Inr s'' \<and> sl_objctl s'' p = obj \<and> obj_next s'' obj = obj"
proof -
  obtain f g where fg: "\<forall>s p. lk s p = Inr (s\<lparr>sb_mutexes := f s p\<rparr>)" "\<forall>s p. ul s p = Inr (s\<lparr>sb_mutexes := g s p\<rparr>)"
    using assms(1) by (rule mutex_ops_workE)
  define obj where "obj = obj_next s (sl_objctl s p)"
  obtain l r where pop: "pop_front_unsafe (sb_links s) (ca_partial s cache) = Inr (l, r, p)" "ilist l r ps"
    using pop_front_ilist [OF assms(3)] by blast
  have p: "p \<noteq> nullptr" "p \<notin> set ps" "ca_partial s cache \<noteq> nullptr"
    using assms(3) by (auto simp: ilist_Cons)
  define r' where "r' = s\<lparr>sb_links := l, ca_partial := (ca_partial s)(cache := r),
    sl_inuse := (sl_inuse s)(p := sl_inuse s p + 1), sl_time := (sl_time s)(p := 0),
    sl_objctl := (sl_objctl s)(p := obj)\<rparr>"
  have "\<exists>t. cache_alloc lk ul s cache = Inr (r'\<lparr>sb_mutexes := t\<rparr>, obj)"
    using assms(2,4,7,8) p pop(1) by (simp add: cache_alloc_def empty_list_def Let_def r'_def obj_def fg) (rule exI, rule refl)
  then obtain t where "cache_alloc lk ul s cache = Inr (r'\<lparr>sb_mutexes := t\<rparr>, obj)" by blast
  moreover define s' where s'_def: "s' = s\<lparr>sb_links := l, ca_partial := (ca_partial s)(cache := r),
    sl_inuse := (sl_inuse s)(p := sl_inuse s p + 1), sl_time := (sl_time s)(p := 0),
    sl_objctl := (sl_objctl s)(p := obj), sb_mutexes := t\<rparr>"
  ultimately have "cache_alloc lk ul s cache = Inr (s', obj)" by (simp add: r'_def)
  moreover have "sl_inuse s p + 1 \<noteq> 1" using assms(6) by simp
  then have "\<exists>s''. cache_free lk ul s' p obj = Inr s'' \<and> sl_objctl s'' p = obj \<and> obj_next s'' obj = obj"
    using assms(2,5,7,9) p by (simp add: cache_free_def Let_def s'_def obj_def fg)
  moreover have "ilist (sb_links s') (ca_partial s' cache) ps" using pop(2) by (simp add: s'_def)
  ultimately show ?thesis
    unfolding Let_def obj_def [symmetric] using p(2) by (auto simp: s'_def)
qed

definition two_slabs :: slabs where
  "two_slabs = initial_slabs\<lparr>sb_links := \<lparr>nexts = (\<lambda>a. a), prevs = (\<lambda>a. a)\<rparr>,
     ca_partial := (\<lambda>_. 4096), ca_freelist := (\<lambda>_. 8192), sl_parent := (\<lambda>_. 64), sl_inuse := (\<lambda>_. 1),
     sl_objctl := (\<lambda>a. a + 208), obj_next := (\<lambda>a. a + 120)\<rparr>"

text \<open>Lock operations without an effect, for one thread.\<close>

definition no_op :: mutex_op where
  "no_op s p = Inr s"

lemma no_op_works: "mutex_ops_work no_op no_op"
proof -
  have "s = s\<lparr>sb_mutexes := sb_mutexes s\<rparr>" for s :: slabs by simp
  then show ?thesis unfolding mutex_ops_work_def no_op_def by metis
qed

theorem cache_alloc_hands_out_next_witness:
  "\<exists>s' s''. cache_alloc no_op no_op two_slabs 64 = Inr (s', 4424) \<and> sl_objctl s' 4096 = 4424 \<and>
     cache_free no_op no_op s' 4096 4424 = Inr s'' \<and> obj_next s'' 4424 = 4424"
proof -
  have "ilist (sb_links two_slabs) (ca_partial two_slabs 64) [4096]"
    by (simp add: two_slabs_def ilist_Cons cyc_single)
  from cache_alloc_hands_out_next [OF no_op_works _ this] show ?thesis
    by (auto simp: two_slabs_def initial_slabs_def Let_def)
qed

end
