(* ===== verification/Core_Runtime.thy ===== *)
theory Core_Runtime
  imports Core_Slab
begin

text \<open>
  The C++ run-time support: \<open>lib/ebl/cxxabi.cc\<close> and \<open>operator delete\<close> and placement \<open>new\<close> of
  \<open>lib/ebl/new.cc\<close> and \<open>new.h\<close>. The guard of a function-local static is a 64-bit variable whose first
  byte says that the initialisation is done. The code the compiler puts around an initialisation
  asks \<open>__cxa_guard_acquire\<close>, runs the constructor when the result is not 0, and calls
  \<open>__cxa_guard_release\<close>.
\<close>

section \<open>Operations\<close>

text \<open>Registered destructors are never run: the result says success, and nothing is stored.\<close>

definition cxa_atexit :: "vaddr_t \<Rightarrow> vaddr_t \<Rightarrow> vaddr_t \<Rightarrow> u32" where
  "cxa_atexit f objptr dso = 0"

definition cxa_guard_acquire :: "(vaddr_t \<Rightarrow> u8) \<Rightarrow> vaddr_t \<Rightarrow> u32" where
  "cxa_guard_acquire m g = (if m g = 0 then 1 else 0)"

definition cxa_guard_release :: "(vaddr_t \<Rightarrow> u8) \<Rightarrow> vaddr_t \<Rightarrow> (vaddr_t \<Rightarrow> u8)" where
  "cxa_guard_release m g = m(g := 1)"

definition cxa_guard_abort :: "(vaddr_t \<Rightarrow> u8) \<Rightarrow> vaddr_t \<Rightarrow> (vaddr_t \<Rightarrow> u8)" where
  "cxa_guard_abort m g = m"

definition operator_delete :: "slabs \<Rightarrow> vaddr_t \<Rightarrow> slabs exec" where
  "operator_delete s ptr = kmem_free s ptr"

definition placement_new :: "u64 \<Rightarrow> vaddr_t \<Rightarrow> vaddr_t" where
  "placement_new sz ptr = ptr"

section \<open>Initialisation of statics\<close>

text \<open>
  Threads that pass the declaration of one static: each has the result of its \<open>acquire\<close> once it has
  asked, and is done after it has constructed and released or has skipped both. \<open>gs_built\<close> counts
  the runs of the constructor.
\<close>

datatype init_pc = Asking | Building | Passed

record guarded =
  gs_mem :: "vaddr_t \<Rightarrow> u8"
  gs_guard :: vaddr_t
  gs_pc :: "init_pc list"
  gs_built :: nat

inductive init_step :: "guarded \<Rightarrow> guarded \<Rightarrow> bool" where
  init_ask: "i < length (gs_pc s) \<Longrightarrow> gs_pc s ! i = Asking \<Longrightarrow>
    init_step s (s\<lparr>gs_pc := (gs_pc s)[i := if cxa_guard_acquire (gs_mem s) (gs_guard s) \<noteq> 0 then Building else Passed]\<rparr>)"
| init_build: "i < length (gs_pc s) \<Longrightarrow> gs_pc s ! i = Building \<Longrightarrow>
    init_step s (s\<lparr>gs_pc := (gs_pc s)[i := Passed], gs_mem := cxa_guard_release (gs_mem s) (gs_guard s),
      gs_built := gs_built s + 1\<rparr>)"

text \<open>A single thread that passes the declaration any number of times.\<close>

fun pass_static :: "nat \<Rightarrow> (vaddr_t \<Rightarrow> u8) \<Rightarrow> vaddr_t \<Rightarrow> nat \<Rightarrow> (vaddr_t \<Rightarrow> u8) \<times> nat" where
  "pass_static 0 m g built = (m, built)"
| "pass_static (Suc n) m g built =
     (if cxa_guard_acquire m g \<noteq> 0 then pass_static n (cxa_guard_release m g) g (built + 1)
      else pass_static n m g built)"

lemma pass_static_done: "m g \<noteq> 0 \<Longrightarrow> pass_static n m g built = (m, built)"
  by (induction n) (simp_all add: cxa_guard_acquire_def)

text \<open>
  On one thread a static is constructed exactly once, however often its declaration is passed. With
  two threads it can be constructed twice: \<open>acquire\<close> only reads the guard, so a second thread that
  asks before the first has released is told to construct as well.
\<close>

theorem static_built_once:
  assumes "m g = 0" and "0 < n"
  shows "snd (pass_static n m g 0) = 1 \<and>
    (\<exists>s. init_step\<^sup>*\<^sup>* \<lparr>gs_mem = m, gs_guard = g, gs_pc = [Asking, Asking], gs_built = 0\<rparr> s \<and> gs_built s = 2)"
proof -
  obtain k where "n = Suc k" using assms(2) by (cases n) auto
  then have once: "snd (pass_static n m g 0) = 1"
    using assms(1) by (simp add: cxa_guard_acquire_def cxa_guard_release_def pass_static_done)
  let ?s0 = "\<lparr>gs_mem = m, gs_guard = g, gs_pc = [Asking, Asking], gs_built = 0\<rparr>"
  let ?s1 = "?s0\<lparr>gs_pc := [Building, Asking]\<rparr>" and ?s2 = "?s0\<lparr>gs_pc := [Building, Building]\<rparr>"
  let ?s3 = "?s2\<lparr>gs_pc := [Passed, Building], gs_mem := m(g := 1), gs_built := 1\<rparr>"
  let ?s4 = "?s3\<lparr>gs_pc := [Passed, Passed], gs_mem := m(g := 1), gs_built := 2\<rparr>"
  have "init_step ?s0 ?s1" using init_ask [of 0 ?s0] assms(1) by (simp add: cxa_guard_acquire_def)
  moreover have "init_step ?s1 ?s2" using init_ask [of 1 ?s1] assms(1) by (simp add: cxa_guard_acquire_def)
  moreover have "init_step ?s2 ?s3" using init_build [of 0 ?s2] by (simp add: cxa_guard_release_def)
  moreover have "init_step ?s3 ?s4" using init_build [of 1 ?s3] by (simp add: cxa_guard_release_def numeral_2_eq_2)
  ultimately have "init_step\<^sup>*\<^sup>* ?s0 ?s4" by (meson rtranclp.rtrancl_into_rtrancl rtranclp.rtrancl_refl)
  then show ?thesis using once by (intro conjI exI [of _ ?s4]) simp_all
qed

theorem static_built_once_witness: "snd (pass_static 5 (\<lambda>_. 0) 0x40 0) = 1"
  using static_built_once [of "\<lambda>_. 0" "0x40" 5] by simp

end
