(* ===== verification/Loader_Entry.thy ===== *)
theory Loader_Entry
  imports Loader_Boot Platform_Console
begin

text \<open>
  The loader's \<open>main\<close> with everything it does besides building the kernel's address space: the
  static constructors, the programming of the serial ports, the control registers for SSE
  instructions, and its messages (\<open>loader/x86-64-multiboot2/main.cc\<close> and \<open>mem.cc\<close>). The constructors of
  \<open>.init_array\<close> are a parameter, and \<open>lit\<close> gives the addresses of the string literals.
\<close>

section \<open>State and operations\<close>














section \<open>Control registers\<close>






section \<open>The messages\<close>




















section \<open>Properties\<close>





end
