(* ===== verification/Loader_Switch.thy ===== *)
theory Loader_Switch
  imports Loader_Boot Arch_Interrupts
begin

text \<open>
  \<open>_start\<close> and \<open>enter_longmode\<close> of \<open>loader/x86-64-multiboot2/start.asm\<close>: the call of \<open>main\<close>, and the switch from 32-bit mode without paging
  to 64-bit mode with the page tables the loader has built, and the call of the kernel's entry
  point. The model follows the instructions. The bytes of physical memory are in \<open>bc_mem\<close>, the words
  of the page tables in the argument \<open>tables\<close>, and \<open>code\<close> is the address of \<open>enter_longmode\<close>. Once \<open>CR0.PG\<close>
  is set every access, instruction fetches included, goes through the page tables.
\<close>

section \<open>The processor\<close>

record boot_cpu =
  bc_cr0 :: u32
  bc_cr3 :: u64
  bc_cr4 :: u32
  bc_efer :: u64
  bc_gdtr :: table_ptr
  bc_cs :: u16
  bc_data :: u16
  bc_ss :: u16
  bc_rdi :: u64
  bc_rsp :: u64
  bc_rip :: u64
  bc_mem :: mem

definition paging_on :: "boot_cpu \<Rightarrow> bool" where
  "paging_on c \<longleftrightarrow> bit (bc_cr0 c) 31"

definition linear :: "(paddr_t \<Rightarrow> u64) \<Rightarrow> boot_cpu \<Rightarrow> vaddr_t \<Rightarrow> paddr_t exec" where
  "linear tables c v =
     (if paging_on c then case translate tables (bc_cr3 c) v of None \<Rightarrow> Inl PageFault | Some a \<Rightarrow> Inr a else Inr v)"

fun read_bytes :: "(paddr_t \<Rightarrow> u64) \<Rightarrow> boot_cpu \<Rightarrow> vaddr_t \<Rightarrow> nat \<Rightarrow> u64 exec" where
  "read_bytes tables c v 0 = Inr 0"
| "read_bytes tables c v (Suc n) =
     bindE (linear tables c v) (\<lambda>a.
     bindE (read_bytes tables c (v + 1) n) (\<lambda>w. Inr (ucast (bc_mem c a) + 256 * w)))"

fun write_bytes :: "(paddr_t \<Rightarrow> u64) \<Rightarrow> vaddr_t \<Rightarrow> nat \<Rightarrow> u64 \<Rightarrow> boot_cpu \<Rightarrow> boot_cpu exec" where
  "write_bytes tables v 0 w c = Inr c"
| "write_bytes tables v (Suc n) w c =
     bindE (linear tables c v) (\<lambda>a.
     write_bytes tables (v + 1) n (drop_bit 8 w) (c\<lparr>bc_mem := (bc_mem c)(a := ucast w)\<rparr>))"

text \<open>The descriptor of a selector; both kinds must be present and not system descriptors.\<close>

definition descriptor :: "(paddr_t \<Rightarrow> u64) \<Rightarrow> boot_cpu \<Rightarrow> u16 \<Rightarrow> u64 exec" where
  "descriptor tables c sel =
     guardE (sel + 7 \<le> tp_limit (bc_gdtr c)) ProtectionFault
     (bindE (read_bytes tables c (tp_base (bc_gdtr c) + ucast sel) 8) (\<lambda>d.
      guardE (bit d 47 \<and> bit d 44) ProtectionFault (Inr d)))"

text \<open>A far jump to a 64-bit code segment, and a load of a writable data segment.\<close>

definition load_cs64 :: "(paddr_t \<Rightarrow> u64) \<Rightarrow> u16 \<Rightarrow> boot_cpu \<Rightarrow> boot_cpu exec" where
  "load_cs64 tables sel c =
     bindE (descriptor tables c sel) (\<lambda>d.
     guardE (bit d 43 \<and> bit d 53 \<and> \<not> bit d 54) ProtectionFault (Inr (c\<lparr>bc_cs := sel\<rparr>)))"

definition load_data :: "(paddr_t \<Rightarrow> u64) \<Rightarrow> u16 \<Rightarrow> boot_cpu \<Rightarrow> boot_cpu exec" where
  "load_data tables sel c =
     bindE (descriptor tables c sel) (\<lambda>d.
     guardE (\<not> bit d 43 \<and> bit d 41) ProtectionFault (Inr (c\<lparr>bc_data := sel, bc_ss := sel\<rparr>)))"

definition lgdt :: "(paddr_t \<Rightarrow> u64) \<Rightarrow> vaddr_t \<Rightarrow> boot_cpu \<Rightarrow> boot_cpu exec" where
  "lgdt tables p c =
     bindE (read_bytes tables c p 2) (\<lambda>limit.
     bindE (read_bytes tables c (p + 2) 4) (\<lambda>base.
     Inr (c\<lparr>bc_gdtr := \<lparr>tp_limit = ucast limit, tp_base = base\<rparr>\<rparr>)))"

text \<open>The instructions behind the one that sets \<open>CR0.PG\<close> are fetched at the same addresses.\<close>

definition fetch_ok :: "(paddr_t \<Rightarrow> u64) \<Rightarrow> boot_cpu \<Rightarrow> vaddr_t \<Rightarrow> bool" where
  "fetch_ok tables c code \<longleftrightarrow> (\<forall>d \<in> set [0..<128]. linear tables c (code + of_nat d) = Inr (code + of_nat d))"

definition enter_longmode :: "(paddr_t \<Rightarrow> u64) \<Rightarrow> vaddr_t \<Rightarrow> boot_cpu \<Rightarrow> boot_cpu exec" where
  "enter_longmode tables code c =
     (let esp = bc_rsp c in
      bindE (read_bytes tables c (esp + 4) 4) (\<lambda>eax.
      let c = c\<lparr>bc_cr3 := eax\<rparr>;
          c = c\<lparr>bc_cr4 := bc_cr4 c OR 0x20\<rparr>;
          c = c\<lparr>bc_efer := bc_efer c OR 0x100\<rparr>;
          c = c\<lparr>bc_cr0 := bc_cr0 c OR 0x80000001\<rparr> in
      guardE (fetch_ok tables c code) PageFault
      (bindE (read_bytes tables c (esp + 8) 4) (\<lambda>eax.
       bindE (lgdt tables eax c) (\<lambda>c.
       bindE (load_cs64 tables 0x08 c) (\<lambda>c.
       bindE (load_data tables 0x10 c) (\<lambda>c.
       bindE (read_bytes tables c (esp + 20) 8) (\<lambda>rdi.
       bindE (read_bytes tables c (esp + 12) 8) (\<lambda>rax.
       bindE (read_bytes tables c (esp + 28) 8) (\<lambda>rsp.
       let c = c\<lparr>bc_rdi := rdi, bc_rsp := rsp - 8\<rparr> in
       bindE (write_bytes tables (rsp - 8) 8 (bc_rip c) c) (\<lambda>c.
       Inr (c\<lparr>bc_rip := rax\<rparr>))))))))))))"

text \<open>The arguments on the stack behind the return address, and the descriptor table in memory.\<close>

definition longmode_call :: "mem \<Rightarrow> vaddr_t \<Rightarrow> u32 \<Rightarrow> u32 \<Rightarrow> u64 \<Rightarrow> u64 \<Rightarrow> u64 \<Rightarrow> bool" where
  "longmode_call m esp pml4 gdt_ptr entry state stack \<longleftrightarrow>
     load_le m (esp + 4) 4 = ucast pml4 \<and> load_le m (esp + 8) 4 = ucast gdt_ptr \<and> load_le m (esp + 12) 8 = entry \<and>
     load_le m (esp + 20) 8 = state \<and> load_le m (esp + 28) 8 = stack"

definition gdt_stored :: "mem \<Rightarrow> vaddr_t \<Rightarrow> vaddr_t \<Rightarrow> bool" where
  "gdt_stored m gdt_ptr gdt \<longleftrightarrow>
     load_le m gdt_ptr 2 = ucast (tp_limit (loader_gdt_ptr gdt)) \<and> load_le m (gdt_ptr + 2) 4 = tp_base (loader_gdt_ptr gdt) \<and>
     (\<forall>i < 3. load_le m (gdt + of_nat (8 * i)) 8 = gdt_word (loader_gdt ! i))"

section \<open>The entry of the loader\<close>

text \<open>
  \<open>_start\<close>: interrupts off, a stack, cleared flags, and the call of \<open>main\<close> with the two registers the
  boot loader has set. The memory is that of 32-bit words at multiples of four; \<open>ret\<close> is the return
  address.
\<close>

record start_cpu =
  sc_eax :: u32
  sc_ebx :: u32
  sc_esp :: u32
  sc_eflags :: u32
  sc_mem :: "u32 \<Rightarrow> u32"

definition push32 :: "u32 \<Rightarrow> start_cpu \<Rightarrow> start_cpu" where
  "push32 v c = (let esp = sc_esp c - 4 in c\<lparr>sc_esp := esp, sc_mem := (sc_mem c)(esp := v)\<rparr>)"

definition popf32 :: "start_cpu \<Rightarrow> start_cpu" where
  "popf32 c = c\<lparr>sc_eflags := sc_mem c (sc_esp c), sc_esp := sc_esp c + 4\<rparr>"

definition loader_start :: "u32 \<Rightarrow> u32 \<Rightarrow> start_cpu \<Rightarrow> start_cpu" where
  "loader_start stack_top ret c =
     (let c = c\<lparr>sc_eflags := sc_eflags c AND NOT 0x200\<rparr>;
          c = c\<lparr>sc_esp := stack_top\<rparr>;
          c = push32 0 c;
          c = popf32 c;
          c = push32 (sc_ebx c) c;
          c = push32 (sc_eax c) c
      in push32 ret c)"

text \<open>\<open>main(sig, ptr)\<close> finds the magic number and the boot information behind the return address.\<close>

lemma loader_start_arguments:
  fixes c :: start_cpu and stack_top ret :: u32
  defines "d \<equiv> loader_start stack_top ret c"
  shows "sc_mem d (sc_esp d) = ret" and "sc_mem d (sc_esp d + 4) = sc_eax c" and "sc_mem d (sc_esp d + 8) = sc_ebx c"
    and "sc_eflags d = 0" and "sc_esp d = stack_top - 12"
  by (simp_all add: d_def loader_start_def push32_def popf32_def Let_def)

section \<open>Accesses\<close>

lemma read_bytes_load:
  assumes "\<forall>d < n. linear tables c (v + of_nat d) = Inr (v + of_nat d)"
  shows "read_bytes tables c v n = Inr (load_le (bc_mem c) v n)"
  using assms
proof (induction n arbitrary: v)
  case (Suc n)
  have "linear tables c v = Inr v" using Suc.prems [rule_format, of 0] by simp
  moreover have "\<forall>d < n. linear tables c (v + 1 + of_nat d) = Inr (v + 1 + of_nat d)"
    using Suc.prems [rule_format, of "Suc _"] by (simp add: add.assoc)
  ultimately show ?case using Suc.IH by simp
qed simp

text \<open>Memory below two megabytes is mapped to itself.\<close>

definition low_mapped :: "(paddr_t \<Rightarrow> u64) \<Rightarrow> boot_cpu \<Rightarrow> bool" where
  "low_mapped tables c \<longleftrightarrow> (\<forall>d < 0x200000. linear tables c (of_nat d) = Inr (of_nat d))"

lemma low_linear:
  assumes "low_mapped tables c" and "unat v + n \<le> 0x200000" and "d < n"
  shows "linear tables c (v + of_nat d) = Inr (v + of_nat d)"
proof -
  have eq: "v + of_nat d = of_nat (unat v + d)" by simp
  have "unat v + d < 0x200000" using assms(2,3) by simp
  then show ?thesis using assms(1) unfolding low_mapped_def eq by blast
qed

lemma low_read:
  assumes "low_mapped tables c" and "unat v + n \<le> 0x200000"
  shows "read_bytes tables c v n = Inr (load_le (bc_mem c) v n)"
  by (rule read_bytes_load) (use low_linear [OF assms] in blast)

lemma write_bytes_ok:
  assumes "\<forall>d < n. \<exists>a. linear tables c (v + of_nat d) = Inr a"
  shows "\<exists>m. write_bytes tables v n w c = Inr (c\<lparr>bc_mem := m\<rparr>)"
  using assms
proof (induction n arbitrary: v w c)
  case 0
  have "c = c\<lparr>bc_mem := bc_mem c\<rparr>" by simp
  then show ?case by (metis write_bytes.simps(1))
next
  case (Suc n)
  obtain a where a: "linear tables c v = Inr a" using Suc.prems by fastforce
  let ?c = "c\<lparr>bc_mem := (bc_mem c)(a := ucast w)\<rparr>"
  have "linear tables ?c = linear tables c" by (simp add: fun_eq_iff linear_def paging_on_def)
  then have "\<forall>d < n. \<exists>a. linear tables ?c (v + 1 + of_nat d) = Inr a"
    using Suc.prems [rule_format, of "Suc _"] by (simp add: add.assoc)
  from Suc.IH [OF this] a show ?case by auto
qed

lemma loader_descriptors:
  "bit (gdt_word (loader_gdt ! 1)) 47" "bit (gdt_word (loader_gdt ! 1)) 44" "bit (gdt_word (loader_gdt ! 1)) 43"
  "bit (gdt_word (loader_gdt ! 1)) 53" "\<not> bit (gdt_word (loader_gdt ! 1)) 54"
  "bit (gdt_word (loader_gdt ! 2)) 47" "bit (gdt_word (loader_gdt ! 2)) 44" "\<not> bit (gdt_word (loader_gdt ! 2)) 43"
  "bit (gdt_word (loader_gdt ! 2)) 41"
  by code_simp+

text \<open>Segment registers and general registers play no part in the translation.\<close>

lemma linear_upd [simp]: "linear tables (c\<lparr>bc_gdtr := g\<rparr>) = linear tables c" "linear tables (c\<lparr>bc_cs := x\<rparr>) = linear tables c"
  "linear tables (c\<lparr>bc_data := x\<rparr>) = linear tables c" "linear tables (c\<lparr>bc_ss := x\<rparr>) = linear tables c"
  "linear tables (c\<lparr>bc_rdi := v\<rparr>) = linear tables c" "linear tables (c\<lparr>bc_rsp := v\<rparr>) = linear tables c"
  by (simp_all add: fun_eq_iff linear_def paging_on_def)

lemma unat_add_le: "unat (v :: u64) + k \<le> n \<Longrightarrow> n < 2 ^ 64 \<Longrightarrow> unat (v + of_nat k) = unat v + k"
  by (simp add: unat_word_ariths unat_of_nat)

text \<open>The descriptor table is loaded and its segments are what the code needs.\<close>

lemma segments_loaded:
  assumes low: "low_mapped tables c" and gdt: "gdt_stored (bc_mem c) p gdt" "unat p + 6 \<le> 0x200000" "unat gdt + 24 \<le> 0x200000"
  shows "bindE (lgdt tables p c) (\<lambda>c. bindE (load_cs64 tables 0x08 c) (load_data tables 0x10)) =
    Inr (c\<lparr>bc_gdtr := loader_gdt_ptr gdt, bc_cs := 0x08, bc_data := 0x10, bc_ss := 0x10\<rparr>)"
proof -
  have words: "load_le (bc_mem c) (gdt + 8) 8 = gdt_word (loader_gdt ! 1)" "load_le (bc_mem c) (gdt + 16) 8 = gdt_word (loader_gdt ! 2)"
    using gdt(1) unfolding gdt_stored_def by (auto dest: spec [of _ 1] spec [of _ 2])
  have p: "tp_limit (loader_gdt_ptr gdt) = 23" "tp_base (loader_gdt_ptr gdt) = gdt" by (simp_all add: loader_gdt_ptr_def loader_gdt_def)
  have at: "unat (p + 2) + 4 \<le> 0x200000" "unat (gdt + 8) + 8 \<le> 0x200000" "unat (gdt + 16) + 8 \<le> 0x200000"
    using unat_add_le [of p 2 "0x200000"] unat_add_le [of gdt 8 "0x200000"] unat_add_le [of gdt 16 "0x200000"] gdt(2,3) by simp_all
  have low': "low_mapped tables (c\<lparr>bc_gdtr := g\<rparr>)" "low_mapped tables (c\<lparr>bc_gdtr := g, bc_cs := s\<rparr>)" for g s
    using low by (simp_all add: low_mapped_def)
  have "lgdt tables p c = Inr (c\<lparr>bc_gdtr := loader_gdt_ptr gdt\<rparr>)"
    using gdt(1,2) low_read [OF low, of p 2] low_read [OF low at(1)] by (simp add: lgdt_def gdt_stored_def p)
  moreover have "load_cs64 tables 0x08 (c\<lparr>bc_gdtr := loader_gdt_ptr gdt\<rparr>) = Inr (c\<lparr>bc_gdtr := loader_gdt_ptr gdt, bc_cs := 0x08\<rparr>)"
    using low_read [OF low'(1) at(2), of "loader_gdt_ptr gdt"] loader_descriptors(1-5)
    by (simp add: load_cs64_def descriptor_def p words del: nth_Cons_numeral)
  moreover have "load_data tables 0x10 (c\<lparr>bc_gdtr := loader_gdt_ptr gdt, bc_cs := 0x08\<rparr>) =
      Inr (c\<lparr>bc_gdtr := loader_gdt_ptr gdt, bc_cs := 0x08, bc_data := 0x10, bc_ss := 0x10\<rparr>)"
    using low_read [OF low'(2) [where g = "loader_gdt_ptr gdt" and s = 8] at(3)] loader_descriptors(6-9)
    by (simp add: load_data_def descriptor_def p words)
  ultimately show ?thesis
    by simp
qed

section \<open>Properties\<close>

text \<open>The registers once paging and long mode are on.\<close>

definition switched :: "u32 \<Rightarrow> boot_cpu \<Rightarrow> boot_cpu" where
  "switched pml4 c = c\<lparr>bc_cr3 := ucast pml4, bc_cr4 := bc_cr4 c OR 0x20, bc_efer := bc_efer c OR 0x100,
     bc_cr0 := bc_cr0 c OR 0x80000001\<rparr>"

lemma longmode_runs:
  fixes c :: boot_cpu and pml4 :: u32
  defines "c1 \<equiv> switched pml4 c"
  assumes off: "\<not> paging_on c" and call: "longmode_call (bc_mem c) (bc_rsp c) pml4 gdt_ptr entry state stack"
    and gdt: "gdt_stored (bc_mem c) (ucast gdt_ptr) gdt" "unat gdt_ptr + 6 \<le> 0x200000" "unat gdt + 24 \<le> 0x200000"
    and low: "low_mapped tables c1" "unat (bc_rsp c) + 36 \<le> 0x200000" "unat code + 128 \<le> 0x200000"
    and stack: "\<forall>d < 8. \<exists>a. linear tables c1 (stack - 8 + of_nat d) = Inr a"
  shows "\<exists>m. enter_longmode tables code c = Inr (c1\<lparr>bc_gdtr := loader_gdt_ptr gdt, bc_cs := 0x08, bc_data := 0x10, bc_ss := 0x10,
    bc_rdi := state, bc_rsp := stack - 8, bc_mem := m, bc_rip := entry\<rparr>)"
proof -
  let ?esp = "bc_rsp c" and ?c2 = "c1\<lparr>bc_gdtr := loader_gdt_ptr gdt, bc_cs := 0x08, bc_data := 0x10, bc_ss := 0x10\<rparr>"
  have at: "unat (?esp + of_nat k) + n \<le> 0x200000" if "k + n \<le> 36" for k n
    using unat_add_le [of ?esp k "0x200000"] low(2) that by simp
  have args: "load_le (bc_mem c) (?esp + 4) 4 = ucast pml4" "load_le (bc_mem c) (?esp + 8) 4 = ucast gdt_ptr"
    "load_le (bc_mem c) (?esp + 12) 8 = entry" "load_le (bc_mem c) (?esp + 20) 8 = state" "load_le (bc_mem c) (?esp + 28) 8 = stack"
    using call by (simp_all add: longmode_call_def)
  have mem: "bc_mem c1 = bc_mem c" "bc_mem ?c2 = bc_mem c" by (simp_all add: c1_def switched_def)
  have low2: "low_mapped tables ?c2" using low(1) by (simp add: low_mapped_def)
  have "linear tables c v = Inr v" for v using off by (simp add: linear_def)
  then have r0: "read_bytes tables c (?esp + 4) 4 = Inr (ucast pml4)" using read_bytes_load [of 4 tables c "?esp + 4"] args(1) by simp
  have r1: "read_bytes tables c1 (?esp + 8) 4 = Inr (ucast gdt_ptr)" using low_read [OF low(1) at [of 8 4]] args(2) mem(1) by simp
  have r2: "read_bytes tables ?c2 (?esp + 20) 8 = Inr state" "read_bytes tables ?c2 (?esp + 12) 8 = Inr entry"
    "read_bytes tables ?c2 (?esp + 28) 8 = Inr stack"
    using low_read [OF low2 at [of 20 8]] low_read [OF low2 at [of 12 8]] low_read [OF low2 at [of 28 8]] args(3-5) mem(2) by simp_all
  have "unat (ucast gdt_ptr :: u64) + 6 \<le> 0x200000" using gdt(2) by (simp add: unat_ucast_widen)
  then have "bindE (lgdt tables (ucast gdt_ptr) c1) (\<lambda>c. bindE (load_cs64 tables 0x08 c) (load_data tables 0x10)) = Inr ?c2"
    using segments_loaded [OF low(1)] gdt(1,3) mem(1) by simp
  then obtain ca cb where seg: "lgdt tables (ucast gdt_ptr) c1 = Inr ca" "load_cs64 tables 0x08 ca = Inr cb" "load_data tables 0x10 cb = Inr ?c2"
    by (auto simp: exec_simps)
  have fetch: "fetch_ok tables c1 code" using low_linear [OF low(1,3)] by (simp add: fetch_ok_def del: upt_rec_numeral)
  let ?c3 = "?c2\<lparr>bc_rdi := state, bc_rsp := stack - 8\<rparr>"
  have "\<forall>d < 8. \<exists>a. linear tables ?c3 (stack - 8 + of_nat d) = Inr a" using stack by simp
  from write_bytes_ok [OF this] obtain m where "write_bytes tables (stack - 8) 8 (bc_rip ?c3) ?c3 = Inr (?c3\<lparr>bc_mem := m\<rparr>)" by blast
  then have "enter_longmode tables code c = Inr (?c3\<lparr>bc_mem := m, bc_rip := entry\<rparr>)"
    using r0 fetch r1 r2 seg unfolding enter_longmode_def c1_def switched_def by (simp add: Let_def)
  then show ?thesis by auto
qed
lemma main_pml4:
  assumes "loader_main fuel b m lits cxkernel s sig ptr = Inr h"
  shows "ucast (ucast (ho_pml4 h) :: u32) = ho_pml4 h"
proof -
  have "ucast (ucast (as_ptr p) :: u32) = as_ptr p" for p
    unfolding as_ptr_def by (rule bit_word_eqI) (auto simp: bit_simps)
  moreover have "\<exists>p. ho_pml4 h = as_ptr p"
    using assms by (auto simp: loader_main_def start_kernel_def setup_paging_def clear_memory_def exec_simps Let_def case_prod_unfold)
  ultimately show ?thesis by auto
qed

lemma switched_linear:
  assumes "ucast pml4 = ld_pml4 s"
  shows "linear (ld_mem s) (switched pml4 c) v = (case mapper_trans s v of None \<Rightarrow> Inl PageFault | Some a \<Rightarrow> Inr a)"
proof -
  have "bit (0x80000001 :: u32) 31" by code_simp
  then have "paging_on (switched pml4 c)" by (simp add: paging_on_def switched_def bit_simps)
  then show ?thesis using assms by (simp add: linear_def mapper_trans_def switched_def)
qed

text \<open>
  C3. The switch to the kernel works. When \<open>main\<close> has ended with the hand-over \<open>h\<close>, and \<open>enter_longmode\<close> is
  called with its arguments on a stack below two megabytes, where the code and the descriptor table
  are, too, then no instruction faults while paging and 64-bit mode are turned on, and the processor
  arrives at the entry point of the ELF image, in 64-bit mode with the loader's page tables and
  segments, with the address of the loader state in \<open>rdi\<close> and on the kernel's stack; all other
  bits of the control registers are unchanged.
\<close>

theorem kernel_entered:
  assumes "boot_found fuel b m cxkernel s ptr module mmap s1" and "database_ok fuel s s1"
    and "kernel_ok fuel m lits (ucast (mod_start b module)) s1 ctx"
    and "loader_main fuel b m lits cxkernel s MULTIBOOT2_BOOTLOADER_MAGIC ptr = Inr h" and "\<not> paging_on c"
    and "longmode_call (bc_mem c) (bc_rsp c) (ucast (ho_pml4 h)) gdt_ptr (ho_entry h) state kernel_stack_base"
    and "gdt_stored (bc_mem c) (ucast gdt_ptr) gdt" and "unat gdt_ptr + 6 \<le> 0x200000" and "unat gdt + 24 \<le> 0x200000"
    and "unat (bc_rsp c) + 36 \<le> 0x200000" and "unat code + 128 \<le> 0x200000"
  shows "\<exists>m'. enter_longmode (ld_mem (ho_loader h)) code c =
    Inr (c\<lparr>bc_cr3 := ho_pml4 h, bc_cr4 := bc_cr4 c OR 0x20, bc_efer := bc_efer c OR 0x100, bc_cr0 := bc_cr0 c OR 0x80000001,
      bc_gdtr := loader_gdt_ptr gdt, bc_cs := 0x08, bc_data := 0x10, bc_ss := 0x10, bc_rdi := state,
      bc_rsp := kernel_stack_base - 8, bc_mem := m', bc_rip := e_entry (read_ehdr m (cx_img ctx))\<rparr>)"
proof -
  let ?s = "ho_loader h" and ?p = "ucast (ho_pml4 h) :: u32"
  obtain h' where "loader_main fuel b m lits cxkernel s MULTIBOOT2_BOOTLOADER_MAGIC ptr = Inr h'"
    "kernel_space (ho_loader h') (ho_mem h') m (cx_img ctx) (get_phdrs m ctx)" "ho_pml4 h' = ld_pml4 (ho_loader h')"
    "ho_entry h' = e_entry (read_ehdr m (cx_img ctx))" using loader_main_runs [OF assms(1-3)] by blast
  then have h: "kernel_space ?s (ho_mem h) m (cx_img ctx) (get_phdrs m ctx)" "ho_pml4 h = ld_pml4 ?s"
    "ho_entry h = e_entry (read_ehdr m (cx_img ctx))" using assms(4) by simp_all
  have cr3: "ucast ?p = ld_pml4 ?s" using main_pml4 [OF assms(4)] h(2) by simp
  have low: "low_mapped (ld_mem ?s) (switched ?p c)"
    using h(1) by (simp add: low_mapped_def switched_linear [OF cr3] kernel_space_def)
  obtain stack where st: "\<forall>d < 4096. mapper_trans ?s (kernel_stack_limit + of_nat d) = Some (stack + of_nat d)"
    using h(1) by (auto simp: kernel_space_def)
  have "mapper_trans ?s (kernel_stack_limit + of_nat (4080 + d)) = Some (stack + of_nat (4080 + d))" if "d < 8" for d
    by (rule st [rule_format]) (use that in simp)
  moreover have "kernel_stack_base - 8 + of_nat d = kernel_stack_limit + of_nat (4080 + d)" for d by (simp add: kernel_stack_base_def)
  ultimately have "\<forall>d < 8. \<exists>a. linear (ld_mem ?s) (switched ?p c) (kernel_stack_base - 8 + of_nat d) = Inr a"
    by (simp only: switched_linear [OF cr3]) simp
  from longmode_runs [OF assms(5,6,7,8,9) low assms(10,11) this] show ?thesis
    using h(3) main_pml4 [OF assms(4)] by (simp add: switched_def)
qed

text \<open>
  At the first instruction of the kernel the stack pointer is a multiple of 16; the calling
  convention wants the address above the return address to be one.
\<close>

lemma entry_stack_misaligned: "(kernel_stack_base - 8) mod 16 = 0" "kernel_stack_base mod 16 \<noteq> 0"
  by code_simp+
text \<open>A stack frame and a descriptor table, written into memory.\<close>

fun put_le :: "vaddr_t \<Rightarrow> nat \<Rightarrow> u64 \<Rightarrow> mem \<Rightarrow> mem" where
  "put_le p 0 w m = m"
| "put_le p (Suc n) w m = (put_le (p + 1) n (drop_bit 8 w) m)(p := ucast w)"

lemma put_le_other: "\<forall>j < n. a \<noteq> p + of_nat j \<Longrightarrow> put_le p n w m a = m a"
proof (induction n arbitrary: p w)
  case (Suc n)
  have "a \<noteq> p" using Suc.prems [rule_format, of 0] by simp
  moreover have "\<forall>j < n. a \<noteq> p + 1 + of_nat j" using Suc.prems [rule_format, of "Suc _"] by (simp add: add.assoc)
  ultimately show ?case using Suc.IH by simp
qed simp

lemma load_put_same: "n \<le> 8 \<Longrightarrow> load_le (put_le p n w m) p n = take_bit (8 * n) w"
proof (induction n arbitrary: p w)
  case (Suc n)
  have "load_le (put_le p (Suc n) w m) (p + 1) n = load_le (put_le (p + 1) n (drop_bit 8 w) m) (p + 1) n"
  proof (rule load_le_agree, intro allI impI)
    fix i assume "i < n"
    then have "unat (of_nat (Suc i) :: u64) \<noteq> 0" using Suc.prems by (simp add: unat_of_nat del: of_nat_Suc)
    then have "p + of_nat (Suc i) \<noteq> p" by (metis add_cancel_right_right unat_0)
    then show "put_le p (Suc n) w m (p + 1 + of_nat i) = put_le (p + 1) n (drop_bit 8 w) m (p + 1 + of_nat i)" by (simp add: add.assoc)
  qed
  then have "load_le (put_le p (Suc n) w m) p (Suc n) = ucast (ucast w :: u8) + 256 * take_bit (8 * n) (drop_bit 8 w)"
    using Suc by simp
  also have "\<dots> = take_bit 8 w + push_bit 8 (take_bit (8 * n) (drop_bit 8 w))"
    by (simp add: push_bit_eq_mult unsigned_ucast_eq)
  also have "\<dots> = take_bit 8 w OR push_bit 8 (take_bit (8 * n) (drop_bit 8 w))"
    by (rule disjunctive_add) (auto simp: bit_simps)
  also have "\<dots> = take_bit (8 * Suc n) w" by (rule bit_word_eqI) (auto simp: bit_simps)
  finally show ?case .
qed simp

lemma load_put_other:
  assumes "unat p + n \<le> unat q \<or> unat q + k \<le> unat p" and "unat p + n < 2 ^ 64" and "unat q + k < 2 ^ 64"
  shows "load_le (put_le q k w m) p n = load_le m p n"
proof (rule load_le_agree, intro allI impI)
  fix i assume i: "i < n"
  have "p + of_nat i \<noteq> q + of_nat j" if j: "j < k" for j
  proof
    assume eq: "p + of_nat i = q + of_nat j"
    have "unat p + i = unat (p + of_nat i)" "unat q + j = unat (q + of_nat j)"
      using i j assms(2,3) by (simp_all add: unat_word_ariths unat_of_nat)
    with eq have "unat p + i = unat q + j" by simp
    then show False using assms(1) i j by linarith
  qed
  then have "\<forall>j < k. p + of_nat i \<noteq> q + of_nat j" by blast
  then show "put_le q k w m (p + of_nat i) = m (p + of_nat i)" by (rule put_le_other)
qed

definition frame_mem :: "u32 \<Rightarrow> u64 \<Rightarrow> mem" where
  "frame_mem pml4 entry =
     (put_le 0x108004 4 (ucast pml4) \<circ> put_le 0x108008 4 0x109020 \<circ> put_le 0x10800C 8 entry \<circ> put_le 0x108014 8 0x10A000 \<circ>
      put_le 0x10801C 8 kernel_stack_base \<circ> put_le 0x109020 2 23 \<circ> put_le 0x109022 4 0x109000 \<circ>
      put_le 0x109000 8 (gdt_word (loader_gdt ! 0)) \<circ> put_le 0x109008 8 (gdt_word (loader_gdt ! 1)) \<circ>
      put_le 0x109010 8 (gdt_word (loader_gdt ! 2))) (\<lambda>_. 0)"

definition frame_cpu :: "u32 \<Rightarrow> u64 \<Rightarrow> boot_cpu" where
  "frame_cpu pml4 entry = \<lparr>bc_cr0 = 0x11, bc_cr3 = 0, bc_cr4 = 0x600, bc_efer = 0, bc_gdtr = \<lparr>tp_limit = 0, tp_base = 0\<rparr>,
     bc_cs = 0, bc_data = 0, bc_ss = 0, bc_rdi = 0, bc_rsp = 0x108000, bc_rip = 0x100000, bc_mem = frame_mem pml4 entry\<rparr>"

lemma take_bit_u64: "take_bit 64 (w :: u64) = w" "take_bit 32 (ucast (v :: u32) :: u64) = ucast v"
  by (rule bit_word_eqI, auto simp: bit_simps dest: bit_imp_le_length)+

lemma all_below_3: "(\<forall>i < 3. P i) \<longleftrightarrow> P 0 \<and> P 1 \<and> P (2 :: nat)"
  by (auto simp: numeral_eq_Suc less_Suc_eq)

lemma frame_call: "longmode_call (frame_mem pml4 entry) 0x108000 pml4 0x109020 entry 0x10A000 kernel_stack_base"
  unfolding longmode_call_def frame_mem_def comp_def
  by (simp add: load_put_same load_put_other take_bit_u64)

lemma frame_gdt: "gdt_stored (frame_mem pml4 entry) 0x109020 0x109000"
proof -
  have "length loader_gdt = 3" by (simp add: loader_gdt_def)
  then show ?thesis unfolding gdt_stored_def frame_mem_def comp_def by (simp add: load_put_same load_put_other take_bit_u64 loader_gdt_ptr_def all_below_3)
qed

theorem kernel_entered_witness:
  "\<exists>h c. loader_main 5000 machine_boot example_image example_lits 0x101000 machine_loader MULTIBOOT2_BOOTLOADER_MAGIC 0x5FFD8 = Inr h \<and>
     enter_longmode (ld_mem (ho_loader h)) 0x100000 (frame_cpu (ucast (ho_pml4 h)) (ho_entry h)) = Inr c \<and>
     bc_rip c = e_entry (read_ehdr example_image 0x40000) \<and> bc_rdi c = 0x10A000 \<and> bc_cr3 c = ho_pml4 h"
proof -
  have "ucast (mod_start machine_boot 0x5FFE0) = (0x40000 :: u64)" by (simp add: mod_start_def machine_boot_def)
  then have ok: "kernel_ok 5000 example_image example_lits (ucast (mod_start machine_boot 0x5FFE0)) machine_alloc example_ctx"
    using machine_kernel_ok by simp
  obtain h where h: "loader_main 5000 machine_boot example_image example_lits 0x101000 machine_loader MULTIBOOT2_BOOTLOADER_MAGIC 0x5FFD8 = Inr h"
    using loader_main_runs [OF machine_boot_found machine_database_ok ok] by blast
  let ?c = "frame_cpu (ucast (ho_pml4 h)) (ho_entry h)"
  have c: "\<not> paging_on ?c" "bc_rsp ?c = 0x108000" "bc_mem ?c = frame_mem (ucast (ho_pml4 h)) (ho_entry h)"
    by (simp_all add: paging_on_def frame_cpu_def bit_numeral_rec)
  have "longmode_call (bc_mem ?c) (bc_rsp ?c) (ucast (ho_pml4 h)) 0x109020 (ho_entry h) 0x10A000 kernel_stack_base"
    "gdt_stored (bc_mem ?c) (ucast (0x109020 :: u32)) 0x109000" using frame_call frame_gdt by (simp_all add: c)
  from kernel_entered [OF machine_boot_found machine_database_ok ok h c(1) this, of "0x100000"] show ?thesis
    using h c(2) by (auto simp: example_ctx_def)
qed

end
