(* ===== verification/Arch_Entry.thy ===== *)
theory Arch_Entry
  imports Arch_Interrupts Loader_Main
begin

text \<open>
  The page table entry \<open>generic_page_entry\<close> of \<open>arch/x86-64/types.h\<close>: a union of a 64-bit word and a
  structure of bit fields. The other theories use the word, with its present bit, its address and
  the flags as a mask; here the two views are shown to be the same.
\<close>

record page_entry =
  pe_present :: "1 word"
  pe_writable :: "1 word"
  pe_user :: "1 word"
  pe_write_through :: "1 word"
  pe_cache_disable :: "1 word"
  pe_accessed :: "1 word"
  pe_dirty :: "1 word"
  pe_pat :: "1 word"
  pe_global :: "1 word"
  pe_ignored0 :: "3 word"
  pe_addr :: "40 word"
  pe_ignored1 :: "7 word"
  pe_protection_key :: "4 word"
  pe_execute_disable :: "1 word"

text \<open>The member \<open>data\<close> of the union, and the member \<open>f\<close>.\<close>

definition page_entry_word :: "page_entry \<Rightarrow> u64" where
  "page_entry_word e = pack
     [(1, ucast (pe_present e)), (1, ucast (pe_writable e)), (1, ucast (pe_user e)), (1, ucast (pe_write_through e)),
      (1, ucast (pe_cache_disable e)), (1, ucast (pe_accessed e)), (1, ucast (pe_dirty e)), (1, ucast (pe_pat e)),
      (1, ucast (pe_global e)), (3, ucast (pe_ignored0 e)), (40, ucast (pe_addr e)), (7, ucast (pe_ignored1 e)),
      (4, ucast (pe_protection_key e)), (1, ucast (pe_execute_disable e))]"

definition page_entry_of :: "u64 \<Rightarrow> page_entry" where
  "page_entry_of w =
     \<lparr>pe_present = ucast (field 0 1 w), pe_writable = ucast (field 1 1 w), pe_user = ucast (field 2 1 w),
      pe_write_through = ucast (field 3 1 w), pe_cache_disable = ucast (field 4 1 w), pe_accessed = ucast (field 5 1 w),
      pe_dirty = ucast (field 6 1 w), pe_pat = ucast (field 7 1 w), pe_global = ucast (field 8 1 w),
      pe_ignored0 = ucast (field 9 3 w), pe_addr = ucast (field 12 40 w), pe_ignored1 = ucast (field 52 7 w),
      pe_protection_key = ucast (field 59 4 w), pe_execute_disable = ucast (field 63 1 w)\<rparr>"

section \<open>The two views\<close>

fun fields_from :: "nat \<Rightarrow> nat list \<Rightarrow> u64 \<Rightarrow> (nat \<times> u64) list" where
  "fields_from pos [] w = []"
| "fields_from pos (u # us) w = (u, field pos u w) # fields_from (pos + u) us w"

lemma pack_fields: "pack (fields_from pos us w) = take_bit (sum_list us) (drop_bit pos w)"
proof (induction us arbitrary: pos)
  case (Cons u us)
  then show ?case by (auto intro!: bit_eqI simp: field_def bit_simps ac_simps)
qed simp

lemma ucast_field: "u \<le> LENGTH('a) \<Longrightarrow> ucast (ucast (field pos u w) :: 'a::len word) = field pos u w"
  by (rule bit_word_eqI) (auto simp: field_def bit_simps)

lemma ucast_back: "LENGTH('a) \<le> 64 \<Longrightarrow> ucast (ucast x :: u64) = (x :: 'a::len word)"
  by (rule bit_word_eqI) (auto simp: bit_simps)

lemma page_entry_fields:
  "field 0 1 (page_entry_word e) = ucast (pe_present e)" "field 1 1 (page_entry_word e) = ucast (pe_writable e)"
  "field 2 1 (page_entry_word e) = ucast (pe_user e)" "field 3 1 (page_entry_word e) = ucast (pe_write_through e)"
  "field 4 1 (page_entry_word e) = ucast (pe_cache_disable e)" "field 5 1 (page_entry_word e) = ucast (pe_accessed e)"
  "field 6 1 (page_entry_word e) = ucast (pe_dirty e)" "field 7 1 (page_entry_word e) = ucast (pe_pat e)"
  "field 8 1 (page_entry_word e) = ucast (pe_global e)" "field 9 3 (page_entry_word e) = ucast (pe_ignored0 e)"
  "field 12 40 (page_entry_word e) = ucast (pe_addr e)" "field 52 7 (page_entry_word e) = ucast (pe_ignored1 e)"
  "field 59 4 (page_entry_word e) = ucast (pe_protection_key e)" "field 63 1 (page_entry_word e) = ucast (pe_execute_disable e)"
  unfolding page_entry_word_def by (simp_all add: field_hd field_tl take_bit_ucast_self ucast_bit del: pack.simps)

text \<open>
  The union loses nothing: the fields read from a word built from them are those fields, and the
  word built from the fields of a word is that word.
\<close>

theorem page_entry_round_trip: "page_entry_of (page_entry_word e) = e \<and> page_entry_word (page_entry_of w) = w"
proof
  show "page_entry_of (page_entry_word e) = e" by (simp add: page_entry_of_def page_entry_fields ucast_back del: One_nat_def)
  have "page_entry_word (page_entry_of w) = pack (fields_from 0 [1, 1, 1, 1, 1, 1, 1, 1, 1, 3, 40, 7, 4, 1] w)"
    by (simp add: page_entry_word_def page_entry_of_def ucast_field del: pack.simps One_nat_def)
  also have "\<dots> = take_bit 64 (drop_bit 0 w)" unfolding pack_fields by simp
  also have "\<dots> = w" by (rule bit_word_eqI) (simp add: bit_simps)
  finally show "page_entry_word (page_entry_of w) = w" .
qed

text \<open>The present bit, the address and the flags of the loader, as fields.\<close>

lemma entry_present_field: "entry_present (page_entry_word e) \<longleftrightarrow> pe_present e = 1"
proof -
  have "entry_present w \<longleftrightarrow> field 0 1 w = 1" for w by (simp add: entry_present_def field_def take_bit_eq_mod bit_0 odd_iff_mod_2_eq_one)
  moreover have "ucast x = (1 :: u64) \<longleftrightarrow> x = 1" for x :: "1 word" using ucast_back [of x] by auto
  ultimately show ?thesis by (simp only: page_entry_fields)
qed

lemma entry_addr_field: "entry_addr (page_entry_word e) = push_bit 12 (ucast (pe_addr e))"
  using page_entry_fields(11) [of e] by (simp add: entry_addr_def field_def)

lemma flags_rw_fields:
  "page_entry_of flags_rw = (page_entry_of 0)\<lparr>pe_writable := 1\<rparr>" "page_entry_of (flags_rw OR 1) = (page_entry_of 0)\<lparr>pe_present := 1, pe_writable := 1\<rparr>"
  by code_simp+

end
